theory Spec2Isabelle
  imports Main "HOL-Library.Word"
begin

unbundle bit_operations_syntax

section \<open>Shared vocabulary\<close>

text \<open>
  Identifiers and addresses are Python integers read from SQLite INTEGER columns:
  unbounded, signed. The super-root of the executed graph is the address \<open>-1\<close>.
\<close>

type_synonym module_id = int
type_synonym binary_id = int
type_synonym func_id = int
type_synonym rva = int

section \<open>coverage\_parser.py: parsing a coverage file\<close>

text \<open>
  \<^verbatim>\<open>pattern = re.compile(r'^(.+?)\+([0-9a-fA-F]+)$')\<close>.
  The second group is a non-empty run of hex digits that reaches the end of the line, and
  the character before it is a plus sign. A hex digit is never a plus sign, so the only
  plus sign that can stand before the second group is the one before the longest suffix
  of hex digits; the first group is whatever stands before that plus sign, and it must
  not be empty. The line is the one left by \<^verbatim>\<open>line.strip()\<close>.
\<close>

definition is_hex_digit :: "char \<Rightarrow> bool" where
  "is_hex_digit c = (c \<in> set ''0123456789abcdefABCDEF'')"

definition hex_digit_val :: "char \<Rightarrow> int" where
  "hex_digit_val c =
     (let n = (of_char c :: int) in
      if 48 \<le> n \<and> n \<le> 57 then n - 48
      else if 97 \<le> n \<and> n \<le> 102 then n - 87
      else n - 55)"

text \<open>\<^verbatim>\<open>int(s, 16)\<close> on a string of hex digits.\<close>

definition int_of_hex :: "string \<Rightarrow> int" where
  "int_of_hex s = foldl (\<lambda>acc c. 16 * acc + hex_digit_val c) 0 s"

definition match_line :: "string \<Rightarrow> (string \<times> string) option" where
  "match_line line =
     (let digits = rev (takeWhile is_hex_digit (rev line));
          front = rev (dropWhile is_hex_digit (rev line))
      in if digits = [] then None
         else (case rev front of
                 [] \<Rightarrow> None
               | c # name_rev \<Rightarrow>
                   if c = CHR ''+'' \<and> name_rev \<noteq> [] then Some (rev name_rev, digits)
                   else None))"

definition upper_32 :: "int \<Rightarrow> int" where
  "upper_32 v = (drop_bit 32 v) AND 0xFFFFFFFF"

definition lower_32 :: "int \<Rightarrow> int" where
  "lower_32 v = v AND 0xFFFFFFFF"

text \<open>
  One iteration of the loop over the lines of the file: the two lists are
  \<^verbatim>\<open>blocks_data\<close> and \<^verbatim>\<open>edges_data\<close>. A line that does not match, and a line of an
  unknown module, leave both as they are.
\<close>

definition parse_line ::
  "(string \<rightharpoonup> module_id) \<Rightarrow> (module_id \<times> rva) list \<times> (module_id \<times> rva \<times> rva) list \<Rightarrow>
   string \<Rightarrow> (module_id \<times> rva) list \<times> (module_id \<times> rva \<times> rva) list" where
  "parse_line module_name_to_id acc line =
     (case acc of (blocks_data, edges_data) \<Rightarrow>
      if line = [] then acc
      else (case match_line line of
              None \<Rightarrow> acc
            | Some (module_name, digits) \<Rightarrow>
                (let v = int_of_hex digits in
                 case module_name_to_id module_name of
                   None \<Rightarrow> acc
                 | Some mid \<Rightarrow>
                     if upper_32 v \<noteq> 0
                     then (blocks_data, edges_data @ [(mid, upper_32 v, lower_32 v)])
                     else (blocks_data @ [(mid, lower_32 v)], edges_data))))"

text \<open>
  \<^verbatim>\<open>INSERT OR IGNORE\<close> into a table whose primary key is the whole row: a row that is
  already there is skipped.
\<close>

definition insert_or_ignore_row :: "'a list \<Rightarrow> 'a \<Rightarrow> 'a list" where
  "insert_or_ignore_row tbl r = (if r \<in> set tbl then tbl else tbl @ [r])"

definition executemany_ignore_rows :: "'a list \<Rightarrow> 'a list \<Rightarrow> 'a list" where
  "executemany_ignore_rows tbl rows = foldl insert_or_ignore_row tbl rows"

text \<open>
  \<^verbatim>\<open>parse_coverage_file\<close>: the tables \<^verbatim>\<open>cov_S_blocks\<close> and \<^verbatim>\<open>cov_S_edges\<close> before and
  after the file is read.
\<close>

definition parse_coverage_file ::
  "(string \<rightharpoonup> module_id) \<Rightarrow> string list \<Rightarrow>
   (module_id \<times> rva) list \<times> (module_id \<times> rva \<times> rva) list \<Rightarrow>
   (module_id \<times> rva) list \<times> (module_id \<times> rva \<times> rva) list" where
  "parse_coverage_file module_name_to_id lines tables =
     (case tables of (blocks_table, edges_table) \<Rightarrow>
      case foldl (parse_line module_name_to_id) ([], []) lines of
        (blocks_data, edges_data) \<Rightarrow>
          (executemany_ignore_rows blocks_table blocks_data,
           executemany_ignore_rows edges_table edges_data))"


section \<open>export\_viz\_data.py: blocks of the visualization export\<close>

text \<open>Python's \<^verbatim>\<open>hex\<close> on an integer: lower-case digits, no leading zeros, a sign first.\<close>

fun hex_digits :: "nat \<Rightarrow> string" where
  "hex_digits n =
     (if n < 16 then [''0123456789abcdef'' ! n]
      else hex_digits (n div 16) @ [''0123456789abcdef'' ! (n mod 16)])"

definition hex :: "int \<Rightarrow> string" where
  "hex n = (if n < 0 then ''-0x'' @ hex_digits (nat (- n)) else ''0x'' @ hex_digits (nat n))"

text \<open>
  \<^verbatim>\<open>hex(x) if x else None\<close>: the condition is Python's truth value of \<^verbatim>\<open>x\<close>, which is
  false for \<^verbatim>\<open>None\<close> and for the integer 0.
\<close>

definition hex_if_truthy :: "int option \<Rightarrow> string option" where
  "hex_if_truthy x = (case x of None \<Rightarrow> None | Some v \<Rightarrow> if v \<noteq> 0 then Some (hex v) else None)"

definition get_block_status :: "int \<Rightarrow> int \<Rightarrow> string" where
  "get_block_status in_A in_B =
     (if in_B \<noteq> 0 \<and> \<not> in_A \<noteq> 0 then ''new''
      else if in_A \<noteq> 0 \<and> \<not> in_B \<noteq> 0 then ''in_A''
      else if in_A \<noteq> 0 \<and> in_B \<noteq> 0 then ''in_both''
      else ''neither'')"

text \<open>
  Rows of \<^verbatim>\<open>basic_blocks\<close> in the master store:
  \<^verbatim>\<open>(binary_id, func_id, bb_rva, bb_start_va, bb_end_va)\<close>.
  Rows of \<^verbatim>\<open>bb_attributed_to\<close>: \<^verbatim>\<open>(binary_id, new_bb_rva, frontier_bb_rva, is_shared)\<close>,
  the third column nullable. Rows of \<^verbatim>\<open>frontier_targets\<close>:
  \<^verbatim>\<open>(binary_id, bb_rva, func_id, frontier_type)\<close>.
\<close>

type_synonym basic_block_row = "binary_id \<times> func_id \<times> rva \<times> int \<times> int"
type_synonym attributed_row = "binary_id \<times> rva \<times> rva option \<times> int"
type_synonym frontier_target_row = "binary_id \<times> rva \<times> func_id \<times> string"

text \<open>
  The dictionaries \<^verbatim>\<open>block_details\<close>, \<^verbatim>\<open>frontier_blocks\<close> and \<^verbatim>\<open>block_attribution\<close>:
  each is filled by a loop over the rows of one query, a later row of the same key
  replacing an earlier one.
\<close>

definition block_details_of ::
  "basic_block_row list \<Rightarrow> binary_id \<Rightarrow> rva list \<Rightarrow> (rva \<rightharpoonup> int \<times> int \<times> int)" where
  "block_details_of basic_blocks binary covered_keys =
     foldl (\<lambda>d (b, f, bb, start_va, end_va). d(bb \<mapsto> (start_va, end_va, end_va - start_va)))
       Map.empty
       (filter (\<lambda>(b, f, bb, start_va, end_va). b = binary \<and> bb \<in> set covered_keys) basic_blocks)"

definition frontier_blocks_of :: "frontier_target_row list \<Rightarrow> binary_id \<Rightarrow> (rva \<rightharpoonup> string)" where
  "frontier_blocks_of frontier_targets binary =
     foldl (\<lambda>d (b, bb, f, frontier_type). d(bb \<mapsto> frontier_type)) Map.empty
       (filter (\<lambda>(b, bb, f, frontier_type). b = binary) frontier_targets)"

definition block_attribution_of ::
  "attributed_row list \<Rightarrow> binary_id \<Rightarrow> (rva \<rightharpoonup> rva option \<times> bool)" where
  "block_attribution_of bb_attributed_to binary =
     foldl (\<lambda>d (b, new_bb, frontier, is_shared). d(new_bb \<mapsto> (frontier, is_shared \<noteq> 0)))
       Map.empty
       (filter (\<lambda>(b, new_bb, frontier, is_shared). b = binary) bb_attributed_to)"

record attribution_obj =
  is_attributed :: bool
  attr_frontier_bb_rva :: "string option"
  attr_is_shared :: bool

record block_obj =
  obj_bb_rva :: string
  obj_bb_start_va :: "string option"
  obj_bb_end_va :: "string option"
  obj_bb_size :: int
  obj_status :: string
  obj_is_frontier :: bool
  obj_frontier_type :: "string option"
  obj_attribution :: attribution_obj

text \<open>
  The body of the loop that builds \<^verbatim>\<open>blocks_array\<close>: one exported block. A block with
  no row in \<^verbatim>\<open>block_details\<close> gets the default
  \<^verbatim>\<open>{'start_va': None, 'end_va': None, 'size': 0}\<close>.
\<close>

definition export_block ::
  "(rva \<rightharpoonup> int \<times> int \<times> int) \<Rightarrow> (rva \<rightharpoonup> string) \<Rightarrow> (rva \<rightharpoonup> rva option \<times> bool) \<Rightarrow>
   rva \<Rightarrow> string \<Rightarrow> block_obj" where
  "export_block block_details frontier_blocks block_attribution bb status =
     (let (start_va, end_va, size) =
            (case block_details bb of
               None \<Rightarrow> (None, None, 0)
             | Some (s, e, sz) \<Rightarrow> (Some s, Some e, sz))
      in \<lparr> obj_bb_rva = hex bb,
           obj_bb_start_va = hex_if_truthy start_va,
           obj_bb_end_va = hex_if_truthy end_va,
           obj_bb_size = size,
           obj_status = status,
           obj_is_frontier = (frontier_blocks bb \<noteq> None),
           obj_frontier_type = frontier_blocks bb,
           obj_attribution =
             (case block_attribution bb of
                Some (frontier, shared) \<Rightarrow>
                  \<lparr> is_attributed = True,
                    attr_frontier_bb_rva = hex_if_truthy frontier,
                    attr_is_shared = shared \<rparr>
              | None \<Rightarrow>
                  \<lparr> is_attributed = False,
                    attr_frontier_bb_rva = None,
                    attr_is_shared = False \<rparr>) \<rparr>)"

text \<open>
  The \<^verbatim>\<open>blocks\<close> array of one function, as the body of the loop over the rows of
  \<^verbatim>\<open>functions\<close> builds it from the rows of \<^verbatim>\<open>bb_labels\<close>
  \<^verbatim>\<open>(binary_id, func_id, bb_rva, in_A, in_B, is_new)\<close> of the binary: one object per
  block of the function, sorted by address (the source sorts on the address parsed back
  from \<^verbatim>\<open>hex(bb_rva)\<close>, which is the address). The loop itself is \<open>export_functions\<close>
  below.
\<close>

type_synonym label_row = "binary_id \<times> func_id \<times> rva \<times> int \<times> int \<times> int"

definition export_function_blocks ::
  "basic_block_row list \<Rightarrow> label_row list \<Rightarrow> frontier_target_row list \<Rightarrow>
   attributed_row list \<Rightarrow> binary_id \<Rightarrow> func_id \<Rightarrow> block_obj list" where
  "export_function_blocks basic_blocks bb_labels frontier_targets bb_attributed_to binary func =
     (let rows = filter (\<lambda>(b, f, bb, in_A, in_B, is_new). b = binary) bb_labels;
          covered_keys = remdups (map (\<lambda>(b, f, bb, in_A, in_B, is_new). bb) rows);
          covered_blocks =
            foldl (\<lambda>d (b, f, bb, in_A, in_B, is_new). d(bb \<mapsto> (f, get_block_status in_A in_B)))
              Map.empty rows;
          block_details = block_details_of basic_blocks binary covered_keys;
          frontier_blocks = frontier_blocks_of frontier_targets binary;
          block_attribution = block_attribution_of bb_attributed_to binary;
          func_keys = filter (\<lambda>bb. case covered_blocks bb of
                                      Some (f, status) \<Rightarrow> f = func | None \<Rightarrow> False)
                        covered_keys
      in map (\<lambda>bb. export_block block_details frontier_blocks block_attribution bb
                     (case covered_blocks bb of Some (f, status) \<Rightarrow> status | None \<Rightarrow> []))
           (sort_key (\<lambda>bb. bb) func_keys))"

section \<open>coverage\_analyzer.py: resolving an address to its basic block\<close>

text \<open>
  Rows of \<^verbatim>\<open>rva_to_bb_cache\<close>: \<^verbatim>\<open>(binary_id, instruction_rva, bb_rva, func_id)\<close>, primary
  key \<^verbatim>\<open>(binary_id, instruction_rva)\<close>.
\<close>

type_synonym cache_row = "binary_id \<times> rva \<times> rva \<times> func_id"

definition cache_lookup :: "cache_row list \<Rightarrow> binary_id \<Rightarrow> rva \<Rightarrow> (rva \<times> func_id) option" where
  "cache_lookup cache binary instruction_rva =
     map_option (\<lambda>(b, i, bb, f). (bb, f))
       (find (\<lambda>(b, i, bb, f). b = binary \<and> i = instruction_rva) cache)"

text \<open>\<^verbatim>\<open>INSERT OR IGNORE INTO rva_to_bb_cache\<close>: a row whose key is taken is dropped.\<close>

definition cache_insert :: "cache_row list \<Rightarrow> cache_row \<Rightarrow> cache_row list" where
  "cache_insert cache row =
     (case row of (binary, instruction_rva, bb, f) \<Rightarrow>
        if \<exists>(b, i, bb', f') \<in> set cache. b = binary \<and> i = instruction_rva then cache
        else cache @ [row])"

text \<open>
  \<^verbatim>\<open>SELECT bb_rva, func_id FROM basic_blocks WHERE binary_id = ? AND bb_rva = ?\<close> with
  \<^verbatim>\<open>fetchone()\<close>: the first matching row.
\<close>

definition exact_block :: "basic_block_row list \<Rightarrow> binary_id \<Rightarrow> rva \<Rightarrow> (rva \<times> func_id) option" where
  "exact_block basic_blocks binary instruction_rva =
     map_option (\<lambda>(b, f, bb, s, e). (bb, f))
       (find (\<lambda>(b, f, bb, s, e). b = binary \<and> bb = instruction_rva) basic_blocks)"

text \<open>
  \<^verbatim>\<open>SELECT bb_rva, func_id, bb_end_va - bb_start_va ... WHERE binary_id = ? AND bb_rva <= ?
  ORDER BY bb_rva DESC LIMIT 1\<close>: a row of greatest \<^verbatim>\<open>bb_rva\<close> among those of the binary
  that start at or below the address; among rows of equal \<^verbatim>\<open>bb_rva\<close> the model takes the
  first.
\<close>

definition greatest_block_le ::
  "basic_block_row list \<Rightarrow> binary_id \<Rightarrow> rva \<Rightarrow> (rva \<times> func_id \<times> int) option" where
  "greatest_block_le basic_blocks binary instruction_rva =
     (case filter (\<lambda>(b, f, bb, s, e). b = binary \<and> bb \<le> instruction_rva) basic_blocks of
        [] \<Rightarrow> None
      | r # rs \<Rightarrow>
          (case foldl (\<lambda>best row. if fst (snd (snd best)) < fst (snd (snd row)) then row else best)
                  r rs of
             (b, f, bb, s, e) \<Rightarrow> Some (bb, f, e - s)))"

text \<open>
  \<^verbatim>\<open>find_containing_basic_block\<close>: the result and the cache after the call.
\<close>

definition find_containing_basic_block ::
  "basic_block_row list \<Rightarrow> cache_row list \<Rightarrow> binary_id \<Rightarrow> rva \<Rightarrow>
   (rva \<times> func_id) option \<times> cache_row list" where
  "find_containing_basic_block basic_blocks cache binary instruction_rva =
     (case cache_lookup cache binary instruction_rva of
        Some result \<Rightarrow> (Some result, cache)
      | None \<Rightarrow>
          (case exact_block basic_blocks binary instruction_rva of
             Some (bb, f) \<Rightarrow>
               (Some (bb, f), cache_insert cache (binary, instruction_rva, bb, f))
           | None \<Rightarrow>
               (case greatest_block_le basic_blocks binary instruction_rva of
                  Some (bb, f, bb_size) \<Rightarrow>
                    if instruction_rva \<le> bb + bb_size
                    then (Some (bb, f), cache_insert cache (binary, instruction_rva, bb, f))
                    else (None, cache)
                | None \<Rightarrow> (None, cache))))"

text \<open>
  A cache is consistent with the master store when every row of it is what the resolver
  returns for its key on an empty cache. The resolver only ever adds such rows.
\<close>

definition cache_consistent :: "basic_block_row list \<Rightarrow> cache_row list \<Rightarrow> bool" where
  "cache_consistent basic_blocks cache =
     (\<forall>(b, i, bb, f) \<in> set cache.
        fst (find_containing_basic_block basic_blocks [] b i) = Some (bb, f))"

text \<open>The master store holds one row per block: \<^verbatim>\<open>(binary_id, bb_rva)\<close> is a key.\<close>

definition unique_block_keys :: "basic_block_row list \<Rightarrow> bool" where
  "unique_block_keys basic_blocks = distinct (map (\<lambda>(b, f, bb, s, e). (b, bb)) basic_blocks)"

section \<open>coverage\_analyzer.py: deterministic path expansion\<close>

text \<open>
  Rows of \<^verbatim>\<open>cfg_edges\<close> in the master store:
  \<^verbatim>\<open>(binary_id, src_bb_rva, dst_bb_rva, edge_kind)\<close>, the kind nullable. Rows of
  \<^verbatim>\<open>cov_S_blocks_joined\<close>: \<^verbatim>\<open>(binary_id, func_id, bb_rva)\<close> with primary key
  \<^verbatim>\<open>(binary_id, bb_rva)\<close> (the fourth column is the constant 1).

  A Python \<^verbatim>\<open>set\<close> is a list without repetition, in insertion order; \<^verbatim>\<open>s.add(x)\<close> is
  \<open>set_add\<close>. The results below are stated on the sets of the lists, so the order in
  which Python iterates over a set does not matter to them.
\<close>

type_synonym cfg_edge_row = "binary_id \<times> rva \<times> rva \<times> string option"
type_synonym joined_row = "binary_id \<times> func_id \<times> rva"

definition set_add :: "'a list \<Rightarrow> 'a \<Rightarrow> 'a list" where
  "set_add xs x = (if x \<in> set xs then xs else xs @ [x])"

text \<open>
  The dictionary \<^verbatim>\<open>cfg\<close> of one binary, as the list of its edges
  \<^verbatim>\<open>(src, dst, kind if kind else 'unknown')\<close>; \<^verbatim>\<open>cfg[current]\<close> is \<open>cfg_succ cfg current\<close>,
  and \<^verbatim>\<open>current not in cfg\<close> is \<open>cfg_succ cfg current = []\<close>.
\<close>

definition build_cfg :: "cfg_edge_row list \<Rightarrow> binary_id \<Rightarrow> (rva \<times> rva \<times> string) list" where
  "build_cfg cfg_edges binary =
     map (\<lambda>(b, src, dst, kind).
            (src, dst, case kind of None \<Rightarrow> ''unknown''
                       | Some k \<Rightarrow> if k = [] then ''unknown'' else k))
       (filter (\<lambda>(b, src, dst, kind). b = binary) cfg_edges)"

definition cfg_succ :: "(rva \<times> rva \<times> string) list \<Rightarrow> rva \<Rightarrow> (rva \<times> string) list" where
  "cfg_succ cfg current = map snd (filter (\<lambda>(src, dst, kind). src = current) cfg)"

text \<open>
  One iteration of \<^verbatim>\<open>while queue:\<close> on the state
  \<^verbatim>\<open>(queue, visited_from_start, newly_discovered)\<close>.
\<close>

definition walk_step ::
  "(rva \<times> rva \<times> string) list \<Rightarrow> rva list \<Rightarrow> rva list \<times> rva list \<times> rva list \<Rightarrow>
   rva list \<times> rva list \<times> rva list" where
  "walk_step cfg covered_blocks st =
     (case st of (queue, visited_from_start, newly_discovered) \<Rightarrow>
      case queue of
        [] \<Rightarrow> st
      | current # rest \<Rightarrow>
          (case cfg_succ cfg current of
             [] \<Rightarrow> (rest, visited_from_start, newly_discovered)
           | [(dst, kind)] \<Rightarrow>
               if kind = ''fallthrough'' \<or> kind = ''branch_unconditional'' then
                 if dst \<notin> set visited_from_start then
                   if dst \<notin> set covered_blocks
                   then (rest @ [dst], set_add visited_from_start dst,
                         set_add newly_discovered dst)
                   else (rest, set_add visited_from_start dst, newly_discovered)
                 else (rest, visited_from_start, newly_discovered)
               else (rest, visited_from_start, newly_discovered)
           | _ \<Rightarrow> (rest, visited_from_start, newly_discovered)))"

text \<open>
  The loop itself. A run that never empties the queue has no result: \<open>None\<close>.
\<close>

partial_function (option) walk_loop ::
  "(rva \<times> rva \<times> string) list \<Rightarrow> rva list \<Rightarrow> rva list \<times> rva list \<times> rva list \<Rightarrow>
   (rva list \<times> rva list \<times> rva list) option" where
  "walk_loop cfg covered_blocks st =
     (if fst st = [] then Some st
      else walk_loop cfg covered_blocks (walk_step cfg covered_blocks st))"

declare walk_loop.simps [code]

text \<open>
  The same loop with a log of every block put on the queue (the start block first): what
  one iteration appends to the queue is what its queue holds beyond the rest of the
  queue before it.
\<close>

definition step_enqueued ::
  "(rva \<times> rva \<times> string) list \<Rightarrow> rva list \<Rightarrow> rva list \<times> rva list \<times> rva list \<Rightarrow> rva list" where
  "step_enqueued cfg covered_blocks st =
     drop (length (fst st) - 1) (fst (walk_step cfg covered_blocks st))"

partial_function (option) walk_trace ::
  "(rva \<times> rva \<times> string) list \<Rightarrow> rva list \<Rightarrow> rva list \<times> rva list \<times> rva list \<Rightarrow> rva list \<Rightarrow>
   ((rva list \<times> rva list \<times> rva list) \<times> rva list) option" where
  "walk_trace cfg covered_blocks st enqueued =
     (if fst st = [] then Some (st, enqueued)
      else walk_trace cfg covered_blocks (walk_step cfg covered_blocks st)
             (enqueued @ step_enqueued cfg covered_blocks st))"

declare walk_trace.simps [code]

text \<open>
  \<^verbatim>\<open>for start_bb in covered_blocks:\<close> with a fresh queue and visited set per start block;
  \<^verbatim>\<open>newly_discovered\<close> is shared by all start blocks of the binary.
\<close>

fun expand_starts ::
  "(rva \<times> rva \<times> string) list \<Rightarrow> rva list \<Rightarrow> rva list \<Rightarrow> rva list \<Rightarrow> rva list option" where
  "expand_starts cfg covered_blocks [] newly_discovered = Some newly_discovered"
| "expand_starts cfg covered_blocks (start_bb # starts) newly_discovered =
     (case walk_loop cfg covered_blocks ([start_bb], [start_bb], newly_discovered) of
        None \<Rightarrow> None
      | Some (queue, visited_from_start, nd) \<Rightarrow> expand_starts cfg covered_blocks starts nd)"

text \<open>
  \<^verbatim>\<open>SELECT func_id FROM basic_blocks WHERE binary_id = ? AND bb_rva = ?\<close> with \<^verbatim>\<open>fetchone()\<close>.
\<close>

definition block_func :: "basic_block_row list \<Rightarrow> binary_id \<Rightarrow> rva \<Rightarrow> func_id option" where
  "block_func basic_blocks binary bb_rva =
     map_option (\<lambda>(b, f, bb, s, e). f)
       (find (\<lambda>(b, f, bb, s, e). b = binary \<and> bb = bb_rva) basic_blocks)"

text \<open>\<^verbatim>\<open>INSERT OR IGNORE\<close> into a joined table: the key is \<^verbatim>\<open>(binary_id, bb_rva)\<close>.\<close>

definition joined_insert_or_ignore :: "joined_row list \<Rightarrow> joined_row \<Rightarrow> joined_row list" where
  "joined_insert_or_ignore tbl row =
     (case row of (binary, f, bb) \<Rightarrow>
        if \<exists>(b', f', bb') \<in> set tbl. b' = binary \<and> bb' = bb then tbl else tbl @ [row])"

definition covered_blocks_of :: "joined_row list \<Rightarrow> binary_id \<Rightarrow> rva list" where
  "covered_blocks_of tbl binary =
     remdups (map (\<lambda>(b, f, bb). bb) (filter (\<lambda>(b, f, bb). b = binary) tbl))"

text \<open>The body of \<^verbatim>\<open>for (binary_id,) in binaries:\<close>.\<close>

definition expand_binary ::
  "basic_block_row list \<Rightarrow> cfg_edge_row list \<Rightarrow> joined_row list \<Rightarrow> binary_id \<Rightarrow>
   joined_row list option" where
  "expand_binary basic_blocks cfg_edges tbl binary =
     (let covered_blocks = covered_blocks_of tbl binary;
          cfg = build_cfg cfg_edges binary
      in case expand_starts cfg covered_blocks covered_blocks [] of
           None \<Rightarrow> None
         | Some newly_discovered \<Rightarrow>
             (let blocks_to_add =
                    concat (map (\<lambda>bb. case block_func basic_blocks binary bb of
                                         None \<Rightarrow> []
                                       | Some f \<Rightarrow> [(binary, f, bb)])
                              newly_discovered)
              in Some (foldl joined_insert_or_ignore tbl blocks_to_add)))"

fun expand_binaries ::
  "basic_block_row list \<Rightarrow> cfg_edge_row list \<Rightarrow> joined_row list \<Rightarrow> binary_id list \<Rightarrow>
   joined_row list option" where
  "expand_binaries basic_blocks cfg_edges tbl [] = Some tbl"
| "expand_binaries basic_blocks cfg_edges tbl (binary # binaries) =
     (case expand_binary basic_blocks cfg_edges tbl binary of
        None \<Rightarrow> None
      | Some tbl' \<Rightarrow> expand_binaries basic_blocks cfg_edges tbl' binaries)"

text \<open>
  \<^verbatim>\<open>expand_deterministic_for_sample\<close>: the joined table of the sample after the
  expansion; the binaries are those of \<^verbatim>\<open>SELECT DISTINCT binary_id\<close> on the table before.
\<close>

definition expand_deterministic_for_sample ::
  "basic_block_row list \<Rightarrow> cfg_edge_row list \<Rightarrow> joined_row list \<Rightarrow> joined_row list option" where
  "expand_deterministic_for_sample basic_blocks cfg_edges tbl =
     expand_binaries basic_blocks cfg_edges tbl (remdups (map fst tbl))"

text \<open>
  The relation the expansion is meant to compute, in the words of the specification: an
  edge is deterministic when it is the only edge out of its source and its kind is
  \<^verbatim>\<open>fallthrough\<close> or \<^verbatim>\<open>branch_unconditional\<close>; the walk follows deterministic edges and
  stops when the successor is covered. A block is reconstructed when a non-empty walk
  from a covered block reaches it.
\<close>

definition det_edge :: "(rva \<times> rva \<times> string) list \<Rightarrow> rva \<Rightarrow> rva \<Rightarrow> bool" where
  "det_edge cfg x y =
     (\<exists>kind. cfg_succ cfg x = [(y, kind)] \<and>
             (kind = ''fallthrough'' \<or> kind = ''branch_unconditional''))"

definition det_step :: "(rva \<times> rva \<times> string) list \<Rightarrow> rva list \<Rightarrow> rva \<Rightarrow> rva \<Rightarrow> bool" where
  "det_step cfg covered_blocks x y = (det_edge cfg x y \<and> y \<notin> set covered_blocks)"

definition reconstructed :: "(rva \<times> rva \<times> string) list \<Rightarrow> rva list \<Rightarrow> rva \<Rightarrow> bool" where
  "reconstructed cfg covered_blocks n =
     (\<exists>s \<in> set covered_blocks. (det_step cfg covered_blocks)\<^sup>+\<^sup>+ s n)"

text \<open>
  The measure that shows the loop ends: every iteration takes a block off the queue, and
  puts one on it only when it adds a destination of the CFG to the visited set.
\<close>

definition walk_measure :: "(rva \<times> rva \<times> string) list \<Rightarrow> rva list \<times> rva list \<times> rva list \<Rightarrow> nat" where
  "walk_measure cfg st =
     (case st of (queue, visited_from_start, newly_discovered) \<Rightarrow>
        2 * card ((\<lambda>(src, dst, kind). dst) ` set cfg - set visited_from_start) + length queue)"

text \<open>
  The invariant of the walk from \<open>start_bb\<close>, with \<open>nd0\<close> the blocks discovered by earlier
  walks: the uncovered visited blocks are the blocks discovered so far by this walk, each
  is reached from the start by deterministic steps through uncovered blocks, and a
  deterministic step out of a block that is no longer on the queue leads to a visited
  block.
\<close>

definition walk_inv ::
  "(rva \<times> rva \<times> string) list \<Rightarrow> rva list \<Rightarrow> rva \<Rightarrow> rva list \<Rightarrow>
   rva list \<times> rva list \<times> rva list \<Rightarrow> bool" where
  "walk_inv cfg covered_blocks start_bb nd0 st =
     (case st of (queue, visited_from_start, newly_discovered) \<Rightarrow>
        (let V = set visited_from_start - set covered_blocks in
           set queue \<subseteq> insert start_bb V
         \<and> V \<subseteq> {n. (det_step cfg covered_blocks)\<^sup>+\<^sup>+ start_bb n}
         \<and> set newly_discovered = set nd0 \<union> V
         \<and> (\<forall>x \<in> insert start_bb V. \<forall>y. det_step cfg covered_blocks x y \<longrightarrow>
               y \<in> V \<or> x \<in> set queue)))"

section \<open>coverage\_analyzer.py: tables and their keys\<close>

text \<open>
  An exception that ends the run: \<^verbatim>\<open>sqlite3.IntegrityError\<close> (a plain \<^verbatim>\<open>INSERT\<close> of a row
  whose primary key is taken), \<^verbatim>\<open>KeyError\<close> (a dictionary read at a missing key), and the
  exit of \<^verbatim>\<open>main\<close> when no module could be mapped.
\<close>

datatype error = IntegrityError | KeyError | NoModulesMapped

text \<open>
  A table is the list of its rows. \<open>insert_plain\<close> is \<^verbatim>\<open>INSERT\<close> of a batch of rows into
  a table with a primary key: it raises when two rows of the batch, or a row of the batch
  and a row of the table, have the same key. \<open>insert_or_ignore\<close> skips a row whose key is
  taken, \<open>insert_or_replace\<close> deletes the row that holds the key first.
\<close>

definition insert_plain :: "('r \<Rightarrow> 'k) \<Rightarrow> 'r list \<Rightarrow> 'r list \<Rightarrow> error + 'r list" where
  "insert_plain key tbl rows =
     (if distinct (map key rows) \<and> (\<forall>r \<in> set rows. key r \<notin> key ` set tbl)
      then Inr (tbl @ rows) else Inl IntegrityError)"

definition insert_or_ignore :: "('r \<Rightarrow> 'k) \<Rightarrow> 'r list \<Rightarrow> 'r \<Rightarrow> 'r list" where
  "insert_or_ignore key tbl r = (if key r \<in> key ` set tbl then tbl else tbl @ [r])"

definition insert_or_replace :: "('r \<Rightarrow> 'k) \<Rightarrow> 'r list \<Rightarrow> 'r \<Rightarrow> 'r list" where
  "insert_or_replace key tbl r = filter (\<lambda>x. key x \<noteq> key r) tbl @ [r]"

text \<open>
  The \<^verbatim>\<open>edge_type\<close> column of \<^verbatim>\<open>graph_B_edges\<close> and \<^verbatim>\<open>frontier_edges\<close> holds one of seven
  texts, all written by \<^verbatim>\<open>build_executed_graph\<close>.
\<close>

datatype edge_type =
    SuperRoot | CfgFallthrough | CfgBranchUnconditional | CallDirect
  | ObservedConditional | ObservedReturnContinuation | SuperRootOrphan

fun edge_type_text :: "edge_type \<Rightarrow> string" where
  "edge_type_text SuperRoot = ''super_root''"
| "edge_type_text CfgFallthrough = ''cfg_fallthrough''"
| "edge_type_text CfgBranchUnconditional = ''cfg_branch_unconditional''"
| "edge_type_text CallDirect = ''call_direct''"
| "edge_type_text ObservedConditional = ''observed_conditional''"
| "edge_type_text ObservedReturnContinuation = ''observed_return_continuation''"
| "edge_type_text SuperRootOrphan = ''super_root_orphan''"

text \<open>
  SQLite's \<^verbatim>\<open>edge_type LIKE 'super_root%'\<close>: letters compare without case, the underscore
  of the pattern stands for any one character, the percent sign for any rest.
\<close>

definition ascii_lower :: "char \<Rightarrow> char" where
  "ascii_lower c =
     (if 65 \<le> (of_char c :: nat) \<and> (of_char c :: nat) \<le> 90
      then char_of ((of_char c :: nat) + 32) else c)"

definition like_super_root :: "string \<Rightarrow> bool" where
  "like_super_root s =
     (10 \<le> length s \<and> map ascii_lower (take 5 s) = ''super'' \<and>
      map ascii_lower (take 4 (drop 6 s)) = ''root'')"

text \<open>
  Rows of \<^verbatim>\<open>graph_B_nodes\<close>: \<^verbatim>\<open>(binary_id, bb_rva, func_id, is_new, in_A)\<close>, key
  \<^verbatim>\<open>(binary_id, bb_rva)\<close>. Rows of \<^verbatim>\<open>graph_B_edges\<close> and of \<^verbatim>\<open>frontier_edges\<close>:
  \<^verbatim>\<open>(binary_id, src_bb_rva, dst_bb_rva, edge_type)\<close>, the whole row the key. Rows of
  \<^verbatim>\<open>frontier_reachability\<close>: \<^verbatim>\<open>(binary_id, frontier_bb_rva, new_bb_rva)\<close>, the whole row
  the key. Rows of \<^verbatim>\<open>frontier_attribution\<close>: \<^verbatim>\<open>(binary_id, frontier_bb_rva,
  attributed_new_bb_count, unique_new_bb_count, shared_new_bb_count,
  attributed_new_func_count)\<close>, key \<^verbatim>\<open>(binary_id, frontier_bb_rva)\<close>. Rows of
  \<^verbatim>\<open>call_edges_static\<close>: \<^verbatim>\<open>(binary_id, src_bb_rva, dst_func_id)\<close>, the callee nullable.
  Rows of \<^verbatim>\<open>functions\<close>: \<^verbatim>\<open>(binary_id, func_id, func_name, entry_rva)\<close>. Rows of a raw
  \<^verbatim>\<open>cov_S_edges\<close> table: \<^verbatim>\<open>(module_id, src_bb_rva, dst_bb_rva)\<close>. Rows of
  \<^verbatim>\<open>module_binary_map\<close>: \<^verbatim>\<open>(module_id, binary_id, module_name, binary_name,
  sha256_hash)\<close>, key \<^verbatim>\<open>module_id\<close>.
\<close>

type_synonym node_row = "binary_id \<times> rva \<times> func_id \<times> int \<times> int"
type_synonym edge_row = "binary_id \<times> rva \<times> rva \<times> edge_type"
type_synonym reach_row = "binary_id \<times> rva \<times> rva"
type_synonym frontier_attribution_row = "binary_id \<times> rva \<times> int \<times> int \<times> int \<times> int"
type_synonym call_edge_row = "binary_id \<times> rva \<times> func_id option"
type_synonym function_row = "binary_id \<times> func_id \<times> string \<times> rva"
type_synonym cov_edge_row = "module_id \<times> rva \<times> rva"
type_synonym module_map_row = "module_id \<times> binary_id \<times> string \<times> string \<times> string"

definition label_key :: "label_row \<Rightarrow> binary_id \<times> rva" where
  "label_key r = (case r of (b, f, bb, in_A, in_B, is_new) \<Rightarrow> (b, bb))"

definition node_key :: "node_row \<Rightarrow> binary_id \<times> rva" where
  "node_key r = (case r of (b, bb, f, is_new, in_A) \<Rightarrow> (b, bb))"

definition target_key :: "frontier_target_row \<Rightarrow> binary_id \<times> rva" where
  "target_key r = (case r of (b, bb, f, frontier_type) \<Rightarrow> (b, bb))"

definition attributed_key :: "attributed_row \<Rightarrow> binary_id \<times> rva" where
  "attributed_key r = (case r of (b, new_bb, frontier, is_shared) \<Rightarrow> (b, new_bb))"

definition frontier_attribution_key :: "frontier_attribution_row \<Rightarrow> binary_id \<times> rva" where
  "frontier_attribution_key r = (case r of (b, frontier, tot, uniq, shared, funcs) \<Rightarrow> (b, frontier))"

section \<open>The two stores\<close>

text \<open>
  The master store is read only. The coverage store holds the raw coverage, the mapping
  of modules to binaries and every derived table; a stage of the analysis takes the store
  and returns the store it leaves, or the exception that ends the run.
\<close>

record master_store =
  master_analyzed_binaries :: "(binary_id \<times> string \<times> string) list"
  master_functions :: "function_row list"
  master_basic_blocks :: "basic_block_row list"
  master_cfg_edges :: "cfg_edge_row list"
  master_call_edges_static :: "call_edge_row list"

record cov_store =
  db_modules :: "(module_id \<times> string \<times> string) list"
  db_cov_A_blocks :: "(module_id \<times> rva) list"
  db_cov_A_edges :: "cov_edge_row list"
  db_cov_B_blocks :: "(module_id \<times> rva) list"
  db_cov_B_edges :: "cov_edge_row list"
  db_module_binary_map :: "module_map_row list"
  db_rva_to_bb_cache :: "cache_row list"
  db_cov_A_blocks_joined :: "joined_row list"
  db_cov_B_blocks_joined :: "joined_row list"
  db_bb_labels :: "label_row list"
  db_graph_B_nodes :: "node_row list"
  db_graph_B_edges :: "edge_row list"
  db_frontier_edges :: "edge_row list"
  db_frontier_targets :: "frontier_target_row list"
  db_frontier_reachability :: "reach_row list"
  db_frontier_attribution :: "frontier_attribution_row list"
  db_bb_attributed_to :: "attributed_row list"

section \<open>export\_viz\_data.py: the functions of the export\<close>

text \<open>
  The loop of \<^verbatim>\<open>export_module_data\<close> over the rows of \<^verbatim>\<open>functions\<close> of the binary whose
  \<^verbatim>\<open>func_id\<close> is the function of a covered block: \<^verbatim>\<open>functions_data\<close> gets one object per
  row, a later row of the same \<^verbatim>\<open>func_id\<close> replacing an earlier one, and the export lists
  the objects sorted by \<^verbatim>\<open>func_id\<close>. A function of a covered block without a row in
  \<^verbatim>\<open>functions\<close> has no object, and so none of its blocks is exported. Of the function
  object the model keeps \<^verbatim>\<open>func_id\<close>, \<^verbatim>\<open>func_name\<close>, \<^verbatim>\<open>entry_rva\<close> and \<^verbatim>\<open>blocks\<close>; the other
  fields (the addresses and the size of the function, its status, the indirect-call
  flag and the scores) do not enter the block objects.
\<close>

record func_obj =
  fobj_func_id :: func_id
  fobj_func_name :: string
  fobj_entry_rva :: string
  fobj_blocks :: "block_obj list"

definition covered_func_ids_of :: "label_row list \<Rightarrow> binary_id \<Rightarrow> func_id list" where
  "covered_func_ids_of bb_labels binary =
     (let rows = filter (\<lambda>(b, f, bb, in_A, in_B, is_new). b = binary) bb_labels;
          covered_keys = remdups (map (\<lambda>(b, f, bb, in_A, in_B, is_new). bb) rows);
          covered_blocks =
            foldl (\<lambda>d (b, f, bb, in_A, in_B, is_new). d(bb \<mapsto> f)) Map.empty rows
      in remdups (concat (map (\<lambda>bb. case covered_blocks bb of Some f \<Rightarrow> [f] | None \<Rightarrow> [])
                            covered_keys)))"

definition export_functions ::
  "function_row list \<Rightarrow> basic_block_row list \<Rightarrow> label_row list \<Rightarrow> frontier_target_row list \<Rightarrow>
   attributed_row list \<Rightarrow> binary_id \<Rightarrow> func_obj list" where
  "export_functions functions basic_blocks bb_labels frontier_targets bb_attributed_to binary =
     (let covered_func_ids = covered_func_ids_of bb_labels binary;
          func_rows = filter (\<lambda>(b, f, func_name, entry_rva). b = binary \<and> f \<in> set covered_func_ids)
                        functions;
          functions_data =
            foldl (\<lambda>d (b, f, func_name, entry_rva).
                     d(f \<mapsto> \<lparr> fobj_func_id = f, fobj_func_name = func_name,
                               fobj_entry_rva = hex entry_rva,
                               fobj_blocks =
                                 export_function_blocks basic_blocks bb_labels frontier_targets
                                   bb_attributed_to binary f \<rparr>))
              Map.empty func_rows
      in concat (map (\<lambda>f. case functions_data f of Some obj \<Rightarrow> [obj] | None \<Rightarrow> [])
                   (sort_key (\<lambda>f. f)
                      (remdups (map (\<lambda>(b, f, func_name, entry_rva). f) func_rows)))))"

section \<open>coverage\_analyzer.py: diff labels\<close>

text \<open>
  The \<^verbatim>\<open>SELECT ... GROUP BY binary_id, bb_rva\<close> of \<^verbatim>\<open>compute_diff_labels\<close>: one row per
  key of the union of the two joined tables, \<^verbatim>\<open>in_A\<close> and \<^verbatim>\<open>in_B\<close> the maxima over the
  group. \<^verbatim>\<open>func_id\<close> is a bare column of the grouped query: SQLite takes it from a row
  of the group that holds the maximum of an aggregate, which is the row of sample B when
  the group has one (the maximum of \<^verbatim>\<open>in_B\<close>) and the row of sample A otherwise. A joined
  table has one row per key, so this is the last row of the group, the rows of sample A
  standing before those of sample B.
\<close>

definition diff_label_rows :: "joined_row list \<Rightarrow> joined_row list \<Rightarrow> label_row list" where
  "diff_label_rows joined_A joined_B =
     (let unioned = map (\<lambda>(b, f, bb). (b, f, bb, 1 :: int, 0 :: int)) joined_A @
                    map (\<lambda>(b, f, bb). (b, f, bb, 0, 1)) joined_B;
          keys = remdups (map (\<lambda>(b, f, bb, in_A, in_B). (b, bb)) unioned)
      in map (\<lambda>(kb, kbb).
                (let grp = filter (\<lambda>(b, f, bb, in_A, in_B). b = kb \<and> bb = kbb) unioned;
                     max_A = Max (set (map (\<lambda>(b, f, bb, in_A, in_B). in_A) grp));
                     max_B = Max (set (map (\<lambda>(b, f, bb, in_A, in_B). in_B) grp))
                 in (kb, (case last grp of (b, f, bb, in_A, in_B) \<Rightarrow> f), kbb, max_A, max_B,
                     if max_B = 1 \<and> max_A = 0 then 1 else 0)))
           keys)"

text \<open>\<^verbatim>\<open>compute_diff_labels\<close>: a plain \<^verbatim>\<open>INSERT INTO bb_labels SELECT ...\<close>.\<close>

definition compute_diff_labels :: "cov_store \<Rightarrow> error + cov_store" where
  "compute_diff_labels s =
     (case insert_plain label_key (db_bb_labels s)
             (diff_label_rows (db_cov_A_blocks_joined s) (db_cov_B_blocks_joined s)) of
        Inl e \<Rightarrow> Inl e
      | Inr labels \<Rightarrow> Inr (s\<lparr> db_bb_labels := labels \<rparr>))"

section \<open>coverage\_analyzer.py: the executed graph\<close>

text \<open>
  \<^verbatim>\<open>edge_kind IN ('fallthrough', 'branch_unconditional')\<close> and the type \<^verbatim>\<open>f'cfg_{kind}'\<close> of
  the edge it gives; a null kind or any other kind gives no edge.
\<close>

definition cfg_edge_type :: "string option \<Rightarrow> edge_type option" where
  "cfg_edge_type kind =
     (if kind = Some ''fallthrough'' then Some CfgFallthrough
      else if kind = Some ''branch_unconditional'' then Some CfgBranchUnconditional
      else None)"

text \<open>\<^verbatim>\<open>b_nodes\<close>: the keys of the nodes other than the super-roots.\<close>

definition b_nodes_of :: "node_row list \<Rightarrow> (binary_id \<times> rva) list" where
  "b_nodes_of nodes =
     map (\<lambda>(b, bb, f, is_new, in_A). (b, bb)) (filter (\<lambda>(b, bb, f, is_new, in_A). bb \<noteq> - 1) nodes)"

definition graph_cfg_rows ::
  "cfg_edge_row list \<Rightarrow> (binary_id \<times> rva) list \<Rightarrow> binary_id \<Rightarrow> edge_row list" where
  "graph_cfg_rows cfg_edges b_nodes binary =
     concat (map (\<lambda>(b, src, dst, kind).
                    case cfg_edge_type kind of
                      None \<Rightarrow> []
                    | Some t \<Rightarrow>
                        if b = binary \<and> (binary, src) \<in> set b_nodes \<and> (binary, dst) \<in> set b_nodes
                        then [(binary, src, dst, t)] else [])
               cfg_edges)"

text \<open>\<^verbatim>\<open>SELECT entry_rva FROM functions WHERE binary_id = ? AND func_id = ?\<close>, first row.\<close>

definition function_entry :: "function_row list \<Rightarrow> binary_id \<Rightarrow> func_id \<Rightarrow> rva option" where
  "function_entry functions binary func =
     map_option (\<lambda>(b, f, name, entry). entry)
       (find (\<lambda>(b, f, name, entry). b = binary \<and> f = func) functions)"

definition graph_call_rows ::
  "call_edge_row list \<Rightarrow> function_row list \<Rightarrow> (binary_id \<times> rva) list \<Rightarrow> binary_id \<Rightarrow>
   edge_row list" where
  "graph_call_rows call_edges functions b_nodes binary =
     concat (map (\<lambda>(b, src, dst_func).
                    case dst_func of
                      None \<Rightarrow> []
                    | Some func \<Rightarrow>
                        if b \<noteq> binary then []
                        else (case function_entry functions binary func of
                                None \<Rightarrow> []
                              | Some dst \<Rightarrow>
                                  if (binary, src) \<in> set b_nodes \<and> (binary, dst) \<in> set b_nodes
                                  then [(binary, src, dst, CallDirect)] else []))
               call_edges)"

text \<open>
  The body of \<^verbatim>\<open>for (binary_id,) in binaries:\<close>: the deterministic CFG edges, then the
  direct call edges, each batch with \<^verbatim>\<open>INSERT OR IGNORE\<close>.
\<close>

definition graph_binary_edges ::
  "master_store \<Rightarrow> (binary_id \<times> rva) list \<Rightarrow> edge_row list \<Rightarrow> binary_id \<Rightarrow> edge_row list" where
  "graph_binary_edges master b_nodes edges binary =
     foldl (insert_or_ignore id)
       (foldl (insert_or_ignore id) edges
          (graph_cfg_rows (master_cfg_edges master) b_nodes binary))
       (graph_call_rows (master_call_edges_static master) (master_functions master) b_nodes binary)"

text \<open>
  \<^verbatim>\<open>SELECT m.binary_id, e.src_bb_rva, e.dst_bb_rva FROM cov_B_edges e JOIN module_binary_map m
  ON e.module_id = m.module_id\<close>.
\<close>

definition observed_edges_joined ::
  "cov_edge_row list \<Rightarrow> module_map_row list \<Rightarrow> (binary_id \<times> rva \<times> rva) list" where
  "observed_edges_joined edges_B module_map =
     concat (map (\<lambda>(mid, src, dst).
                    map (\<lambda>(m, b, mname, bname, hash). (b, src, dst))
                      (filter (\<lambda>(m, b, mname, bname, hash). m = mid) module_map))
               edges_B)"

text \<open>
  The loop over the observed edges: both ends are resolved (the cache is carried along),
  and the edge is kept when both blocks are nodes of the graph.
\<close>

fun observed_rows ::
  "basic_block_row list \<Rightarrow> (binary_id \<times> rva) list \<Rightarrow> (binary_id \<times> rva \<times> rva) list \<Rightarrow>
   cache_row list \<Rightarrow> edge_row list \<times> cache_row list" where
  "observed_rows basic_blocks b_nodes [] cache = ([], cache)"
| "observed_rows basic_blocks b_nodes ((binary, src_instruction_rva, dst_instruction_rva) # rest) cache =
     (case find_containing_basic_block basic_blocks cache binary src_instruction_rva of
        (src_result, cache1) \<Rightarrow>
     case find_containing_basic_block basic_blocks cache1 binary dst_instruction_rva of
        (dst_result, cache2) \<Rightarrow>
     case observed_rows basic_blocks b_nodes rest cache2 of
        (rows, cache3) \<Rightarrow>
          (case (src_result, dst_result) of
             (Some (src_bb, src_func), Some (dst_bb, dst_func)) \<Rightarrow>
               if (binary, src_bb) \<in> set b_nodes \<and> (binary, dst_bb) \<in> set b_nodes
               then ((binary, src_bb, dst_bb,
                      if src_instruction_rva \<noteq> src_bb then ObservedReturnContinuation
                      else ObservedConditional) # rows, cache3)
               else (rows, cache3)
           | _ \<Rightarrow> (rows, cache3)))"

text \<open>
  The rows of the last statement: one \<^verbatim>\<open>super_root_orphan\<close> edge for every new block of
  \<^verbatim>\<open>bb_labels\<close> that is not the destination of an edge of its binary of another type than
  \<^verbatim>\<open>super_root\<close> and \<^verbatim>\<open>super_root_orphan\<close>.
\<close>

definition orphan_rows :: "label_row list \<Rightarrow> edge_row list \<Rightarrow> edge_row list" where
  "orphan_rows bb_labels edges =
     remdups
       (map (\<lambda>(b, f, bb, in_A, in_B, is_new). (b, - 1, bb, SuperRootOrphan))
          (filter (\<lambda>(b, f, bb, in_A, in_B, is_new).
                     is_new = 1 \<and>
                     bb \<notin> set (map (\<lambda>(eb, src, dst, t). dst)
                                 (filter (\<lambda>(eb, src, dst, t).
                                            eb = b \<and> t \<noteq> SuperRoot \<and> t \<noteq> SuperRootOrphan)
                                    edges)))
             bb_labels))"

text \<open>
  The rows of the first three statements of \<^verbatim>\<open>build_executed_graph\<close>: a node for every
  label with \<^verbatim>\<open>in_B = 1\<close>, a super-root node \<^verbatim>\<open>(binary_id, -1, -1, 0, 1)\<close> for every
  binary of \<^verbatim>\<open>bb_labels\<close> (\<^verbatim>\<open>SELECT DISTINCT\<close>), and a \<^verbatim>\<open>super_root\<close> edge to every
  label with \<^verbatim>\<open>in_A = 1\<close>.
\<close>

definition b_node_rows :: "label_row list \<Rightarrow> node_row list" where
  "b_node_rows bb_labels =
     map (\<lambda>(b, f, bb, in_A, in_B, is_new). (b, bb, f, is_new, in_A))
       (filter (\<lambda>(b, f, bb, in_A, in_B, is_new). in_B = 1) bb_labels)"

definition super_root_node_rows :: "label_row list \<Rightarrow> node_row list" where
  "super_root_node_rows bb_labels =
     remdups (map (\<lambda>(b, f, bb, in_A, in_B, is_new). (b, - 1, - 1, 0, 1)) bb_labels)"

definition super_root_edge_rows :: "label_row list \<Rightarrow> edge_row list" where
  "super_root_edge_rows bb_labels =
     map (\<lambda>(b, f, bb, in_A, in_B, is_new). (b, - 1, bb, SuperRoot))
       (filter (\<lambda>(b, f, bb, in_A, in_B, is_new). in_A = 1) bb_labels)"

text \<open>
  \<^verbatim>\<open>build_executed_graph\<close>. The nodes, the super-root edges and the orphan edges are
  written with a plain \<^verbatim>\<open>INSERT\<close>, the other edges with \<^verbatim>\<open>INSERT OR IGNORE\<close>.
\<close>

definition build_executed_graph :: "master_store \<Rightarrow> cov_store \<Rightarrow> error + cov_store" where
  "build_executed_graph master s =
     (let labels = db_bb_labels s in
      case insert_plain node_key (db_graph_B_nodes s) (b_node_rows labels) of
        Inl e \<Rightarrow> Inl e
      | Inr nodes1 \<Rightarrow>
      case insert_plain node_key nodes1 (super_root_node_rows labels) of
        Inl e \<Rightarrow> Inl e
      | Inr nodes2 \<Rightarrow>
      case insert_plain id (db_graph_B_edges s) (super_root_edge_rows labels) of
        Inl e \<Rightarrow> Inl e
      | Inr edges1 \<Rightarrow>
          (let b_nodes = b_nodes_of nodes2;
               binaries = remdups (map (\<lambda>(b, f, bb, in_A, in_B, is_new). b) labels);
               edges2 = foldl (graph_binary_edges master b_nodes) edges1 binaries;
               (observed, cache') =
                 observed_rows (master_basic_blocks master) b_nodes
                   (observed_edges_joined (db_cov_B_edges s) (db_module_binary_map s))
                   (db_rva_to_bb_cache s);
               edges3 = foldl (insert_or_ignore id) edges2 observed
           in case insert_plain id edges3 (orphan_rows labels edges3) of
                Inl e \<Rightarrow> Inl e
              | Inr edges4 \<Rightarrow>
                  Inr (s\<lparr> db_graph_B_nodes := nodes2, db_graph_B_edges := edges4,
                          db_rva_to_bb_cache := cache' \<rparr>)))"

section \<open>coverage\_analyzer.py: frontier edges and targets\<close>

text \<open>
  The first statement of \<^verbatim>\<open>identify_frontier\<close>: the edges of the graph joined with the
  label of their source and the label of their destination, kept when the source has
  \<^verbatim>\<open>in_A = 1\<close>, the destination \<^verbatim>\<open>is_new = 1\<close> and the type is not \<^verbatim>\<open>super_root\<close>. The
  second statement: every \<^verbatim>\<open>super_root_orphan\<close> edge. Both are plain inserts.
\<close>

definition frontier_edge_rows :: "edge_row list \<Rightarrow> label_row list \<Rightarrow> edge_row list" where
  "frontier_edge_rows edges bb_labels =
     concat (map (\<lambda>(b, src, dst, t).
        concat (map (\<lambda>(sb, sf, sbb, s_in_A, s_in_B, s_is_new).
          concat (map (\<lambda>(db, df, dbb, d_in_A, d_in_B, d_is_new).
                         if sb = b \<and> sbb = src \<and> db = b \<and> dbb = dst \<and>
                            s_in_A = 1 \<and> d_is_new = 1 \<and>
                            edge_type_text t \<noteq> ''super_root''
                         then [(b, src, dst, t)] else [])
                    bb_labels))
          bb_labels))
        edges)"

definition orphan_edge_rows :: "edge_row list \<Rightarrow> edge_row list" where
  "orphan_edge_rows edges = filter (\<lambda>(b, src, dst, t). edge_type_text t = ''super_root_orphan'') edges"

text \<open>
  \<^verbatim>\<open>SELECT DISTINCT e.binary_id, e.dst_bb_rva, lbl.func_id FROM frontier_edges e JOIN
  bb_labels lbl ...\<close>: the candidates.
\<close>

definition frontier_candidates :: "edge_row list \<Rightarrow> label_row list \<Rightarrow> (binary_id \<times> rva \<times> func_id) list" where
  "frontier_candidates frontier_edges bb_labels =
     remdups
       (concat (map (\<lambda>(b, src, dst, t).
                  map (\<lambda>(lb, lf, lbb, in_A, in_B, is_new). (b, dst, lf))
                    (filter (\<lambda>(lb, lf, lbb, in_A, in_B, is_new). lb = b \<and> lbb = dst) bb_labels))
          frontier_edges))"

text \<open>
  The classification of one candidate. The count of incoming \<^verbatim>\<open>super_root_orphan\<close> edges
  decides first; otherwise the incoming edges whose type is not like \<^verbatim>\<open>super_root%\<close> are
  joined with the label of their source, and the two flags are read off the rows.
\<close>

definition incoming_labelled :: "edge_row list \<Rightarrow> label_row list \<Rightarrow> binary_id \<Rightarrow> rva \<Rightarrow> (rva \<times> int \<times> int) list" where
  "incoming_labelled edges bb_labels binary bb_rva =
     concat (map (\<lambda>(b, src, dst, t).
                    if b = binary \<and> dst = bb_rva \<and> \<not> like_super_root (edge_type_text t)
                    then map (\<lambda>(lb, lf, lbb, in_A, in_B, is_new). (src, in_A, is_new))
                           (filter (\<lambda>(lb, lf, lbb, in_A, in_B, is_new). lb = b \<and> lbb = src) bb_labels)
                    else [])
               edges)"

definition classify_frontier :: "edge_row list \<Rightarrow> label_row list \<Rightarrow> binary_id \<Rightarrow> rva \<Rightarrow> string" where
  "classify_frontier edges bb_labels binary bb_rva =
     (if 0 < length (filter (\<lambda>(b, src, dst, t).
                               b = binary \<and> dst = bb_rva \<and>
                               edge_type_text t = ''super_root_orphan'') edges)
      then ''weak''
      else (let incoming_edges = incoming_labelled edges bb_labels binary bb_rva;
                has_a_edge = (\<exists>(src, in_A, is_new) \<in> set incoming_edges. in_A = 1);
                has_new_edge = (\<exists>(src, in_A, is_new) \<in> set incoming_edges. is_new = 1)
            in if has_a_edge \<and> \<not> has_new_edge then ''strong'' else ''weak''))"

definition identify_frontier :: "cov_store \<Rightarrow> error + cov_store" where
  "identify_frontier s =
     (let edges = db_graph_B_edges s; labels = db_bb_labels s in
      case insert_plain id (db_frontier_edges s) (frontier_edge_rows edges labels) of
        Inl e \<Rightarrow> Inl e
      | Inr fe1 \<Rightarrow>
      case insert_plain id fe1 (orphan_edge_rows edges) of
        Inl e \<Rightarrow> Inl e
      | Inr fe2 \<Rightarrow>
          (let frontier_data =
                 map (\<lambda>(binary, bb_rva, func).
                        (binary, bb_rva, func, classify_frontier edges labels binary bb_rva))
                   (frontier_candidates fe2 labels)
           in case insert_plain target_key (db_frontier_targets s) frontier_data of
                Inl e \<Rightarrow> Inl e
              | Inr ft \<Rightarrow> Inr (s\<lparr> db_frontier_edges := fe2, db_frontier_targets := ft \<rparr>)))"

section \<open>coverage\_analyzer.py: reachability from the frontier targets\<close>

text \<open>
  The dictionary \<^verbatim>\<open>adjacency\<close> of one binary as the list of its \<^verbatim>\<open>(src, dst)\<close> pairs, all
  edge types included; \<^verbatim>\<open>adjacency[current]\<close> is \<open>neighbors adjacency current\<close>.
\<close>

definition adjacency_of :: "edge_row list \<Rightarrow> binary_id \<Rightarrow> (rva \<times> rva) list" where
  "adjacency_of edges binary =
     map (\<lambda>(b, src, dst, t). (src, dst)) (filter (\<lambda>(b, src, dst, t). b = binary) edges)"

definition neighbors :: "(rva \<times> rva) list \<Rightarrow> rva \<Rightarrow> rva list" where
  "neighbors adjacency current = map snd (filter (\<lambda>(src, dst). src = current) adjacency)"

text \<open>
  One iteration of the breadth-first loop on \<^verbatim>\<open>(queue, visited, reachable_new)\<close>; the inner
  \<^verbatim>\<open>for neighbor in adjacency[current]\<close> is the fold.
\<close>

definition bfs_step ::
  "(rva \<times> rva) list \<Rightarrow> rva list \<Rightarrow> rva list \<times> rva list \<times> rva list \<Rightarrow>
   rva list \<times> rva list \<times> rva list" where
  "bfs_step adjacency new_blocks st =
     (case st of (queue, visited, reachable_new) \<Rightarrow>
      case queue of
        [] \<Rightarrow> st
      | current # rest \<Rightarrow>
          (let reachable' = (if current \<in> set new_blocks then set_add reachable_new current
                             else reachable_new);
               (visited', queue') =
                 foldl (\<lambda>(v, q) neighbor.
                          if neighbor \<notin> set v then (set_add v neighbor, q @ [neighbor]) else (v, q))
                   (visited, rest) (neighbors adjacency current)
           in (queue', visited', reachable')))"

partial_function (option) bfs_loop ::
  "(rva \<times> rva) list \<Rightarrow> rva list \<Rightarrow> rva list \<times> rva list \<times> rva list \<Rightarrow>
   (rva list \<times> rva list \<times> rva list) option" where
  "bfs_loop adjacency new_blocks st =
     (if fst st = [] then Some st
      else bfs_loop adjacency new_blocks (bfs_step adjacency new_blocks st))"

declare bfs_loop.simps [code]

text \<open>
  \<^verbatim>\<open>for frontier_bb in frontier_targets:\<close> builds \<^verbatim>\<open>reachability_data\<close>, one row
  per frontier target and new block its search visited.
\<close>

fun reachability_rows ::
  "(rva \<times> rva) list \<Rightarrow> rva list \<Rightarrow> binary_id \<Rightarrow> rva list \<Rightarrow> reach_row list option" where
  "reachability_rows adjacency new_blocks binary [] = Some []"
| "reachability_rows adjacency new_blocks binary (frontier_bb # frontiers) =
     (case bfs_loop adjacency new_blocks ([frontier_bb], [frontier_bb], []) of
        None \<Rightarrow> None
      | Some (queue, visited, reachable_new) \<Rightarrow>
          (case reachability_rows adjacency new_blocks binary frontiers of
             None \<Rightarrow> None
           | Some rows \<Rightarrow> Some (map (\<lambda>new_bb. (binary, frontier_bb, new_bb)) reachable_new @ rows)))"

definition new_blocks_of :: "label_row list \<Rightarrow> binary_id \<Rightarrow> rva list" where
  "new_blocks_of bb_labels binary =
     remdups (map (\<lambda>(b, f, bb, in_A, in_B, is_new). bb)
                (filter (\<lambda>(b, f, bb, in_A, in_B, is_new). b = binary \<and> is_new = 1) bb_labels))"

definition frontier_targets_of :: "frontier_target_row list \<Rightarrow> binary_id \<Rightarrow> rva list" where
  "frontier_targets_of frontier_targets binary =
     map (\<lambda>(b, bb, f, frontier_type). bb) (filter (\<lambda>(b, bb, f, frontier_type). b = binary) frontier_targets)"

text \<open>The body of the loop over the binaries, on the table \<^verbatim>\<open>frontier_reachability\<close>.\<close>

definition reachability_binary :: "cov_store \<Rightarrow> reach_row list \<Rightarrow> binary_id \<Rightarrow> reach_row list option" where
  "reachability_binary s tbl binary =
     (case reachability_rows (adjacency_of (db_graph_B_edges s) binary)
             (new_blocks_of (db_bb_labels s) binary) binary
             (frontier_targets_of (db_frontier_targets s) binary) of
        None \<Rightarrow> None
      | Some reachability_data \<Rightarrow> Some (foldl (insert_or_ignore id) tbl reachability_data))"

fun reachability_binaries :: "cov_store \<Rightarrow> reach_row list \<Rightarrow> binary_id list \<Rightarrow> reach_row list option" where
  "reachability_binaries s tbl [] = Some tbl"
| "reachability_binaries s tbl (binary # binaries) =
     (case reachability_binary s tbl binary of
        None \<Rightarrow> None
      | Some tbl' \<Rightarrow> reachability_binaries s tbl' binaries)"

text \<open>\<^verbatim>\<open>SELECT DISTINCT binary_id FROM graph_B_nodes\<close>.\<close>

definition graph_binaries :: "cov_store \<Rightarrow> binary_id list" where
  "graph_binaries s = remdups (map (\<lambda>(b, bb, f, is_new, in_A). b) (db_graph_B_nodes s))"

definition compute_reachability :: "cov_store \<Rightarrow> cov_store option" where
  "compute_reachability s =
     (case reachability_binaries s (db_frontier_reachability s) (graph_binaries s) of
        None \<Rightarrow> None
      | Some tbl \<Rightarrow> Some (s\<lparr> db_frontier_reachability := tbl \<rparr>))"

text \<open>The measure of the breadth-first loop.\<close>

definition bfs_measure :: "(rva \<times> rva) list \<Rightarrow> rva list \<times> rva list \<times> rva list \<Rightarrow> nat" where
  "bfs_measure adjacency st =
     (case st of (queue, visited, reachable_new) \<Rightarrow>
        2 * card (snd ` set adjacency - set visited) + length queue)"

section \<open>coverage\_analyzer.py: attribution\<close>

text \<open>
  \<^verbatim>\<open>new_block_to_frontiers\<close>, a \<^verbatim>\<open>defaultdict(list)\<close>, as an association list in the order
  in which the keys were first written; the loop appends \<^verbatim>\<open>frontier_bb\<close> to the list of
  \<^verbatim>\<open>new_bb\<close> for every row \<^verbatim>\<open>(frontier_bb, new_bb)\<close>.
\<close>

definition append_frontier :: "(rva \<times> rva list) list \<Rightarrow> rva \<times> rva \<Rightarrow> (rva \<times> rva list) list" where
  "append_frontier d row =
     (case row of (frontier_bb, new_bb) \<Rightarrow>
        if new_bb \<in> fst ` set d
        then map (\<lambda>(k, fs). if k = new_bb then (k, fs @ [frontier_bb]) else (k, fs)) d
        else d @ [(new_bb, [frontier_bb])])"

definition new_block_to_frontiers :: "(rva \<times> rva) list \<Rightarrow> (rva \<times> rva list) list" where
  "new_block_to_frontiers rows = foldl append_frontier [] rows"

text \<open>
  \<^verbatim>\<open>frontier_attribution_map\<close>: per frontier the sets \<^verbatim>\<open>unique\<close>, \<^verbatim>\<open>shared\<close> and \<^verbatim>\<open>funcs\<close>; a
  key is created with three empty sets when it is first read.
\<close>

type_synonym attribution_sets = "rva list \<times> rva list \<times> func_id list"

definition fam_update ::
  "(rva \<times> attribution_sets) list \<Rightarrow> rva \<Rightarrow> (attribution_sets \<Rightarrow> attribution_sets) \<Rightarrow>
   (rva \<times> attribution_sets) list" where
  "fam_update m frontier g =
     (if frontier \<in> fst ` set m
      then map (\<lambda>(k, v). if k = frontier then (k, g v) else (k, v)) m
      else m @ [(frontier, g ([], [], []))])"

text \<open>
  The loop over \<^verbatim>\<open>new_block_to_frontiers.items()\<close>: the state is
  \<^verbatim>\<open>(frontier_attribution_map, block_attribution)\<close>; \<^verbatim>\<open>new_blocks[new_bb]\<close> raises
  \<^verbatim>\<open>KeyError\<close> for a block that is not in the dictionary of new blocks.
\<close>

fun attribute_blocks ::
  "(rva \<rightharpoonup> func_id) \<Rightarrow> (rva \<times> rva list) list \<Rightarrow>
   (rva \<times> attribution_sets) list \<times> (rva \<times> rva option \<times> int) list \<Rightarrow>
   error + (rva \<times> attribution_sets) list \<times> (rva \<times> rva option \<times> int) list" where
  "attribute_blocks new_blocks [] acc = Inr acc"
| "attribute_blocks new_blocks ((new_bb, frontiers) # items) (fam, block_attribution) =
     (case new_blocks new_bb of
        None \<Rightarrow> Inl KeyError
      | Some func \<Rightarrow>
          if length frontiers = 1 then
            attribute_blocks new_blocks items
              (fam_update fam (hd frontiers)
                 (\<lambda>(uniq, shared, funcs). (set_add uniq new_bb, shared, set_add funcs func)),
               block_attribution @ [(new_bb, Some (hd frontiers), 0)])
          else
            attribute_blocks new_blocks items
              (foldl (\<lambda>m frontier.
                        fam_update m frontier
                          (\<lambda>(uniq, shared, funcs). (uniq, set_add shared new_bb, set_add funcs func)))
                 fam frontiers,
               block_attribution @ [(new_bb, None, 1)]))"

definition new_blocks_dict :: "label_row list \<Rightarrow> binary_id \<Rightarrow> (rva \<rightharpoonup> func_id)" where
  "new_blocks_dict bb_labels binary =
     foldl (\<lambda>d (b, f, bb, in_A, in_B, is_new). d(bb \<mapsto> f)) Map.empty
       (filter (\<lambda>(b, f, bb, in_A, in_B, is_new). b = binary \<and> is_new = 1) bb_labels)"

text \<open>
  The body of the loop over the binaries, on the tables \<^verbatim>\<open>frontier_attribution\<close> and
  \<^verbatim>\<open>bb_attributed_to\<close>, both written with \<^verbatim>\<open>INSERT OR REPLACE\<close>.
\<close>

definition attribution_binary ::
  "cov_store \<Rightarrow> frontier_attribution_row list \<times> attributed_row list \<Rightarrow> binary_id \<Rightarrow>
   error + frontier_attribution_row list \<times> attributed_row list" where
  "attribution_binary s tables binary =
     (case tables of (fa_tbl, ba_tbl) \<Rightarrow>
      case attribute_blocks (new_blocks_dict (db_bb_labels s) binary)
             (new_block_to_frontiers
                (map (\<lambda>(b, frontier_bb, new_bb). (frontier_bb, new_bb))
                   (filter (\<lambda>(b, frontier_bb, new_bb). b = binary) (db_frontier_reachability s))))
             ([], []) of
        Inl e \<Rightarrow> Inl e
      | Inr (fam, block_attribution) \<Rightarrow>
          Inr (foldl (insert_or_replace frontier_attribution_key) fa_tbl
                 (map (\<lambda>(frontier, uniq, shared, funcs).
                         (binary, frontier, int (length uniq) + int (length shared),
                          int (length uniq), int (length shared), int (length funcs)))
                    fam),
               foldl (insert_or_replace attributed_key) ba_tbl
                 (map (\<lambda>(bb, frontier, is_shared). (binary, bb, frontier, is_shared))
                    block_attribution)))"

fun attribution_binaries ::
  "cov_store \<Rightarrow> frontier_attribution_row list \<times> attributed_row list \<Rightarrow> binary_id list \<Rightarrow>
   error + frontier_attribution_row list \<times> attributed_row list" where
  "attribution_binaries s tables [] = Inr tables"
| "attribution_binaries s tables (binary # binaries) =
     (case attribution_binary s tables binary of
        Inl e \<Rightarrow> Inl e
      | Inr tables' \<Rightarrow> attribution_binaries s tables' binaries)"

definition compute_attribution :: "cov_store \<Rightarrow> error + cov_store" where
  "compute_attribution s =
     (case attribution_binaries s (db_frontier_attribution s, db_bb_attributed_to s)
             (graph_binaries s) of
        Inl e \<Rightarrow> Inl e
      | Inr (fa_tbl, ba_tbl) \<Rightarrow>
          Inr (s\<lparr> db_frontier_attribution := fa_tbl, db_bb_attributed_to := ba_tbl \<rparr>))"

text \<open>
  The rows that the loop body computes for \<^verbatim>\<open>bb_attributed_to\<close> from the rows of
  \<^verbatim>\<open>frontier_reachability\<close> of one binary, when no lookup of a new block fails.
\<close>

definition block_attribution_rows :: "reach_row list \<Rightarrow> binary_id \<Rightarrow> attributed_row list" where
  "block_attribution_rows reachability binary =
     map (\<lambda>(new_bb, frontiers).
            (binary, new_bb, if length frontiers = 1 then Some (hd frontiers) else None,
             if length frontiers = 1 then 0 else 1))
       (new_block_to_frontiers
          (map (\<lambda>(b, frontier_bb, new_bb). (frontier_bb, new_bb))
             (filter (\<lambda>(b, frontier_bb, new_bb). b = binary) reachability)))"

section \<open>coverage\_analyzer.py: the stages in order\<close>

text \<open>
  The stages of \<^verbatim>\<open>main\<close> from the diff labels to the frontier identification, and on
  to the attribution, in the order of the source; an exception of a stage ends the run. (\<^verbatim>\<open>aggregate_scores\<close> and
  \<^verbatim>\<open>print_summary\<close>, which follow, only read the tables written here and write the two
  score tables.) The result is \<open>None\<close> when a loop does not return.
\<close>

definition frontier_stages :: "master_store \<Rightarrow> cov_store \<Rightarrow> error + cov_store" where
  "frontier_stages master s =
     (case compute_diff_labels s of
        Inl e \<Rightarrow> Inl e
      | Inr s1 \<Rightarrow>
      case build_executed_graph master s1 of
        Inl e \<Rightarrow> Inl e
      | Inr s2 \<Rightarrow> identify_frontier s2)"

definition analysis_stages :: "master_store \<Rightarrow> cov_store \<Rightarrow> (error + cov_store) option" where
  "analysis_stages master s =
     (case frontier_stages master s of
        Inl e \<Rightarrow> Some (Inl e)
      | Inr s3 \<Rightarrow>
      case compute_reachability s3 of
        None \<Rightarrow> None
      | Some s4 \<Rightarrow> Some (compute_attribution s4))"

text \<open>
  The derived tables of a coverage store on which the analysis has not run yet.
\<close>

definition fresh_derived :: "cov_store \<Rightarrow> bool" where
  "fresh_derived s =
     (db_bb_labels s = [] \<and> db_graph_B_nodes s = [] \<and> db_graph_B_edges s = [] \<and>
      db_frontier_edges s = [] \<and> db_frontier_targets s = [] \<and>
      db_frontier_reachability s = [] \<and> db_frontier_attribution s = [] \<and>
      db_bb_attributed_to s = [])"

text \<open>
  What the grouped query guarantees of \<^verbatim>\<open>bb_labels\<close>: one row per key, flags that are 0
  or 1, not both 0, and \<^verbatim>\<open>is_new\<close> set exactly for the rows in B and not in A.
\<close>

definition labels_ok :: "label_row list \<Rightarrow> bool" where
  "labels_ok bb_labels =
     (distinct (map label_key bb_labels) \<and>
      (\<forall>r \<in> set bb_labels.
         case r of (b, f, bb, in_A, in_B, is_new) \<Rightarrow>
           (in_A = 0 \<or> in_A = 1) \<and> (in_B = 0 \<or> in_B = 1) \<and> (in_A = 1 \<or> in_B = 1) \<and>
           is_new = (if in_B = 1 \<and> in_A = 0 then 1 else 0)))"

text \<open>The edge types other than the two written for the super-root.\<close>

definition regular_type :: "edge_type \<Rightarrow> bool" where
  "regular_type t = (t \<noteq> SuperRoot \<and> t \<noteq> SuperRootOrphan)"

text \<open>An edge of a regular type between two nodes of the graph.\<close>

definition regular_edge :: "(binary_id \<times> rva) list \<Rightarrow> edge_row \<Rightarrow> bool" where
  "regular_edge b_nodes e =
     (case e of (b, src, dst, t) \<Rightarrow>
        regular_type t \<and> (b, src) \<in> set b_nodes \<and> (b, dst) \<in> set b_nodes)"

section \<open>coverage\_analyzer.py: mapping, join and main\<close>

text \<open>
  \<^verbatim>\<open>map_modules_to_binaries\<close>: every module of the coverage store is mapped to the first
  binary of the master store with the same hash (\<^verbatim>\<open>fetchone()\<close>); the mapping is written
  with \<^verbatim>\<open>INSERT OR REPLACE\<close>, the key of \<^verbatim>\<open>module_binary_map\<close> being \<^verbatim>\<open>module_id\<close>. The
  function returns the number of mapped modules (the list of the unmapped ones goes to
  the report only).
\<close>

definition module_key :: "module_map_row \<Rightarrow> module_id" where
  "module_key r = (case r of (module, binary, module_name, binary_name, sha256_hash) \<Rightarrow> module)"

definition map_modules_to_binaries :: "master_store \<Rightarrow> cov_store \<Rightarrow> nat \<times> cov_store" where
  "map_modules_to_binaries master s =
     (let mapping =
            concat (map (\<lambda>(module, module_name, sha256_hash).
                           case find (\<lambda>(binary, binary_name, h). h = sha256_hash)
                                  (master_analyzed_binaries master) of
                             None \<Rightarrow> []
                           | Some (binary, binary_name, h) \<Rightarrow>
                               [(module, binary, module_name, binary_name, sha256_hash)])
                      (db_modules s))
      in (length mapping,
          s\<lparr> db_module_binary_map :=
                foldl (insert_or_replace module_key) (db_module_binary_map s) mapping \<rparr>))"

text \<open>
  \<^verbatim>\<open>join_coverage_to_blocks\<close>. The coverage entries are the rows of the blocks table
  followed by the source and the destination of every row of the edges table. The loop
  state is \<^verbatim>\<open>(processed_blocks, rva_to_bb_cache, joined_data)\<close>; an entry of a module
  without a mapping, or that the resolver does not find, goes to the report only.
\<close>

definition coverage_entries :: "(module_id \<times> rva) list \<Rightarrow> cov_edge_row list \<Rightarrow> (module_id \<times> rva) list" where
  "coverage_entries blocks edges =
     blocks @ concat (map (\<lambda>(module, src_rva, dst_rva). [(module, src_rva), (module, dst_rva)]) edges)"

definition module_binary :: "module_map_row list \<Rightarrow> module_id \<Rightarrow> binary_id option" where
  "module_binary module_map module =
     map_option (\<lambda>(m, binary, module_name, binary_name, sha256_hash). binary)
       (find (\<lambda>(m, binary, module_name, binary_name, sha256_hash). m = module) module_map)"

definition join_entry ::
  "basic_block_row list \<Rightarrow> module_map_row list \<Rightarrow>
   (module_id \<times> rva) list \<times> cache_row list \<times> joined_row list \<Rightarrow> module_id \<times> rva \<Rightarrow>
   (module_id \<times> rva) list \<times> cache_row list \<times> joined_row list" where
  "join_entry basic_blocks module_map st entry =
     (case st of (processed_blocks, cache, joined_data) \<Rightarrow>
      case entry of (module, instruction_rva) \<Rightarrow>
        if (module, instruction_rva) \<in> set processed_blocks then st
        else
          (case module_binary module_map module of
             None \<Rightarrow> (set_add processed_blocks (module, instruction_rva), cache, joined_data)
           | Some binary \<Rightarrow>
               (case find_containing_basic_block basic_blocks cache binary instruction_rva of
                  (Some (bb_rva, func), cache') \<Rightarrow>
                    (set_add processed_blocks (module, instruction_rva), cache',
                     joined_data @ [(binary, func, bb_rva)])
                | (None, cache') \<Rightarrow>
                    (set_add processed_blocks (module, instruction_rva), cache', joined_data))))"

datatype sample = Sample_A | Sample_B

definition join_coverage_to_blocks :: "master_store \<Rightarrow> sample \<Rightarrow> cov_store \<Rightarrow> cov_store" where
  "join_coverage_to_blocks master sample_name s =
     (let entries = (case sample_name of
                       Sample_A \<Rightarrow> coverage_entries (db_cov_A_blocks s) (db_cov_A_edges s)
                     | Sample_B \<Rightarrow> coverage_entries (db_cov_B_blocks s) (db_cov_B_edges s));
          (processed_blocks, cache, joined_data) =
            foldl (join_entry (master_basic_blocks master) (db_module_binary_map s))
              ([], db_rva_to_bb_cache s, []) entries
      in case sample_name of
           Sample_A \<Rightarrow> s\<lparr> db_rva_to_bb_cache := cache,
                    db_cov_A_blocks_joined :=
                      foldl joined_insert_or_ignore (db_cov_A_blocks_joined s) joined_data \<rparr>
         | Sample_B \<Rightarrow> s\<lparr> db_rva_to_bb_cache := cache,
                    db_cov_B_blocks_joined :=
                      foldl joined_insert_or_ignore (db_cov_B_blocks_joined s) joined_data \<rparr>)"

text \<open>The expansion of a sample, on the store.\<close>

definition expand_sample :: "master_store \<Rightarrow> sample \<Rightarrow> cov_store \<Rightarrow> cov_store option" where
  "expand_sample master sample_name s =
     (case sample_name of
        Sample_A \<Rightarrow> map_option (\<lambda>tbl. s\<lparr> db_cov_A_blocks_joined := tbl \<rparr>)
               (expand_deterministic_for_sample (master_basic_blocks master) (master_cfg_edges master)
                  (db_cov_A_blocks_joined s))
      | Sample_B \<Rightarrow> map_option (\<lambda>tbl. s\<lparr> db_cov_B_blocks_joined := tbl \<rparr>)
               (expand_deterministic_for_sample (master_basic_blocks master) (master_cfg_edges master)
                  (db_cov_B_blocks_joined s)))"

text \<open>
  \<^verbatim>\<open>main\<close>, from the mapping of the modules to the attribution, on a coverage store whose
  tables exist (\<^verbatim>\<open>create_analysis_tables\<close> creates a table only if it does not exist, so
  it leaves the tables of an earlier run as they are). The run ends with exit code 1 when
  no module is mapped or when a stage raises. The report of the missing blocks is a file
  of its own, and \<^verbatim>\<open>aggregate_scores\<close> and \<^verbatim>\<open>print_summary\<close> follow the stages modelled
  here.
\<close>

definition main :: "master_store \<Rightarrow> cov_store \<Rightarrow> (error + cov_store) option" where
  "main master s =
     (case map_modules_to_binaries master s of (mapped_count, s1) \<Rightarrow>
        if mapped_count = 0 then Some (Inl NoModulesMapped)
        else
          (case expand_sample master Sample_A (join_coverage_to_blocks master Sample_A s1) of
             None \<Rightarrow> None
           | Some s2 \<Rightarrow>
               (case expand_sample master Sample_B (join_coverage_to_blocks master Sample_B s2) of
                  None \<Rightarrow> None
                | Some s3 \<Rightarrow> analysis_stages master s3)))"

section \<open>A worked example\<close>

text \<open>
  One binary (id 1, module 5) with one function and the blocks 100 to 600. Block 100
  branches conditionally to 200 and to 300, both fall through to 500. Sample A covers
  100, 200 and 400; sample B covers all six blocks and records the transitions from 100
  to 300 and from 100 to 200. So 300, 500 and 600 are new: 300 is entered from the
  A-covered block 100 only, 500 from the A-covered block 200 and from the new block 300,
  and 600 has no incoming edge at all (an orphan entry, as in Scenario 4 of the
  specification).
\<close>

definition example_master :: master_store where
  "example_master =
     \<lparr> master_analyzed_binaries = [(1, ''x.dll'', ''h1'')],
       master_functions = [(1, 7, ''f'', 100)],
       master_basic_blocks =
         [(1, 7, 100, 0x400100, 0x400110), (1, 7, 200, 0x400200, 0x400210),
          (1, 7, 300, 0x400300, 0x400310), (1, 7, 400, 0x400400, 0x400410),
          (1, 7, 500, 0x400500, 0x400510), (1, 7, 600, 0x400600, 0x400610)],
       master_cfg_edges =
         [(1, 100, 200, Some ''branch_conditional''), (1, 100, 300, Some ''branch_conditional''),
          (1, 200, 500, Some ''fallthrough''), (1, 300, 500, Some ''fallthrough'')],
       master_call_edges_static = [] \<rparr>"

definition example_store :: cov_store where
  "example_store =
     \<lparr> db_modules = [(5, ''x.dll'', ''h1'')],
       db_cov_A_blocks = [(5, 100), (5, 200), (5, 400)],
       db_cov_A_edges = [],
       db_cov_B_blocks = [(5, 100), (5, 200), (5, 300), (5, 400), (5, 500), (5, 600)],
       db_cov_B_edges = [(5, 100, 300), (5, 100, 200)],
       db_module_binary_map = [(5, 1, ''x.dll'', ''x.dll'', ''h1'')],
       db_rva_to_bb_cache = [],
       db_cov_A_blocks_joined = [(1, 7, 100), (1, 7, 200), (1, 7, 400)],
       db_cov_B_blocks_joined =
         [(1, 7, 100), (1, 7, 200), (1, 7, 300), (1, 7, 400), (1, 7, 500), (1, 7, 600)],
       db_bb_labels = [], db_graph_B_nodes = [], db_graph_B_edges = [],
       db_frontier_edges = [], db_frontier_targets = [], db_frontier_reachability = [],
       db_frontier_attribution = [], db_bb_attributed_to = [] \<rparr>"

text \<open>
  The same coverage as it is before the first run of the analysis: the raw tables only.
\<close>

definition example_input :: cov_store where
  "example_input =
     \<lparr> db_modules = [(5, ''x.dll'', ''h1'')],
       db_cov_A_blocks = [(5, 100), (5, 200), (5, 400)],
       db_cov_A_edges = [],
       db_cov_B_blocks = [(5, 100), (5, 200), (5, 300), (5, 400), (5, 500), (5, 600)],
       db_cov_B_edges = [(5, 100, 300), (5, 100, 200)],
       db_module_binary_map = [],
       db_rva_to_bb_cache = [],
       db_cov_A_blocks_joined = [],
       db_cov_B_blocks_joined = [],
       db_bb_labels = [], db_graph_B_nodes = [], db_graph_B_edges = [],
       db_frontier_edges = [], db_frontier_targets = [], db_frontier_reachability = [],
       db_frontier_attribution = [], db_bb_attributed_to = [] \<rparr>"

section \<open>Properties of the coverage parser\<close>

lemma and_ffffffff: "(v::int) AND 0xFFFFFFFF = v mod 2 ^ 32"
proof -
  have "v AND 0xFFFFFFFF = v AND mask 32" by (simp add: mask_eq_exp_minus_1)
  also have "\<dots> = take_bit 32 v" by (simp add: take_bit_eq_mask)
  also have "\<dots> = v mod 2 ^ 32" by (simp add: take_bit_eq_mod)
  finally show ?thesis .
qed

lemma upper_32_div: "upper_32 v = (v div 2 ^ 32) mod 2 ^ 32"
  unfolding upper_32_def and_ffffffff by (simp add: drop_bit_eq_div)

lemma lower_32_mod: "lower_32 v = v mod 2 ^ 32"
  unfolding lower_32_def and_ffffffff by simp

lemma upper_32_small:
  assumes "0 \<le> v" and "v < 2 ^ 64"
  shows "upper_32 v = v div 2 ^ 32"
proof -
  have "v div 2 ^ 32 < 2 ^ 32" using assms by (simp add: div_less_iff_less_mult)
  moreover have "0 \<le> v div 2 ^ 32" using assms by simp
  ultimately show ?thesis by (simp add: upper_32_div)
qed

lemma hex_digit_val_nonneg: "is_hex_digit c \<Longrightarrow> 0 \<le> hex_digit_val c"
  by (auto simp: is_hex_digit_def hex_digit_val_def)

lemma foldl_hex_nonneg:
  "0 \<le> a \<Longrightarrow> \<forall>c\<in>set s. is_hex_digit c \<Longrightarrow>
   0 \<le> foldl (\<lambda>acc c. 16 * acc + hex_digit_val c) a s"
proof (induction s arbitrary: a)
  case Nil
  then show ?case by simp
next
  case (Cons c s)
  have "0 \<le> hex_digit_val c" using Cons.prems(2) by (simp add: hex_digit_val_nonneg)
  then have "0 \<le> 16 * a + hex_digit_val c" using Cons.prems(1) by simp
  then show ?case using Cons.IH Cons.prems(2) by simp
qed

lemma match_line_digits:
  assumes "match_line line = Some (name, digits)"
  shows "digits \<noteq> [] \<and> (\<forall>c\<in>set digits. is_hex_digit c) \<and> name \<noteq> [] \<and>
         line = name @ ''+'' @ digits"
proof -
  let ?d = "rev (takeWhile is_hex_digit (rev line))"
  let ?f = "rev (dropWhile is_hex_digit (rev line))"
  have split: "line = ?f @ ?d"
    by (metis rev_append rev_rev_ident takeWhile_dropWhile_id)
  from assms have d: "?d \<noteq> []"
    by (auto simp: match_line_def Let_def split: if_splits)
  from assms d obtain c name_rev where f: "rev ?f = c # name_rev"
    and c: "c = CHR ''+''" and n: "name_rev \<noteq> []" and nm: "name = rev name_rev"
    and dg: "digits = ?d"
    by (auto simp: match_line_def Let_def split: if_splits list.splits)
  have "?f = rev name_rev @ [c]" using f by (metis rev.simps(2) rev_rev_ident)
  then have "line = name @ ''+'' @ digits" using split nm c dg by simp
  moreover have "\<forall>c\<in>set digits. is_hex_digit c"
    using dg by (auto dest: set_takeWhileD)
  ultimately show ?thesis using d dg n nm by simp
qed

lemma int_of_hex_nonneg: "\<forall>c\<in>set s. is_hex_digit c \<Longrightarrow> 0 \<le> int_of_hex s"
  unfolding int_of_hex_def by (rule foldl_hex_nonneg) simp_all

lemma set_executemany_ignore_rows:
  "set (executemany_ignore_rows tbl rows) = set tbl \<union> set rows"
  unfolding executemany_ignore_rows_def
  by (induction rows arbitrary: tbl) (auto simp: insert_or_ignore_row_def)

lemma parse_line_mono:
  "set (fst acc) \<subseteq> set (fst (parse_line m acc line)) \<and>
   set (snd acc) \<subseteq> set (snd (parse_line m acc line))"
  by (cases acc) (auto simp: parse_line_def Let_def split: option.splits)

lemma foldl_parse_line_mono:
  "set (fst acc) \<subseteq> set (fst (foldl (parse_line m) acc ls)) \<and>
   set (snd acc) \<subseteq> set (snd (foldl (parse_line m) acc ls))"
proof (induction ls arbitrary: acc)
  case Nil
  then show ?case by simp
next
  case (Cons l ls)
  show ?case using parse_line_mono [of acc m l] Cons.IH [of "parse_line m acc l"] by auto
qed

lemma parse_line_known:
  assumes "match_line line = Some (name, digits)" and "m name = Some mid"
  shows "parse_line m (bd, ed) line =
           (if upper_32 (int_of_hex digits) \<noteq> 0
            then (bd, ed @ [(mid, upper_32 (int_of_hex digits), lower_32 (int_of_hex digits))])
            else (bd @ [(mid, lower_32 (int_of_hex digits))], ed))"
proof -
  have "line \<noteq> []" using match_line_digits [OF assms(1)] by simp
  then show ?thesis using assms by (simp add: parse_line_def Let_def)
qed

lemma foldl_parse_line_member:
  assumes "line \<in> set ls" and "match_line line = Some (name, digits)" and "m name = Some mid"
  shows "if upper_32 (int_of_hex digits) \<noteq> 0
         then (mid, upper_32 (int_of_hex digits), lower_32 (int_of_hex digits))
                \<in> set (snd (foldl (parse_line m) acc ls))
         else (mid, lower_32 (int_of_hex digits)) \<in> set (fst (foldl (parse_line m) acc ls))"
  using assms(1)
proof (induction ls arbitrary: acc)
  case Nil
  then show ?case by simp
next
  case (Cons l ls)
  show ?case
  proof (cases "line \<in> set ls")
    case True
    then show ?thesis using Cons.IH [of "parse_line m acc l"] by simp
  next
    case False
    then have l: "l = line" using Cons.prems by simp
    obtain bd ed where acc: "acc = (bd, ed)" by (cases acc)
    have step: "parse_line m acc line =
           (if upper_32 (int_of_hex digits) \<noteq> 0
            then (bd, ed @ [(mid, upper_32 (int_of_hex digits), lower_32 (int_of_hex digits))])
            else (bd @ [(mid, lower_32 (int_of_hex digits))], ed))"
      unfolding acc by (rule parse_line_known [where m = m, OF assms(2,3)])
    show ?thesis
      using foldl_parse_line_mono [of "parse_line m acc line" m ls] step l
      by (auto split: if_splits)
  qed
qed

text \<open>
  C8. For a line of a known module whose hex value \<open>v\<close> fits in 64 bits, the two halves
  are the high and the low 32 bits of \<open>v\<close> (\<open>v div 2^32\<close> and \<open>v mod 2^32\<close>); the loop
  body appends \<open>(module_id, high, low)\<close> to the edge rows when the high half is not zero
  and \<open>(module_id, low)\<close> to the block rows when it is zero; and after the bulk insert
  that row is in \<^verbatim>\<open>cov_S_edges\<close>, respectively \<^verbatim>\<open>cov_S_blocks\<close>.
\<close>

theorem parse_coverage_file_split:
  assumes "match_line line = Some (name, digits)"
    and "m name = Some mid"
    and "int_of_hex digits < 2 ^ 64"
  shows "upper_32 (int_of_hex digits) = int_of_hex digits div 2 ^ 32
       \<and> lower_32 (int_of_hex digits) = int_of_hex digits mod 2 ^ 32
       \<and> parse_line m (bd, ed) line =
           (if int_of_hex digits div 2 ^ 32 \<noteq> 0
            then (bd, ed @ [(mid, int_of_hex digits div 2 ^ 32, int_of_hex digits mod 2 ^ 32)])
            else (bd @ [(mid, int_of_hex digits mod 2 ^ 32)], ed))
       \<and> (line \<in> set lines \<longrightarrow>
           (if int_of_hex digits div 2 ^ 32 \<noteq> 0
            then (mid, int_of_hex digits div 2 ^ 32, int_of_hex digits mod 2 ^ 32)
                   \<in> set (snd (parse_coverage_file m lines (blocks_table, edges_table)))
            else (mid, int_of_hex digits mod 2 ^ 32)
                   \<in> set (fst (parse_coverage_file m lines (blocks_table, edges_table)))))"
proof -
  let ?v = "int_of_hex digits"
  have nonneg: "0 \<le> ?v"
    using match_line_digits [OF assms(1)] by (simp add: int_of_hex_nonneg)
  have up: "upper_32 ?v = ?v div 2 ^ 32" by (rule upper_32_small [OF nonneg assms(3)])
  have lo: "lower_32 ?v = ?v mod 2 ^ 32" by (rule lower_32_mod)
  have step: "parse_line m (bd, ed) line =
           (if ?v div 2 ^ 32 \<noteq> 0
            then (bd, ed @ [(mid, ?v div 2 ^ 32, ?v mod 2 ^ 32)])
            else (bd @ [(mid, ?v mod 2 ^ 32)], ed))"
    using parse_line_known [where m = m and bd = bd and ed = ed, OF assms(1,2)] unfolding up lo .
  have tab: "line \<in> set lines \<Longrightarrow>
           (if ?v div 2 ^ 32 \<noteq> 0
            then (mid, ?v div 2 ^ 32, ?v mod 2 ^ 32)
                   \<in> set (snd (parse_coverage_file m lines (blocks_table, edges_table)))
            else (mid, ?v mod 2 ^ 32)
                   \<in> set (fst (parse_coverage_file m lines (blocks_table, edges_table))))"
  proof -
    assume "line \<in> set lines"
    from foldl_parse_line_member [where m = m and acc = "([], [])", OF this assms(1,2)]
    show ?thesis
      unfolding up lo
      by (auto simp: parse_coverage_file_def set_executemany_ignore_rows
               split: prod.splits if_splits)
  qed
  show ?thesis using up lo step tab by blast
qed

theorem parse_coverage_file_split_witness:
  "match_line ''m+0000101c00002000'' = Some (''m'', ''0000101c00002000'')
 \<and> [''m'' \<mapsto> 7] ''m'' = Some 7
 \<and> int_of_hex ''0000101c00002000'' < 2 ^ 64
 \<and> upper_32 (int_of_hex ''0000101c00002000'') = 0x101c
 \<and> lower_32 (int_of_hex ''0000101c00002000'') = 0x2000
 \<and> parse_line [''m'' \<mapsto> 7] ([], []) ''m+0000101c00002000'' = ([], [(7, 0x101c, 0x2000)])
 \<and> (7, 0x101c, 0x2000)
      \<in> set (snd (parse_coverage_file [''m'' \<mapsto> 7] [''m+0000101c00002000''] ([], [])))"
proof -
  have a: "match_line ''m+0000101c00002000'' = Some (''m'', ''0000101c00002000'')"
    by (simp add: match_line_def is_hex_digit_def)
  have b: "[''m'' \<mapsto> (7::int)] ''m'' = Some 7" by simp
  have v: "int_of_hex ''0000101c00002000'' = 0x101c00002000"
    by (simp add: int_of_hex_def hex_digit_val_def)
  have c: "int_of_hex ''0000101c00002000'' < 2 ^ 64" unfolding v by simp
  have d: "(0x101c00002000 :: int) div 2 ^ 32 = 0x101c" by simp
  have e: "(0x101c00002000 :: int) mod 2 ^ 32 = 0x2000" by simp
  show ?thesis
    using parse_coverage_file_split [where m = "[''m'' \<mapsto> 7]" and bd = "[]" and ed = "[]"
        and lines = "[''m+0000101c00002000'']" and blocks_table = "[]" and edges_table = "[]",
        OF a b c]
    using a c unfolding v d e by simp
qed

section \<open>Properties of the visualization export\<close>

lemma export_block_addresses:
  assumes "block_details bb = Some (s, e, sz)"
  shows "obj_bb_start_va (export_block block_details frontier_blocks block_attribution bb st)
           = (if s = 0 then None else Some (hex s))"
    and "obj_bb_end_va (export_block block_details frontier_blocks block_attribution bb st)
           = (if e = 0 then None else Some (hex e))"
  using assms by (simp_all add: export_block_def hex_if_truthy_def)

lemma export_block_attribution:
  assumes "block_attribution bb = Some (Some f, shared)"
  shows "attr_frontier_bb_rva
           (obj_attribution (export_block block_details frontier_blocks block_attribution bb st))
           = (if f = 0 then None else Some (hex f))"
  using assms by (simp add: export_block_def hex_if_truthy_def split: option.splits prod.splits)

text \<open>
  C9. The export of a binary loaded at address 0: the block at RVA 0 has
  \<^verbatim>\<open>bb_start_va = 0\<close> in \<^verbatim>\<open>basic_blocks\<close> and is the frontier to which both new blocks are
  uniquely attributed. The exported \<^verbatim>\<open>bb_start_va\<close> of that block is \<^verbatim>\<open>None\<close> although the
  address is in \<^verbatim>\<open>basic_blocks\<close>, and both blocks carry \<^verbatim>\<open>frontier_bb_rva = None\<close> although
  \<^verbatim>\<open>is_shared\<close> is false; \<^verbatim>\<open>bb_rva\<close>, formatted without the truth test, is \<^verbatim>\<open>'0x0'\<close>.
\<close>

theorem export_zero_address_dropped:
  "map (\<lambda>blk. (obj_bb_rva blk, obj_bb_start_va blk, obj_bb_end_va blk,
               is_attributed (obj_attribution blk),
               attr_frontier_bb_rva (obj_attribution blk),
               attr_is_shared (obj_attribution blk)))
     (export_function_blocks
        [(1, 7, 0, 0, 0x10), (1, 7, 0x10, 0x10, 0x20)]
        [(1, 7, 0, 0, 1, 1), (1, 7, 0x10, 0, 1, 1)]
        [(1, 0, 7, ''weak'')]
        [(1, 0, Some 0, 0), (1, 0x10, Some 0, 0)]
        1 7)
   = [(''0x0'', None, Some ''0x10'', True, None, False),
      (''0x10'', Some ''0x10'', Some ''0x20'', True, None, False)]"
  by (simp add: export_function_blocks_def export_block_def block_details_of_def
        frontier_blocks_of_def block_attribution_of_def hex_if_truthy_def hex_def
        get_block_status_def)

text \<open>
  The same store through the loop over the rows of \<^verbatim>\<open>functions\<close>: the function at entry
  RVA 0 is exported with \<^verbatim>\<open>entry_rva = '0x0'\<close>, formatted without the truth test, and with
  the two blocks above. Without a row in \<^verbatim>\<open>functions\<close> nothing is exported.
\<close>

lemma export_functions_zero_address:
  "map (\<lambda>fo. (fobj_func_id fo, fobj_func_name fo, fobj_entry_rva fo,
              map (\<lambda>blk. (obj_bb_rva blk, obj_bb_start_va blk,
                           attr_frontier_bb_rva (obj_attribution blk)))
                (fobj_blocks fo)))
     (export_functions
        [(1, 7, ''f'', 0)]
        [(1, 7, 0, 0, 0x10), (1, 7, 0x10, 0x10, 0x20)]
        [(1, 7, 0, 0, 1, 1), (1, 7, 0x10, 0, 1, 1)]
        [(1, 0, 7, ''weak'')]
        [(1, 0, Some 0, 0), (1, 0x10, Some 0, 0)]
        1)
   = [(7, ''f'', ''0x0'', [(''0x0'', None, None), (''0x10'', Some ''0x10'', None)])]"
  by (simp add: export_functions_def covered_func_ids_of_def export_function_blocks_def
        export_block_def block_details_of_def frontier_blocks_of_def block_attribution_of_def
        hex_if_truthy_def hex_def get_block_status_def)

lemma export_functions_no_row:
  "export_functions [] basic_blocks bb_labels frontier_targets bb_attributed_to binary = []"
  by (simp add: export_functions_def)

section \<open>Properties of the address resolver\<close>

lemma find_SomeD': "find P xs = Some x \<Longrightarrow> x \<in> set xs \<and> P x"
  by (induction xs) (auto split: if_splits)

lemma foldl_max_props:
  fixes r :: basic_block_row
  defines "key \<equiv> (\<lambda>row :: basic_block_row. fst (snd (snd row)))"
  shows "foldl (\<lambda>best row. if key best < key row then row else best) r rs \<in> set (r # rs) \<and>
         (\<forall>x\<in>set (r # rs). key x \<le> key (foldl (\<lambda>best row. if key best < key row then row else best) r rs))"
proof (induction rs arbitrary: r)
  case Nil
  then show ?case by simp
next
  case (Cons a rs)
  show ?case using Cons.IH [of "if key r < key a then a else r"]
    by (auto split: if_splits)
qed

lemma greatest_block_le_Some:
  assumes "greatest_block_le bbs binary rva = Some (bb, f, sz)"
  shows "\<exists>s e. (binary, f, bb, s, e) \<in> set bbs \<and> sz = e - s \<and> bb \<le> rva \<and>
           (\<forall>(b', f', bb', s', e') \<in> set bbs. b' = binary \<and> bb' \<le> rva \<longrightarrow> bb' \<le> bb)"
proof -
  let ?P = "\<lambda>(b, f, bb, s, e). b = binary \<and> bb \<le> rva"
  let ?key = "\<lambda>row :: basic_block_row. fst (snd (snd row))"
  from assms obtain r rs where frs: "filter ?P bbs = r # rs"
    by (auto simp: greatest_block_le_def split: list.splits)
  let ?m = "foldl (\<lambda>best row. if ?key best < ?key row then row else best) r rs"
  obtain b0 f0 bb0 s0 e0 where m: "?m = (b0, f0, bb0, s0, e0)" by (cases ?m)
  from assms frs m have eq: "bb = bb0" "f = f0" "sz = e0 - s0"
    by (auto simp: greatest_block_le_def)
  have props: "?m \<in> set (r # rs)" "\<forall>x\<in>set (r # rs). ?key x \<le> ?key ?m"
    using foldl_max_props [of r rs] by blast+
  have "?m \<in> set (filter ?P bbs)" using props(1) frs by simp
  then have mem: "(b0, f0, bb0, s0, e0) \<in> set bbs" and b0: "b0 = binary" and le: "bb0 \<le> rva"
    using m by auto
  have max: "\<forall>(b', f', bb', s', e') \<in> set bbs. b' = binary \<and> bb' \<le> rva \<longrightarrow> bb' \<le> bb0"
  proof (clarify)
    fix f' bb' s' e'
    assume "(binary, f', bb', s', e') \<in> set bbs" "bb' \<le> rva"
    then have "(binary, f', bb', s', e') \<in> set (filter ?P bbs)" by simp
    then have "(binary, f', bb', s', e') \<in> set (r # rs)" unfolding frs .
    then have "?key (binary, f', bb', s', e') \<le> ?key ?m" using props(2) by blast
    then show "bb' \<le> bb0" using m by simp
  qed
  show ?thesis using mem b0 le max eq by blast
qed

lemma greatest_block_le_None:
  "greatest_block_le bbs binary rva = None \<longleftrightarrow>
     (\<forall>(b, f, bb, s, e) \<in> set bbs. \<not> (b = binary \<and> bb \<le> rva))"
proof -
  let ?P = "\<lambda>(b, f, bb, s, e). b = binary \<and> bb \<le> rva"
  have "greatest_block_le bbs binary rva = None \<longleftrightarrow> filter ?P bbs = []"
    by (auto simp: greatest_block_le_def split: list.splits prod.splits)
  also have "\<dots> \<longleftrightarrow> (\<forall>x\<in>set bbs. \<not> ?P x)" by (simp add: filter_empty_conv)
  finally show ?thesis by auto
qed

lemma exact_block_Some:
  assumes "exact_block bbs binary rva = Some (bb, f)"
  shows "bb = rva \<and> (\<exists>s e. (binary, f, rva, s, e) \<in> set bbs)"
proof -
  from assms obtain row where fr: "find (\<lambda>(b, f, bb, s, e). b = binary \<and> bb = rva) bbs = Some row"
    and row: "(\<lambda>(b, f, bb, s, e). (bb, f)) row = (bb, f)"
    by (auto simp: exact_block_def)
  from find_SomeD' [OF fr]
  have "row \<in> set bbs" "(\<lambda>(b, f, bb, s, e). b = binary \<and> bb = rva) row"
    by blast+
  then show ?thesis using row by (cases row) auto
qed

lemma exact_block_None:
  "exact_block bbs binary rva = None \<longleftrightarrow> (\<forall>(b, f, bb, s, e) \<in> set bbs. \<not> (b = binary \<and> bb = rva))"
  by (auto simp: exact_block_def find_None_iff)

lemma exact_block_NoneD:
  assumes "exact_block bbs b rva = None"
  shows "(b, f, rva, s, e) \<notin> set bbs"
proof
  assume mem: "(b, f, rva, s, e) \<in> set bbs"
  from assms have "\<forall>f s e. (b, f, rva, s, e) \<notin> set bbs"
    by (simp add: exact_block_def find_None_iff)
  then show False using mem by blast
qed

lemma greatest_block_le_NoneD:
  assumes "greatest_block_le bbs b rva = None" and "(b, f, bb, s, e) \<in> set bbs"
  shows "\<not> bb \<le> rva"
proof
  assume le: "bb \<le> rva"
  from assms(1) have "filter (\<lambda>(b', f, bb, s, e). b' = b \<and> bb \<le> rva) bbs = []"
    by (auto simp: greatest_block_le_def split: list.splits prod.splits)
  then have "\<forall>x\<in>set bbs. \<not> (\<lambda>(b', f, bb, s, e). b' = b \<and> bb \<le> rva) x"
    by (simp add: filter_empty_conv)
  from bspec [OF this assms(2)] le show False by simp
qed

lemma unique_block_keysD:
  assumes "unique_block_keys bbs"
    and "(b, f, bb, s, e) \<in> set bbs" and "(b, f', bb, s', e') \<in> set bbs"
  shows "f' = f \<and> s' = s \<and> e' = e"
proof -
  let ?key = "\<lambda>(b, f, bb, s, e). (b, bb) :: int \<times> int"
  have "inj_on ?key (set bbs)"
    using assms(1) by (simp add: unique_block_keys_def distinct_map)
  moreover have "?key (b, f, bb, s, e) = ?key (b, f', bb, s', e')" by simp
  ultimately have "(b, f, bb, s, e) = (b, f', bb, s', e')"
    using assms(2,3) by (rule inj_onD)
  then show ?thesis by simp
qed

lemma cache_lookup_SomeD:
  assumes "cache_lookup cache b rva = Some (bb, f)"
  shows "(b, rva, bb, f) \<in> set cache"
proof -
  from assms obtain row where fr: "find (\<lambda>(b', i, bb, f). b' = b \<and> i = rva) cache = Some row"
    and row: "(\<lambda>(b, i, bb, f). (bb, f)) row = (bb, f)"
    by (auto simp: cache_lookup_def)
  from find_SomeD' [OF fr] show ?thesis using row by (cases row) auto
qed

lemma resolver_empty_cache:
  "fst (find_containing_basic_block bbs [] b rva) =
     (case exact_block bbs b rva of
        Some r \<Rightarrow> Some r
      | None \<Rightarrow>
          (case greatest_block_le bbs b rva of
             Some (bb, f, sz) \<Rightarrow> if rva \<le> bb + sz then Some (bb, f) else None
           | None \<Rightarrow> None))"
  by (simp add: find_containing_basic_block_def cache_lookup_def split: option.splits prod.splits)

lemma resolver_cache_miss:
  assumes "cache_lookup cache b rva = None"
  shows "fst (find_containing_basic_block bbs cache b rva) =
         fst (find_containing_basic_block bbs [] b rva)"
  using assms
  by (simp add: find_containing_basic_block_def cache_lookup_def split: option.splits prod.splits)

lemma resolver_cached:
  assumes "cache_consistent bbs cache"
  shows "fst (find_containing_basic_block bbs cache b rva) =
         fst (find_containing_basic_block bbs [] b rva)"
proof (cases "cache_lookup cache b rva")
  case None
  then show ?thesis by (rule resolver_cache_miss)
next
  case (Some r)
  obtain bb f where r: "r = (bb, f)" by (cases r)
  have "(b, rva, bb, f) \<in> set cache" using Some r by (simp add: cache_lookup_SomeD)
  then have "fst (find_containing_basic_block bbs [] b rva) = Some (bb, f)"
    using assms by (auto simp: cache_consistent_def)
  moreover have "fst (find_containing_basic_block bbs cache b rva) = Some (bb, f)"
    using Some r by (simp add: find_containing_basic_block_def)
  ultimately show ?thesis by simp
qed

lemma cache_consistent_empty: "cache_consistent bbs []"
  by (simp add: cache_consistent_def)

lemma resolver_cache_rows:
  "set (snd (find_containing_basic_block bbs cache b rva)) \<subseteq>
     set cache \<union> (case fst (find_containing_basic_block bbs cache b rva) of
                     None \<Rightarrow> {} | Some (bb, f) \<Rightarrow> {(b, rva, bb, f)})"
  by (auto simp: find_containing_basic_block_def cache_insert_def
           split: option.splits prod.splits if_splits)

lemma resolver_keeps_cache_consistent:
  assumes "cache_consistent bbs cache"
  shows "cache_consistent bbs (snd (find_containing_basic_block bbs cache b rva))"
proof -
  have eq: "fst (find_containing_basic_block bbs cache b rva) =
            fst (find_containing_basic_block bbs [] b rva)"
    by (rule resolver_cached [OF assms])
  show ?thesis
    unfolding cache_consistent_def
  proof (clarify)
    fix b' i bb f
    assume "(b', i, bb, f) \<in> set (snd (find_containing_basic_block bbs cache b rva))"
    then consider "(b', i, bb, f) \<in> set cache"
      | "b' = b" "i = rva" "fst (find_containing_basic_block bbs cache b rva) = Some (bb, f)"
      using resolver_cache_rows [of bbs cache b rva] by (auto split: option.splits)
    then show "fst (find_containing_basic_block bbs [] b' i) = Some (bb, f)"
    proof cases
      case 1
      then show ?thesis using assms by (auto simp: cache_consistent_def)
    next
      case 2
      then show ?thesis using eq by simp
    qed
  qed
qed

lemma resolver_exact:
  assumes u: "unique_block_keys bbs" and c: "cache_consistent bbs cache"
    and row: "(b, f, rva, s, e) \<in> set bbs"
  shows "fst (find_containing_basic_block bbs cache b rva) = Some (rva, f)"
proof -
  have "exact_block bbs b rva \<noteq> None" using row exact_block_NoneD by blast
  then obtain bb' f' where ex: "exact_block bbs b rva = Some (bb', f')" by auto
  from exact_block_Some [OF ex] obtain s' e' where
    "bb' = rva" "(b, f', rva, s', e') \<in> set bbs" by blast
  then have "bb' = rva" "f' = f" using unique_block_keysD [OF u row] by auto
  then show ?thesis
    using ex by (simp add: resolver_cached [OF c] resolver_empty_cache)
qed

lemma resolver_greatest:
  assumes u: "unique_block_keys bbs" and c: "cache_consistent bbs cache"
    and noexact: "\<forall>(b', f', bb', s', e') \<in> set bbs. \<not> (b' = b \<and> bb' = rva)"
    and row: "(b, f, bb, s, e) \<in> set bbs" and le: "bb \<le> rva"
    and greatest: "\<forall>(b', f', bb', s', e') \<in> set bbs. b' = b \<and> bb' \<le> rva \<longrightarrow> bb' \<le> bb"
  shows "fst (find_containing_basic_block bbs cache b rva) =
           (if rva \<le> bb + (e - s) then Some (bb, f) else None)"
proof -
  have ex: "exact_block bbs b rva = None" using noexact by (simp add: exact_block_None)
  have "greatest_block_le bbs b rva \<noteq> None"
    using row le greatest_block_le_NoneD by blast
  then obtain bb0 f0 sz0 where g: "greatest_block_le bbs b rva = Some (bb0, f0, sz0)"
    by (cases "greatest_block_le bbs b rva") auto
  from greatest_block_le_Some [OF g] obtain s0 e0 where
    row0: "(b, f0, bb0, s0, e0) \<in> set bbs" and sz0: "sz0 = e0 - s0" and le0: "bb0 \<le> rva"
    and max0: "\<forall>(b', f', bb', s', e') \<in> set bbs. b' = b \<and> bb' \<le> rva \<longrightarrow> bb' \<le> bb0"
    by blast
  have "bb \<le> bb0" using max0 row le by auto
  moreover have "bb0 \<le> bb" using greatest row0 le0 by auto
  ultimately have bbeq: "bb0 = bb" by simp
  then have "f0 = f \<and> s0 = s \<and> e0 = e" using unique_block_keysD [OF u row] row0 by blast
  then show ?thesis
    using ex g sz0 bbeq by (simp add: resolver_cached [OF c] resolver_empty_cache)
qed

lemma resolver_None_iff:
  assumes u: "unique_block_keys bbs" and c: "cache_consistent bbs cache"
  shows "fst (find_containing_basic_block bbs cache b rva) = None \<longleftrightarrow>
           (\<forall>(b', f', bb', s', e') \<in> set bbs. b' = b \<and> bb' \<le> rva \<longrightarrow>
              bb' \<noteq> rva \<and>
              (bb' + (e' - s') < rva \<or>
               (\<exists>(b'', f'', bb'', s'', e'') \<in> set bbs. b'' = b \<and> bb' < bb'' \<and> bb'' \<le> rva)))"
  (is "?L \<longleftrightarrow> ?R")
proof
  assume L: ?L
  have ex: "exact_block bbs b rva = None"
    using L by (simp add: resolver_cached [OF c] resolver_empty_cache split: option.splits)
  then have noexact: "\<forall>(b', f', bb', s', e') \<in> set bbs. \<not> (b' = b \<and> bb' = rva)"
    by (simp add: exact_block_None)
  show ?R
  proof (clarify)
    fix f' bb' s' e'
    assume row: "(b, f', bb', s', e') \<in> set bbs" and le: "bb' \<le> rva"
    have ne: "bb' \<noteq> rva" using noexact row by auto
    have "bb' + (e' - s') < rva \<or>
          (\<exists>(b'', f'', bb'', s'', e'') \<in> set bbs. b'' = b \<and> bb' < bb'' \<and> bb'' \<le> rva)"
    proof (rule ccontr)
      assume neg: "\<not> ?thesis"
      then have bound: "rva \<le> bb' + (e' - s')" by simp
      from neg have "\<forall>(b'', f'', bb'', s'', e'') \<in> set bbs. b'' = b \<and> bb'' \<le> rva \<longrightarrow> bb'' \<le> bb'"
        by fastforce
      from resolver_greatest [OF u c noexact row le this] bound L
      show False by simp
    qed
    then show "bb' \<noteq> rva \<and> (bb' + (e' - s') < rva \<or>
          (\<exists>(b'', f'', bb'', s'', e'') \<in> set bbs. b'' = b \<and> bb' < bb'' \<and> bb'' \<le> rva))"
      using ne by blast
  qed
next
  assume R: ?R
  have ex: "exact_block bbs b rva = None"
    unfolding exact_block_None using R by fastforce
  show ?L
  proof (cases "greatest_block_le bbs b rva")
    case None
    then show ?thesis using ex by (simp add: resolver_cached [OF c] resolver_empty_cache)
  next
    case (Some g)
    obtain bb0 f0 sz0 where g: "g = (bb0, f0, sz0)" by (cases g)
    from greatest_block_le_Some [OF Some [unfolded g]] obtain s0 e0 where
      row0: "(b, f0, bb0, s0, e0) \<in> set bbs" and sz0: "sz0 = e0 - s0" and le0: "bb0 \<le> rva"
      and max0: "\<forall>(b', f', bb', s', e') \<in> set bbs. b' = b \<and> bb' \<le> rva \<longrightarrow> bb' \<le> bb0"
      by blast
    from R row0 le0 have "bb0 + (e0 - s0) < rva \<or>
          (\<exists>(b'', f'', bb'', s'', e'') \<in> set bbs. b'' = b \<and> bb0 < bb'' \<and> bb'' \<le> rva)"
      by fastforce
    moreover have "\<not> (\<exists>(b'', f'', bb'', s'', e'') \<in> set bbs. b'' = b \<and> bb0 < bb'' \<and> bb'' \<le> rva)"
      using max0 by fastforce
    ultimately have "bb0 + sz0 < rva" using sz0 by simp
    then show ?thesis
      using ex Some g by (simp add: resolver_cached [OF c] resolver_empty_cache)
  qed
qed

text \<open>
  C4 (as amended). On a master store with one row per block and a cache
  \<^verbatim>\<open>rva_to_bb_cache\<close> that is consistent with it (every row of the cache is what the
  resolver returns for its key on an empty cache): a block of the binary whose inclusive
  bound contains the address is the one returned, provided no other block of the binary
  starts after it and at or below the address; a block that starts at the address is
  returned whatever its length; if no block starts at the address, the block of greatest
  start at or below it is returned iff the address is within its inclusive bound; the
  result is \<open>None\<close> exactly when every block of the binary starting at or below the
  address starts below it and either ends before it or is followed by another block
  starting at or below it; and the cache that the call leaves is consistent again. The
  condition on the cache is needed, since the resolver reads the cache first.
\<close>

theorem resolver_returns_containing_block:
  assumes "unique_block_keys bbs" and "cache_consistent bbs cache"
  shows "((b, f, bb, s, e) \<in> set bbs \<and> bb \<le> rva \<and> rva \<le> bb + (e - s) \<and>
          (\<forall>(b', f', bb', s', e') \<in> set bbs. \<not> (b' = b \<and> bb < bb' \<and> bb' \<le> rva))
          \<longrightarrow> fst (find_containing_basic_block bbs cache b rva) = Some (bb, f))
       \<and> ((b, f1, rva, s1, e1) \<in> set bbs
          \<longrightarrow> fst (find_containing_basic_block bbs cache b rva) = Some (rva, f1))
       \<and> ((\<forall>(b', f', bb', s', e') \<in> set bbs. \<not> (b' = b \<and> bb' = rva)) \<and>
          (b, f2, bb2, s2, e2) \<in> set bbs \<and> bb2 \<le> rva \<and>
          (\<forall>(b', f', bb', s', e') \<in> set bbs. b' = b \<and> bb' \<le> rva \<longrightarrow> bb' \<le> bb2)
          \<longrightarrow> fst (find_containing_basic_block bbs cache b rva) =
                (if rva \<le> bb2 + (e2 - s2) then Some (bb2, f2) else None))
       \<and> (fst (find_containing_basic_block bbs cache b rva) = None \<longleftrightarrow>
           (\<forall>(b', f', bb', s', e') \<in> set bbs. b' = b \<and> bb' \<le> rva \<longrightarrow>
              bb' \<noteq> rva \<and>
              (bb' + (e' - s') < rva \<or>
               (\<exists>(b'', f'', bb'', s'', e'') \<in> set bbs. b'' = b \<and> bb' < bb'' \<and> bb'' \<le> rva))))
       \<and> cache_consistent bbs (snd (find_containing_basic_block bbs cache b rva))"
proof (intro conjI impI)
  assume h: "(b, f, bb, s, e) \<in> set bbs \<and> bb \<le> rva \<and> rva \<le> bb + (e - s) \<and>
          (\<forall>(b', f', bb', s', e') \<in> set bbs. \<not> (b' = b \<and> bb < bb' \<and> bb' \<le> rva))"
  then have row: "(b, f, bb, s, e) \<in> set bbs" and le: "bb \<le> rva"
    and bound: "rva \<le> bb + (e - s)"
    and nolater: "\<forall>(b', f', bb', s', e') \<in> set bbs. \<not> (b' = b \<and> bb < bb' \<and> bb' \<le> rva)"
    by simp_all
  show "fst (find_containing_basic_block bbs cache b rva) = Some (bb, f)"
  proof (cases "bb = rva")
    case True
    have "(b, f, rva, s, e) \<in> set bbs" using row True by simp
    then have "fst (find_containing_basic_block bbs cache b rva) = Some (rva, f)"
      by (rule resolver_exact [OF assms])
    then show ?thesis using True by simp
  next
    case False
    have noexact: "\<forall>(b', f', bb', s', e') \<in> set bbs. \<not> (b' = b \<and> bb' = rva)"
    proof (clarify)
      fix f' s' e'
      assume "(b, f', rva, s', e') \<in> set bbs"
      from bspec [OF nolater this] show False using le False by simp
    qed
    have greatest: "\<forall>(b', f', bb', s', e') \<in> set bbs. b' = b \<and> bb' \<le> rva \<longrightarrow> bb' \<le> bb"
    proof (clarify)
      fix f' bb' s' e'
      assume "(b, f', bb', s', e') \<in> set bbs" and "bb' \<le> rva"
      with bspec [OF nolater this(1)] show "bb' \<le> bb" by simp
    qed
    have "fst (find_containing_basic_block bbs cache b rva) =
           (if rva \<le> bb + (e - s) then Some (bb, f) else None)"
      by (rule resolver_greatest [OF assms noexact row le greatest])
    then show ?thesis using bound by simp
  qed
next
  assume "(b, f1, rva, s1, e1) \<in> set bbs"
  then show "fst (find_containing_basic_block bbs cache b rva) = Some (rva, f1)"
    by (rule resolver_exact [OF assms])
next
  assume h: "(\<forall>(b', f', bb', s', e') \<in> set bbs. \<not> (b' = b \<and> bb' = rva)) \<and>
          (b, f2, bb2, s2, e2) \<in> set bbs \<and> bb2 \<le> rva \<and>
          (\<forall>(b', f', bb', s', e') \<in> set bbs. b' = b \<and> bb' \<le> rva \<longrightarrow> bb' \<le> bb2)"
  then have noexact: "\<forall>(b', f', bb', s', e') \<in> set bbs. \<not> (b' = b \<and> bb' = rva)"
    and row: "(b, f2, bb2, s2, e2) \<in> set bbs" and le: "bb2 \<le> rva"
    and greatest: "\<forall>(b', f', bb', s', e') \<in> set bbs. b' = b \<and> bb' \<le> rva \<longrightarrow> bb' \<le> bb2"
    by simp_all
  show "fst (find_containing_basic_block bbs cache b rva) =
                (if rva \<le> bb2 + (e2 - s2) then Some (bb2, f2) else None)"
    by (rule resolver_greatest [OF assms noexact row le greatest])
next
  show "fst (find_containing_basic_block bbs cache b rva) = None \<longleftrightarrow>
           (\<forall>(b', f', bb', s', e') \<in> set bbs. b' = b \<and> bb' \<le> rva \<longrightarrow>
              bb' \<noteq> rva \<and>
              (bb' + (e' - s') < rva \<or>
               (\<exists>(b'', f'', bb'', s'', e'') \<in> set bbs. b'' = b \<and> bb' < bb'' \<and> bb'' \<le> rva)))"
    by (rule resolver_None_iff [OF assms])
next
  show "cache_consistent bbs (snd (find_containing_basic_block bbs cache b rva))"
    by (rule resolver_keeps_cache_consistent [OF assms(2)])
qed

theorem resolver_returns_containing_block_witness:
  "unique_block_keys [(1, 7, 0x1000, 0x401000, 0x401020), (1, 7, 0x1020, 0x401020, 0x401030)]
 \<and> cache_consistent
      [(1, 7, 0x1000, 0x401000, 0x401020), (1, 7, 0x1020, 0x401020, 0x401030)]
      [(1, 0x1004, 0x1000, 7)]
 \<and> fst (find_containing_basic_block
      [(1, 7, 0x1000, 0x401000, 0x401020), (1, 7, 0x1020, 0x401020, 0x401030)]
      [(1, 0x1004, 0x1000, 7)] 1 0x101c) = Some (0x1000, 7)
 \<and> fst (find_containing_basic_block
      [(1, 7, 0x1000, 0x401000, 0x401020), (1, 7, 0x1020, 0x401020, 0x401030)]
      [(1, 0x1004, 0x1000, 7)] 1 0x1020) = Some (0x1020, 7)
 \<and> fst (find_containing_basic_block
      [(1, 7, 0x1000, 0x401000, 0x401020), (1, 7, 0x1020, 0x401020, 0x401030)]
      [(1, 0x1004, 0x1000, 7)] 1 0x1031) = None"
proof -
  let ?bbs = "[(1, 7, 0x1000, 0x401000, 0x401020), (1, 7, 0x1020, 0x401020, 0x401030)]
                :: basic_block_row list"
  let ?cache = "[(1, 0x1004, 0x1000, 7)] :: cache_row list"
  have u: "unique_block_keys ?bbs" by (simp add: unique_block_keys_def)
  have c: "cache_consistent ?bbs ?cache"
    by (simp add: cache_consistent_def find_containing_basic_block_def cache_lookup_def
          exact_block_def greatest_block_le_def)
  have r1: "fst (find_containing_basic_block ?bbs ?cache 1 0x101c) = Some (0x1000, 7)"
    using resolver_returns_containing_block [OF u c, of 1 7 "0x1000" "0x401000" "0x401020" "0x101c"]
    by simp
  have r2: "fst (find_containing_basic_block ?bbs ?cache 1 0x1020) = Some (0x1020, 7)"
    using resolver_returns_containing_block [OF u c, of 1 _ _ _ _ "0x1020" 7 "0x401020" "0x401030"]
    by simp
  have r3: "fst (find_containing_basic_block ?bbs ?cache 1 0x1031) = None"
    using resolver_returns_containing_block [OF u c, of 1 _ _ _ _ "0x1031"]
    by simp
  show ?thesis using u c r1 r2 r3 by simp
qed

text \<open>
  C4 as stated fails. Two adjacent blocks: the address \<open>0x1020\<close> is within the inclusive
  bound of the block at \<open>0x1000\<close> (one past its end), and the resolver returns the block
  that starts at \<open>0x1020\<close>. Two overlapping blocks: the address \<open>0x1080\<close> is within the
  bound of the block at \<open>0x1000\<close>, and the resolver returns \<open>None\<close>, because the block of
  greatest start below the address ends at \<open>0x1060\<close>. A stale cache, on a master store
  with one block: the address \<open>0x1004\<close> is within the bound of the block at \<open>0x1000\<close>
  and no block contains the address \<open>0x5000\<close>, and the resolver returns for both the
  block \<open>(0x2000, 9)\<close> of the rows that the cache holds for them.
\<close>

theorem resolver_claim_counterexample:
  "(1, 7, 0x1000, 0x401000, 0x401020)
     \<in> set [(1, 7, 0x1000, 0x401000, 0x401020), (1, 7, 0x1020, 0x401020, 0x401030)]
 \<and> (0x1000 :: int) \<le> 0x1020 \<and> (0x1020 :: int) \<le> 0x1000 + (0x401020 - 0x401000)
 \<and> fst (find_containing_basic_block
      [(1, 7, 0x1000, 0x401000, 0x401020), (1, 7, 0x1020, 0x401020, 0x401030)] [] 1 0x1020)
     \<noteq> Some (0x1000, 7)
 \<and> (1, 7, 0x1000, 0x401000, 0x401100)
     \<in> set [(1, 7, 0x1000, 0x401000, 0x401100), (1, 8, 0x1050, 0x401050, 0x401060)]
 \<and> (0x1000 :: int) \<le> 0x1080 \<and> (0x1080 :: int) \<le> 0x1000 + (0x401100 - 0x401000)
 \<and> fst (find_containing_basic_block
      [(1, 7, 0x1000, 0x401000, 0x401100), (1, 8, 0x1050, 0x401050, 0x401060)] [] 1 0x1080)
     = None
 \<and> unique_block_keys [(1, 7, 0x1000, 0x401000, 0x401020)]
 \<and> (0x1000 :: int) \<le> 0x1004 \<and> (0x1004 :: int) \<le> 0x1000 + (0x401020 - 0x401000)
 \<and> fst (find_containing_basic_block
      [(1, 7, 0x1000, 0x401000, 0x401020)]
      [(1, 0x1004, 0x2000, 9), (1, 0x5000, 0x2000, 9)] 1 0x1004)
     = Some (0x2000, 9)
 \<and> \<not> (0x5000 :: int) \<le> 0x1000 + (0x401020 - 0x401000)
 \<and> fst (find_containing_basic_block
      [(1, 7, 0x1000, 0x401000, 0x401020)]
      [(1, 0x1004, 0x2000, 9), (1, 0x5000, 0x2000, 9)] 1 0x5000)
     = Some (0x2000, 9)"
  by (simp add: find_containing_basic_block_def cache_lookup_def exact_block_def
        greatest_block_le_def unique_block_keys_def)

section \<open>Properties of the deterministic expansion\<close>

lemma cfg_succ_mem:
  assumes "(dst, kind) \<in> set (cfg_succ cfg current)"
  shows "(current, dst, kind) \<in> set cfg"
  using assms by (auto simp: cfg_succ_def)

lemma det_edge_functional:
  assumes "det_edge cfg x y" and "det_edge cfg x z"
  shows "y = z"
  using assms by (auto simp: det_edge_def)

lemma det_edge_dst:
  assumes "det_edge cfg x y"
  shows "y \<in> (\<lambda>(src, dst, kind). dst) ` set cfg"
proof -
  from assms obtain kind where "cfg_succ cfg x = [(y, kind)]" by (auto simp: det_edge_def)
  then have "(y, kind) \<in> set (cfg_succ cfg x)" by simp
  then have "(x, y, kind) \<in> set cfg" by (rule cfg_succ_mem)
  then show ?thesis by force
qed

lemma walk_step_det:
  assumes "det_edge cfg current dst"
  shows "walk_step cfg cov (current # rest, vis, nd) =
           (if dst \<notin> set vis then
              if dst \<notin> set cov then (rest @ [dst], set_add vis dst, set_add nd dst)
              else (rest, set_add vis dst, nd)
            else (rest, vis, nd))"
  using assms by (auto simp: walk_step_def det_edge_def)

lemma walk_step_nodet:
  assumes "\<And>dst. \<not> det_edge cfg current dst"
  shows "walk_step cfg cov (current # rest, vis, nd) = (rest, vis, nd)"
proof -
  have "\<And>dst kind. cfg_succ cfg current = [(dst, kind)] \<Longrightarrow>
          \<not> (kind = ''fallthrough'' \<or> kind = ''branch_unconditional'')"
    using assms unfolding det_edge_def by blast
  then show ?thesis
    by (auto simp: walk_step_def split: list.splits)
qed

lemma walk_step_cases:
  obtains (enqueue) dst where "det_edge cfg current dst" "dst \<notin> set vis" "dst \<notin> set cov"
      "walk_step cfg cov (current # rest, vis, nd) = (rest @ [dst], vis @ [dst], set_add nd dst)"
  | (covered) dst where "det_edge cfg current dst" "dst \<notin> set vis" "dst \<in> set cov"
      "walk_step cfg cov (current # rest, vis, nd) = (rest, vis @ [dst], nd)"
  | (seen) dst where "det_edge cfg current dst" "dst \<in> set vis"
      "walk_step cfg cov (current # rest, vis, nd) = (rest, vis, nd)"
  | (stop) "\<And>dst. \<not> det_edge cfg current dst"
      "walk_step cfg cov (current # rest, vis, nd) = (rest, vis, nd)"
proof (cases "\<exists>dst. det_edge cfg current dst")
  case True
  then obtain dst where d: "det_edge cfg current dst" by blast
  show ?thesis
  proof (cases "dst \<in> set vis")
    case True
    then show ?thesis using seen [OF d] walk_step_det [OF d] by simp
  next
    case False
    show ?thesis
    proof (cases "dst \<in> set cov")
      case True
      then show ?thesis using covered [OF d False] walk_step_det [OF d] False
        by (simp add: set_add_def)
    next
      case nc: False
      then show ?thesis using enqueue [OF d False] walk_step_det [OF d] False
        by (simp add: set_add_def)
    qed
  qed
next
  case False
  then have n: "\<And>dst. \<not> det_edge cfg current dst" by blast
  show ?thesis using stop [OF n] walk_step_nodet [OF n] by simp
qed

lemma walk_measure_decreases:
  assumes "fst st \<noteq> []"
  shows "walk_measure cfg (walk_step cfg cov st) < walk_measure cfg st"
proof -
  obtain queue vis nd where st: "st = (queue, vis, nd)" by (cases st)
  with assms obtain current rest where q: "queue = current # rest" by (cases queue) auto
  define D where "D = (\<lambda>(src, dst, kind). dst) ` set cfg"
  have fin: "finite (D - set vis)" by (simp add: D_def)
  have drop: "\<And>dst. dst \<in> D \<Longrightarrow> dst \<notin> set vis \<Longrightarrow>
                 card (D - set (vis @ [dst])) < card (D - set vis)"
  proof -
    fix dst assume "dst \<in> D" "dst \<notin> set vis"
    then have mem: "dst \<in> D - set vis" by simp
    have eq: "D - set (vis @ [dst]) = (D - set vis) - {dst}" by auto
    show "card (D - set (vis @ [dst])) < card (D - set vis)"
      unfolding eq by (rule card_Diff1_less [OF fin mem])
  qed
  have m: "\<And>q v n. walk_measure cfg (q, v, n) = 2 * card (D - set v) + length q"
    by (simp add: walk_measure_def D_def)
  show ?thesis
  proof (cases rule: walk_step_cases [of cfg current vis cov rest nd])
    case (enqueue dst)
    then show ?thesis
      using drop [OF det_edge_dst [OF enqueue(1), folded D_def] enqueue(2)]
      by (simp add: st q m)
  next
    case (covered dst)
    then show ?thesis
      using drop [OF det_edge_dst [OF covered(1), folded D_def] covered(2)]
      by (simp add: st q m)
  next
    case (seen dst)
    then show ?thesis by (simp add: st q m)
  next
    case stop
    then show ?thesis by (simp add: st q m)
  qed
qed

lemma walk_trace_total:
  assumes "Q st enq"
    and step: "\<And>st enq. Q st enq \<Longrightarrow> fst st \<noteq> [] \<Longrightarrow>
                 Q (walk_step cfg cov st) (enq @ step_enqueued cfg cov st)"
  shows "\<exists>r enq'. walk_trace cfg cov st enq = Some (r, enq') \<and>
                  walk_loop cfg cov st = Some r \<and> fst r = [] \<and> Q r enq'"
  using assms(1)
proof (induction "walk_measure cfg st" arbitrary: st enq rule: less_induct)
  case less
  show ?case
  proof (cases "fst st = []")
    case True
    then show ?thesis using less.prems
      by (simp add: walk_trace.simps walk_loop.simps)
  next
    case False
    have m: "walk_measure cfg (walk_step cfg cov st) < walk_measure cfg st"
      by (rule walk_measure_decreases [OF False])
    have q: "Q (walk_step cfg cov st) (enq @ step_enqueued cfg cov st)"
      by (rule step [OF less.prems False])
    from less.hyps [OF m q] obtain r enq' where
      "walk_trace cfg cov (walk_step cfg cov st) (enq @ step_enqueued cfg cov st) = Some (r, enq')"
      "walk_loop cfg cov (walk_step cfg cov st) = Some r" "fst r = []" "Q r enq'"
      by blast
    then show ?thesis using False
      by (simp add: walk_trace.simps [of cfg cov st] walk_loop.simps [of cfg cov st])
  qed
qed

lemma walk_loop_total:
  assumes "P st"
    and step: "\<And>st. P st \<Longrightarrow> fst st \<noteq> [] \<Longrightarrow> P (walk_step cfg cov st)"
  shows "\<exists>r. walk_loop cfg cov st = Some r \<and> fst r = [] \<and> P r"
proof -
  have "\<exists>r enq'. walk_trace cfg cov st [] = Some (r, enq') \<and>
                  walk_loop cfg cov st = Some r \<and> fst r = [] \<and> P r"
    by (rule walk_trace_total [where Q = "\<lambda>st enq. P st"]) (simp_all add: assms)
  then show ?thesis by blast
qed

lemma set_set_add: "set (set_add xs x) = insert x (set xs)"
  by (auto simp: set_add_def)

lemma walk_inv_iff:
  "walk_inv cfg cov start nd0 (queue, vis, nd) \<longleftrightarrow>
     set queue \<subseteq> insert start (set vis - set cov)
   \<and> set vis - set cov \<subseteq> {n. (det_step cfg cov)\<^sup>+\<^sup>+ start n}
   \<and> set nd = set nd0 \<union> (set vis - set cov)
   \<and> (\<forall>x y. x \<in> insert start (set vis - set cov) \<longrightarrow> det_step cfg cov x y \<longrightarrow>
          y \<in> set vis - set cov \<or> x \<in> set queue)"
  unfolding walk_inv_def Let_def prod.case by blast

lemma walk_invD:
  assumes "walk_inv cfg cov start nd0 (queue, vis, nd)"
  shows "set queue \<subseteq> insert start (set vis - set cov)"
    and "set vis - set cov \<subseteq> {n. (det_step cfg cov)\<^sup>+\<^sup>+ start n}"
    and "set nd = set nd0 \<union> (set vis - set cov)"
    and "\<And>x y. x \<in> insert start (set vis - set cov) \<Longrightarrow> det_step cfg cov x y \<Longrightarrow>
          y \<in> set vis - set cov \<or> x \<in> set queue"
proof -
  note h = assms [unfolded walk_inv_iff]
  show "set queue \<subseteq> insert start (set vis - set cov)" using h by (rule conjunct1)
  show "set vis - set cov \<subseteq> {n. (det_step cfg cov)\<^sup>+\<^sup>+ start n}"
    using h by (rule conjunct2 [THEN conjunct1])
  show "set nd = set nd0 \<union> (set vis - set cov)"
    using h by (rule conjunct2 [THEN conjunct2, THEN conjunct1])
  have a: "\<forall>x y. x \<in> insert start (set vis - set cov) \<longrightarrow> det_step cfg cov x y \<longrightarrow>
          y \<in> set vis - set cov \<or> x \<in> set queue"
    using h by (rule conjunct2 [THEN conjunct2, THEN conjunct2])
  show "\<And>x y. x \<in> insert start (set vis - set cov) \<Longrightarrow> det_step cfg cov x y \<Longrightarrow>
          y \<in> set vis - set cov \<or> x \<in> set queue"
    using a by blast
qed

lemma walk_invI:
  assumes "set queue \<subseteq> insert start (set vis - set cov)"
    and "set vis - set cov \<subseteq> {n. (det_step cfg cov)\<^sup>+\<^sup>+ start n}"
    and "set nd = set nd0 \<union> (set vis - set cov)"
    and "\<And>x y. x \<in> insert start (set vis - set cov) \<Longrightarrow> det_step cfg cov x y \<Longrightarrow>
          y \<in> set vis - set cov \<or> x \<in> set queue"
  shows "walk_inv cfg cov start nd0 (queue, vis, nd)"
  unfolding walk_inv_iff using assms by blast

lemma walk_inv_init:
  assumes "start \<in> set cov"
  shows "walk_inv cfg cov start nd0 ([start], [start], nd0)"
  using assms by (simp add: walk_inv_iff)



lemma walk_inv_step:
  assumes inv: "walk_inv cfg cov start nd0 st" and ne: "fst st \<noteq> []"
  shows "walk_inv cfg cov start nd0 (walk_step cfg cov st)"
proof -
  obtain queue vis nd where st: "st = (queue, vis, nd)" by (cases st)
  with ne obtain current rest where q: "queue = current # rest" by (cases queue) auto
  let ?R = "det_step cfg cov"
  let ?V = "set vis - set cov"
  note d = walk_invD [OF inv [unfolded st q]]
  have i1: "set (current # rest) \<subseteq> insert start ?V" by (rule d(1))
  have i2: "?V \<subseteq> {n. ?R\<^sup>+\<^sup>+ start n}" by (rule d(2))
  have i3: "set nd = set nd0 \<union> ?V" by (rule d(3))
  have i4: "\<And>x y. x \<in> insert start ?V \<Longrightarrow> ?R x y \<Longrightarrow> y \<in> ?V \<or> x \<in> set (current # rest)"
    by (rule d(4))
  have "current \<in> insert start ?V" using i1 by simp
  then have cur: "current = start \<or> ?R\<^sup>+\<^sup>+ start current" using i2 by blast
  have rest: "set rest \<subseteq> insert start ?V" using i1 by simp
  show ?thesis
  proof (cases rule: walk_step_cases [of cfg current vis cov rest nd])
    case (enqueue dst)
    have Rcd: "?R current dst" using enqueue by (simp add: det_step_def)
    have reach: "?R\<^sup>+\<^sup>+ start dst"
    proof (cases "current = start")
      case True
      then show ?thesis using Rcd by blast
    next
      case False
      then have "?R\<^sup>+\<^sup>+ start current" using cur by simp
      then show ?thesis using Rcd by (rule tranclp.trancl_into_trancl)
    qed
    have V': "set (vis @ [dst]) - set cov = insert dst ?V" using enqueue(3) by auto
    show ?thesis
      unfolding st q enqueue(4)
    proof (rule walk_invI)
      show "set (rest @ [dst]) \<subseteq> insert start (set (vis @ [dst]) - set cov)"
        unfolding V' using rest by auto
      show "set (vis @ [dst]) - set cov \<subseteq> {n. ?R\<^sup>+\<^sup>+ start n}"
        unfolding V' using i2 reach by blast
      show "set (set_add nd dst) = set nd0 \<union> (set (vis @ [dst]) - set cov)"
        unfolding V' set_set_add i3 by blast
      fix x y assume x: "x \<in> insert start (set (vis @ [dst]) - set cov)" and r: "?R x y"
      show "y \<in> set (vis @ [dst]) - set cov \<or> x \<in> set (rest @ [dst])"
      proof (cases "x = current")
        case True
        have "det_edge cfg current y" using r True by (simp add: det_step_def)
        then have "y = dst" using enqueue(1) by (rule det_edge_functional)
        then show ?thesis unfolding V' by simp
      next
        case False
        show ?thesis
        proof (cases "x = dst")
          case True
          then show ?thesis by simp
        next
          case xd: False
          then have "x \<in> insert start ?V" using x unfolding V' by blast
          from i4 [OF this r] False show ?thesis unfolding V' by auto
        qed
      qed
    qed
  next
    case (covered dst)
    have V': "set (vis @ [dst]) - set cov = ?V" using covered(3) by auto
    have noR: "\<not> ?R current y" for y
    proof
      assume "?R current y"
      then have e: "det_edge cfg current y" and nc: "y \<notin> set cov"
        by (simp_all add: det_step_def)
      have "y = dst" using e covered(1) by (rule det_edge_functional)
      then show False using nc covered(3) by simp
    qed
    show ?thesis
      unfolding st q covered(4)
    proof (rule walk_invI)
      show "set rest \<subseteq> insert start (set (vis @ [dst]) - set cov)"
        unfolding V' by (rule rest)
      show "set (vis @ [dst]) - set cov \<subseteq> {n. ?R\<^sup>+\<^sup>+ start n}"
        unfolding V' by (rule i2)
      show "set nd = set nd0 \<union> (set (vis @ [dst]) - set cov)"
        unfolding V' by (rule i3)
      fix x y assume x: "x \<in> insert start (set (vis @ [dst]) - set cov)" and r: "?R x y"
      have ne: "x \<noteq> current" using noR r by blast
      have "x \<in> insert start ?V" using x unfolding V' .
      from i4 [OF this r] ne show "y \<in> set (vis @ [dst]) - set cov \<or> x \<in> set rest"
        unfolding V' by auto
    qed
  next
    case (seen dst)
    show ?thesis
      unfolding st q seen(3)
    proof (rule walk_invI)
      show "set rest \<subseteq> insert start ?V" by (rule rest)
      show "?V \<subseteq> {n. ?R\<^sup>+\<^sup>+ start n}" by (rule i2)
      show "set nd = set nd0 \<union> ?V" by (rule i3)
      fix x y assume x: "x \<in> insert start ?V" and r: "?R x y"
      show "y \<in> ?V \<or> x \<in> set rest"
      proof (cases "x = current")
        case True
        have e: "det_edge cfg current y" and nc: "y \<notin> set cov"
          using r True by (simp_all add: det_step_def)
        have "y = dst" using e seen(1) by (rule det_edge_functional)
        then show ?thesis using seen(2) nc by simp
      next
        case False
        from i4 [OF x r] False show ?thesis by auto
      qed
    qed
  next
    case stop
    have noR: "\<not> ?R current y" for y using stop(1) by (simp add: det_step_def)
    show ?thesis
      unfolding st q stop(2)
    proof (rule walk_invI)
      show "set rest \<subseteq> insert start ?V" by (rule rest)
      show "?V \<subseteq> {n. ?R\<^sup>+\<^sup>+ start n}" by (rule i2)
      show "set nd = set nd0 \<union> ?V" by (rule i3)
      fix x y assume x: "x \<in> insert start ?V" and r: "?R x y"
      have ne: "x \<noteq> current" using noR r by blast
      from i4 [OF x r] ne show "y \<in> ?V \<or> x \<in> set rest" by auto
    qed
  qed
qed

lemma walk_inv_final:
  assumes inv: "walk_inv cfg cov start nd0 ([], vis, nd)"
  shows "set nd = set nd0 \<union> {n. (det_step cfg cov)\<^sup>+\<^sup>+ start n}"
proof -
  let ?R = "det_step cfg cov"
  let ?V = "set vis - set cov"
  note d = walk_invD [OF inv]
  have i4: "y \<in> ?V" if "x \<in> insert start ?V" and "?R x y" for x y
  proof -
    from d(4) [OF that] show ?thesis by simp
  qed
  have "?R\<^sup>+\<^sup>+ start n \<Longrightarrow> n \<in> ?V" for n
  proof (induction rule: tranclp_induct)
    case (base y)
    show ?case by (rule i4 [of start y]) (simp, rule base)
  next
    case (step y z)
    show ?case using step.IH by (intro i4 [of y z] insertI2 step.hyps(2))
  qed
  then have "{n. ?R\<^sup>+\<^sup>+ start n} \<subseteq> ?V" by blast
  with d(2) have "?V = {n. ?R\<^sup>+\<^sup>+ start n}" by (rule equalityI)
  then show ?thesis using d(3) by simp
qed

lemma walk_loop_result:
  assumes "start \<in> set cov"
  shows "\<exists>vis nd'. walk_loop cfg cov ([start], [start], nd) = Some ([], vis, nd') \<and>
                   set nd' = set nd \<union> {n. (det_step cfg cov)\<^sup>+\<^sup>+ start n}"
proof -
  have "\<exists>r. walk_loop cfg cov ([start], [start], nd) = Some r \<and> fst r = [] \<and>
             walk_inv cfg cov start nd r"
    by (rule walk_loop_total [where P = "walk_inv cfg cov start nd"])
       (simp_all add: walk_inv_init [OF assms] walk_inv_step)
  then obtain r where r: "walk_loop cfg cov ([start], [start], nd) = Some r" "fst r = []"
    "walk_inv cfg cov start nd r" by blast
  obtain q vis nd' where rr: "r = (q, vis, nd')" by (cases r)
  with r(2) have q: "q = []" by simp
  show ?thesis using r(1,3) walk_inv_final [of cfg cov start nd vis nd'] unfolding rr q by blast
qed

lemma expand_starts_result:
  assumes "set starts \<subseteq> set cov"
  shows "\<exists>nd'. expand_starts cfg cov starts nd = Some nd' \<and>
               set nd' = set nd \<union> {n. \<exists>s\<in>set starts. (det_step cfg cov)\<^sup>+\<^sup>+ s n}"
  using assms
proof (induction starts arbitrary: nd)
  case Nil
  then show ?case by simp
next
  case (Cons s starts)
  have "s \<in> set cov" using Cons.prems by simp
  from walk_loop_result [OF this, of cfg nd] obtain vis nd1 where
    w: "walk_loop cfg cov ([s], [s], nd) = Some ([], vis, nd1)"
    and n1: "set nd1 = set nd \<union> {n. (det_step cfg cov)\<^sup>+\<^sup>+ s n}" by blast
  have "set starts \<subseteq> set cov" using Cons.prems by simp
  from Cons.IH [OF this, of nd1] obtain nd' where
    e: "expand_starts cfg cov starts nd1 = Some nd'"
    and n': "set nd' = set nd1 \<union> {n. \<exists>s\<in>set starts. (det_step cfg cov)\<^sup>+\<^sup>+ s n}" by blast
  have "expand_starts cfg cov (s # starts) nd = Some nd'" using w e by simp
  moreover have "set nd' = set nd \<union> {n. \<exists>s'\<in>set (s # starts). (det_step cfg cov)\<^sup>+\<^sup>+ s' n}"
    using n1 n' by auto
  ultimately show ?case by blast
qed

lemma set_covered_blocks_of:
  "set (covered_blocks_of tbl b) = {bb. \<exists>f. (b, f, bb) \<in> set tbl}"
  by (force simp: covered_blocks_of_def)

lemma det_step_cong:
  assumes "set cov = set cov'"
  shows "det_step cfg cov = det_step cfg cov'"
  using assms by (simp add: det_step_def fun_eq_iff)

lemma reconstructed_cong:
  assumes "set cov = set cov'"
  shows "reconstructed cfg cov n = reconstructed cfg cov' n"
  unfolding reconstructed_def det_step_cong [OF assms] assms ..

lemma reconstructed_not_covered:
  assumes "reconstructed cfg cov n"
  shows "n \<notin> set cov"
proof -
  from assms obtain s where "(det_step cfg cov)\<^sup>+\<^sup>+ s n" by (auto simp: reconstructed_def)
  then show ?thesis by (cases rule: tranclp.cases) (simp_all add: det_step_def)
qed

lemma set_foldl_joined_insert:
  assumes "\<And>b f bb f'. (b, f, bb) \<in> set rows \<Longrightarrow> (b, f', bb) \<in> set tbl \<Longrightarrow> (b, f, bb) \<in> set tbl"
    and "\<And>b f bb f'. (b, f, bb) \<in> set rows \<Longrightarrow> (b, f', bb) \<in> set rows \<Longrightarrow> f' = f"
  shows "set (foldl joined_insert_or_ignore tbl rows) = set tbl \<union> set rows"
  using assms
proof (induction rows arbitrary: tbl)
  case Nil
  then show ?case by simp
next
  case (Cons r rows)
  obtain b f bb where r: "r = (b, f, bb)" by (cases r)
  let ?tbl' = "joined_insert_or_ignore tbl r"
  have present: "(\<exists>(b', f', bb') \<in> set tbl. b' = b \<and> bb' = bb) \<longleftrightarrow> (\<exists>f'. (b, f', bb) \<in> set tbl)"
    by auto
  have tbl': "set ?tbl' = insert r (set tbl)"
  proof (cases "\<exists>f'. (b, f', bb) \<in> set tbl")
    case True
    then obtain f' where "(b, f', bb) \<in> set tbl" by blast
    then have "(b, f, bb) \<in> set tbl" using Cons.prems(1) [of b f bb f'] r by simp
    moreover have "?tbl' = tbl" using True present by (simp add: joined_insert_or_ignore_def r)
    ultimately show ?thesis using r by auto
  next
    case False
    then have "?tbl' = tbl @ [r]" using present by (simp add: joined_insert_or_ignore_def r)
    then show ?thesis by simp
  qed
  have "set (foldl joined_insert_or_ignore ?tbl' rows) = set ?tbl' \<union> set rows"
  proof (rule Cons.IH)
    fix b1 f1 bb1 f1'
    assume a: "(b1, f1, bb1) \<in> set rows" and t: "(b1, f1', bb1) \<in> set ?tbl'"
    show "(b1, f1, bb1) \<in> set ?tbl'"
    proof (cases "(b1, f1', bb1) = r")
      case True
      then have "f1 = f1'" using Cons.prems(2) [of b1 f1' bb1 f1] a r by auto
      then show ?thesis using True tbl' by simp
    next
      case False
      then have "(b1, f1', bb1) \<in> set tbl" using t tbl' by simp
      then have "(b1, f1, bb1) \<in> set tbl" using Cons.prems(1) [of b1 f1 bb1 f1'] a by simp
      then show ?thesis using tbl' by simp
    qed
  next
    fix b1 f1 bb1 f1'
    assume "(b1, f1, bb1) \<in> set rows" "(b1, f1', bb1) \<in> set rows"
    then show "f1' = f1" using Cons.prems(2) [of b1 f1 bb1 f1'] by simp
  qed
  then show ?case using tbl' by simp
qed

lemma expand_binary_result:
  "\<exists>tbl'. expand_binary bbs cfg_edges tbl b = Some tbl' \<and>
          set tbl' = set tbl \<union>
            {(b', f, n). b' = b \<and> reconstructed (build_cfg cfg_edges b) (covered_blocks_of tbl b) n \<and>
                         block_func bbs b n = Some f}"
proof -
  let ?cov = "covered_blocks_of tbl b"
  let ?cfg = "build_cfg cfg_edges b"
  from expand_starts_result [of ?cov ?cov ?cfg "[]"] obtain nd where
    e: "expand_starts ?cfg ?cov ?cov [] = Some nd"
    and nd: "set nd = {n. \<exists>s\<in>set ?cov. (det_step ?cfg ?cov)\<^sup>+\<^sup>+ s n}" by auto
  have nd': "set nd = {n. reconstructed ?cfg ?cov n}" using nd by (simp add: reconstructed_def)
  let ?rows = "concat (map (\<lambda>bb. case block_func bbs b bb of None \<Rightarrow> [] | Some f \<Rightarrow> [(b, f, bb)]) nd)"
  have rows: "set ?rows = {(b', f, n). b' = b \<and> reconstructed ?cfg ?cov n \<and> block_func bbs b n = Some f}"
    using nd' by (auto split: option.splits)
  have res: "expand_binary bbs cfg_edges tbl b = Some (foldl joined_insert_or_ignore tbl ?rows)"
    using e by (simp add: expand_binary_def Let_def)
  have "set (foldl joined_insert_or_ignore tbl ?rows) = set tbl \<union> set ?rows"
  proof (rule set_foldl_joined_insert)
    fix b1 f1 bb1 f1'
    assume a: "(b1, f1, bb1) \<in> set ?rows" and t: "(b1, f1', bb1) \<in> set tbl"
    from a have "b1 = b" "reconstructed ?cfg ?cov bb1" unfolding rows by simp_all
    then have "bb1 \<notin> set ?cov" using reconstructed_not_covered by blast
    then have False using t \<open>b1 = b\<close> unfolding set_covered_blocks_of by blast
    then show "(b1, f1, bb1) \<in> set tbl" ..
  next
    fix b1 f1 bb1 f1'
    assume "(b1, f1, bb1) \<in> set ?rows" "(b1, f1', bb1) \<in> set ?rows"
    then show "f1' = f1" unfolding rows by simp
  qed
  then show ?thesis using res rows by simp
qed

lemma expand_binaries_result:
  assumes "distinct bs"
  shows "\<exists>tbl'. expand_binaries bbs cfg_edges tbl bs = Some tbl' \<and>
          set tbl' = set tbl \<union>
            {(b, f, n). b \<in> set bs \<and>
                        reconstructed (build_cfg cfg_edges b) (covered_blocks_of tbl b) n \<and>
                        block_func bbs b n = Some f}"
  using assms
proof (induction bs arbitrary: tbl)
  case Nil
  then show ?case by simp
next
  case (Cons b bs)
  let ?A = "\<lambda>t b. {(b', f, n). b' = b \<and> reconstructed (build_cfg cfg_edges b) (covered_blocks_of t b) n \<and>
                         block_func bbs b n = Some f}"
  from expand_binary_result [of bbs cfg_edges tbl b] obtain tbl1 where
    e1: "expand_binary bbs cfg_edges tbl b = Some tbl1"
    and s1: "set tbl1 = set tbl \<union> ?A tbl b" by blast
  have d: "distinct bs" and nb: "b \<notin> set bs" using Cons.prems by simp_all
  from Cons.IH [OF d, of tbl1] obtain tbl' where
    e2: "expand_binaries bbs cfg_edges tbl1 bs = Some tbl'"
    and s2: "set tbl' = set tbl1 \<union>
            {(b, f, n). b \<in> set bs \<and>
                        reconstructed (build_cfg cfg_edges b) (covered_blocks_of tbl1 b) n \<and>
                        block_func bbs b n = Some f}" by blast
  have same: "set (covered_blocks_of tbl1 b') = set (covered_blocks_of tbl b')" if "b' \<in> set bs" for b'
  proof -
    have "b' \<noteq> b" using that nb by blast
    then show ?thesis unfolding set_covered_blocks_of s1 by auto
  qed
  have rec: "reconstructed (build_cfg cfg_edges b') (covered_blocks_of tbl1 b') n =
             reconstructed (build_cfg cfg_edges b') (covered_blocks_of tbl b') n"
    if "b' \<in> set bs" for b' n
    by (rule reconstructed_cong [OF same [OF that]])
  have "expand_binaries bbs cfg_edges tbl (b # bs) = Some tbl'" using e1 e2 by simp
  moreover have "set tbl' = set tbl \<union>
            {(b', f, n). b' \<in> set (b # bs) \<and>
                        reconstructed (build_cfg cfg_edges b') (covered_blocks_of tbl b') n \<and>
                        block_func bbs b' n = Some f}"
    unfolding s2 s1 using rec by auto
  ultimately show ?case by blast
qed

text \<open>
  C5. The expansion of a sample returns, and the joined table afterwards holds the rows
  it held before and, for every binary of the table, one row \<open>(binary, func, n)\<close> for
  every block \<open>n\<close> of \<^verbatim>\<open>basic_blocks\<close> that is reconstructed: reached from a covered
  block of the binary by one or more deterministic edges (the only edge out of its
  source, of kind \<^verbatim>\<open>fallthrough\<close> or \<^verbatim>\<open>branch_unconditional\<close>), every block on the way
  being outside the covered set. Nothing else is added.
\<close>

theorem expand_deterministic_adds_reconstructed:
  "\<exists>tbl'. expand_deterministic_for_sample bbs cfg_edges tbl = Some tbl' \<and>
          set tbl' = set tbl \<union>
            {(b, f, n). b \<in> fst ` set tbl \<and>
                        reconstructed (build_cfg cfg_edges b) (covered_blocks_of tbl b) n \<and>
                        block_func bbs b n = Some f}"
  unfolding expand_deterministic_for_sample_def
  using expand_binaries_result [of "remdups (map fst tbl)" bbs cfg_edges tbl]
  by simp

text \<open>
  Scenario 6 of the specification: 10 to 20 by fallthrough, 20 to 30 by an unconditional
  branch, 30 to 40 and to 50 by conditional branches, recorded coverage 10 and 40.
\<close>

theorem expand_deterministic_adds_reconstructed_witness:
  "expand_deterministic_for_sample
     [(1, 7, 10, 0x400010, 0x400020), (1, 7, 20, 0x400020, 0x400030),
      (1, 7, 30, 0x400030, 0x400040), (1, 7, 40, 0x400040, 0x400050),
      (1, 7, 50, 0x400050, 0x400060)]
     [(1, 10, 20, Some ''fallthrough''), (1, 20, 30, Some ''branch_unconditional''),
      (1, 30, 40, Some ''branch_conditional''), (1, 30, 50, Some ''branch_conditional'')]
     [(1, 7, 10), (1, 7, 40)]
   = Some [(1, 7, 10), (1, 7, 40), (1, 7, 20), (1, 7, 30)]
 \<and> set [(1, 7, 10), (1, 7, 40), (1, 7, 20), (1, 7, 30)] =
     set [(1, 7, 10), (1, 7, 40)] \<union>
     {(b, f, n). b \<in> fst ` set [(1, 7, 10), (1, 7, 40 :: int) :: int \<times> int \<times> int] \<and>
        reconstructed
          (build_cfg [(1, 10, 20, Some ''fallthrough''), (1, 20, 30, Some ''branch_unconditional''),
             (1, 30, 40, Some ''branch_conditional''), (1, 30, 50, Some ''branch_conditional'')] b)
          (covered_blocks_of [(1, 7, 10), (1, 7, 40)] b) n \<and>
        block_func
          [(1, 7, 10, 0x400010, 0x400020), (1, 7, 20, 0x400020, 0x400030),
           (1, 7, 30, 0x400030, 0x400040), (1, 7, 40, 0x400040, 0x400050),
           (1, 7, 50, 0x400050, 0x400060)] b n = Some f}"
proof -
  let ?bbs = "[(1, 7, 10, 0x400010, 0x400020), (1, 7, 20, 0x400020, 0x400030),
      (1, 7, 30, 0x400030, 0x400040), (1, 7, 40, 0x400040, 0x400050),
      (1, 7, 50, 0x400050, 0x400060)] :: basic_block_row list"
  let ?cfg = "[(1, 10, 20, Some ''fallthrough''), (1, 20, 30, Some ''branch_unconditional''),
      (1, 30, 40, Some ''branch_conditional''), (1, 30, 50, Some ''branch_conditional'')]
      :: cfg_edge_row list"
  let ?tbl = "[(1, 7, 10), (1, 7, 40)] :: joined_row list"
  let ?A = "{(b, f, n). b \<in> fst ` set ?tbl \<and>
        reconstructed (build_cfg ?cfg b) (covered_blocks_of ?tbl b) n \<and>
        block_func ?bbs b n = Some f}"
  have ev: "expand_deterministic_for_sample ?bbs ?cfg ?tbl
            = Some [(1, 7, 10), (1, 7, 40), (1, 7, 20), (1, 7, 30)]"
    by code_simp
  from expand_deterministic_adds_reconstructed [of ?bbs ?cfg ?tbl]
  have eq: "set [(1, 7, 10), (1, 7, 40), (1, 7, 20), (1, 7, 30 :: int) :: int \<times> int \<times> int]
              = set ?tbl \<union> ?A"
    unfolding ev by simp
  show ?thesis using ev eq by simp
qed

lemma walk_trace_inv_step:
  assumes "distinct enq \<and> set enq \<subseteq> set (fst (snd st))" and "fst st \<noteq> []"
  shows "distinct (enq @ step_enqueued cfg cov st) \<and>
         set (enq @ step_enqueued cfg cov st) \<subseteq> set (fst (snd (walk_step cfg cov st)))"
proof -
  obtain queue vis nd where st: "st = (queue, vis, nd)" by (cases st)
  with assms(2) obtain current rest where q: "queue = current # rest" by (cases queue) auto
  have d: "distinct enq" and sub: "set enq \<subseteq> set vis" using assms(1) st by simp_all
  show ?thesis
  proof (cases rule: walk_step_cases [of cfg current vis cov rest nd])
    case (enqueue dst)
    have "step_enqueued cfg cov st = [dst]"
      by (simp add: step_enqueued_def st q enqueue(4))
    moreover have "dst \<notin> set enq" using enqueue(2) sub by blast
    ultimately show ?thesis using d sub by (auto simp: st q enqueue(4))
  next
    case (covered dst)
    have "step_enqueued cfg cov st = []"
      by (simp add: step_enqueued_def st q covered(4))
    then show ?thesis using d sub by (auto simp: st q covered(4))
  next
    case (seen dst)
    have "step_enqueued cfg cov st = []"
      by (simp add: step_enqueued_def st q seen(3))
    then show ?thesis using d sub by (auto simp: st q seen(3))
  next
    case stop
    have "step_enqueued cfg cov st = []"
      by (simp add: step_enqueued_def st q stop(2))
    then show ?thesis using d sub by (auto simp: st q stop(2))
  qed
qed

lemma walk_trace_result:
  "\<exists>vis nd' enq. walk_trace cfg cov ([start], [start], nd) [start] = Some (([], vis, nd'), enq) \<and>
                  walk_loop cfg cov ([start], [start], nd) = Some ([], vis, nd') \<and>
                  distinct enq \<and> set enq \<subseteq> set vis"
proof -
  have "\<exists>r enq'. walk_trace cfg cov ([start], [start], nd) [start] = Some (r, enq') \<and>
                  walk_loop cfg cov ([start], [start], nd) = Some r \<and> fst r = [] \<and>
                  (distinct enq' \<and> set enq' \<subseteq> set (fst (snd r)))"
    by (rule walk_trace_total
          [where Q = "\<lambda>st enq. distinct enq \<and> set enq \<subseteq> set (fst (snd st))"])
       (simp, rule walk_trace_inv_step)
  then obtain r enq where r: "walk_trace cfg cov ([start], [start], nd) [start] = Some (r, enq)"
    "walk_loop cfg cov ([start], [start], nd) = Some r" "fst r = []"
    "distinct enq" "set enq \<subseteq> set (fst (snd r))" by blast
  obtain q vis nd' where rr: "r = (q, vis, nd')" by (cases r)
  with r(3) have q: "q = []" by simp
  show ?thesis using r unfolding rr q by auto
qed

text \<open>
  C6. For every CFG (a finite list of edges, cycles or not), every covered set and every
  start block the walk returns with an empty queue, and the blocks it put on the queue,
  the start block included, are pairwise different: each was added to the visited set
  when it was put on the queue. The expansion of a whole sample returns as well.
\<close>

theorem expansion_walk_terminates:
  "(\<exists>vis nd' enq.
      walk_loop cfg cov ([start], [start], nd) = Some ([], vis, nd') \<and>
      walk_trace cfg cov ([start], [start], nd) [start] = Some (([], vis, nd'), enq) \<and>
      distinct enq \<and> set enq \<subseteq> set vis)
 \<and> (\<exists>tbl'. expand_deterministic_for_sample bbs cfg_edges tbl = Some tbl')"
proof
  show "\<exists>vis nd' enq.
      walk_loop cfg cov ([start], [start], nd) = Some ([], vis, nd') \<and>
      walk_trace cfg cov ([start], [start], nd) [start] = Some (([], vis, nd'), enq) \<and>
      distinct enq \<and> set enq \<subseteq> set vis"
    using walk_trace_result [of cfg cov start nd] by blast
  show "\<exists>tbl'. expand_deterministic_for_sample bbs cfg_edges tbl = Some tbl'"
    unfolding expand_deterministic_for_sample_def
    using expand_binaries_result [of "remdups (map fst tbl)" bbs cfg_edges tbl] by auto
qed

text \<open>A CFG with a back-edge: 10 to 20, 20 to 30, 30 back to 20, all deterministic.\<close>

theorem expansion_walk_terminates_witness:
  "walk_loop [(10, 20, ''fallthrough''), (20, 30, ''branch_unconditional''),
              (30, 20, ''fallthrough'')] [10] ([10], [10], [])
     = Some ([], [10, 20, 30], [20, 30])
 \<and> walk_trace [(10, 20, ''fallthrough''), (20, 30, ''branch_unconditional''),
              (30, 20, ''fallthrough'')] [10] ([10], [10], []) [10]
     = Some (([], [10, 20, 30], [20, 30]), [10, 20, 30])
 \<and> distinct [10, 20, 30 :: int]
 \<and> expand_deterministic_for_sample
       [(1, 7, 10, 0x400010, 0x400020), (1, 7, 20, 0x400020, 0x400030),
        (1, 7, 30, 0x400030, 0x400040)]
       [(1, 10, 20, Some ''fallthrough''), (1, 20, 30, Some ''branch_unconditional''),
        (1, 30, 20, Some ''fallthrough'')]
       [(1, 7, 10)]
     = Some [(1, 7, 10), (1, 7, 20), (1, 7, 30)]"
proof -
  let ?cfg = "[(10, 20, ''fallthrough''), (20, 30, ''branch_unconditional''),
              (30, 20, ''fallthrough'')] :: (rva \<times> rva \<times> string) list"
  have t: "walk_trace ?cfg [10] ([10], [10], []) [10]
             = Some (([], [10, 20, 30], [20, 30]), [10, 20, 30])"
    by code_simp
  have e: "expand_deterministic_for_sample
       [(1, 7, 10, 0x400010, 0x400020), (1, 7, 20, 0x400020, 0x400030),
        (1, 7, 30, 0x400030, 0x400040)]
       [(1, 10, 20, Some ''fallthrough''), (1, 20, 30, Some ''branch_unconditional''),
        (1, 30, 20, Some ''fallthrough'')]
       [(1, 7, 10)]
     = Some [(1, 7, 10), (1, 7, 20), (1, 7, 30)]"
    by code_simp
  from expansion_walk_terminates [of ?cfg "[10]" 10 "[]"]
  obtain vis nd' enq where
    l: "walk_loop ?cfg [10] ([10], [10], []) = Some ([], vis, nd')" and
    t': "walk_trace ?cfg [10] ([10], [10], []) [10] = Some (([], vis, nd'), enq)"
    by blast
  have "vis = [10, 20, 30]" and "nd' = [20, 30]" using t t' by simp_all
  then have "walk_loop ?cfg [10] ([10], [10], []) = Some ([], [10, 20, 30], [20, 30])"
    using l by simp
  then show ?thesis using t e by simp
qed

section \<open>Properties of the tables and of the diff labels\<close>

lemma insert_plain_Inr:
  assumes "insert_plain key tbl rows = Inr t"
  shows "t = tbl @ rows" and "distinct (map key rows)"
    and "\<And>r. r \<in> set rows \<Longrightarrow> key r \<notin> key ` set tbl"
  using assms by (auto simp: insert_plain_def split: if_splits)

lemma insert_plain_empty:
  "insert_plain key [] rows = (if distinct (map key rows) then Inr rows else Inl IntegrityError)"
  by (simp add: insert_plain_def)

lemma set_foldl_insert_or_ignore_id:
  "set (foldl (insert_or_ignore id) tbl rows) = set tbl \<union> set rows"
  by (induction rows arbitrary: tbl) (auto simp: insert_or_ignore_def)

lemma distinct_foldl_insert_or_ignore_id:
  "distinct tbl \<Longrightarrow> distinct (foldl (insert_or_ignore id) tbl rows)"
  by (induction rows arbitrary: tbl) (auto simp: insert_or_ignore_def)

lemma edge_type_text_super_root [simp]:
  "edge_type_text t = ''super_root'' \<longleftrightarrow> t = SuperRoot"
  by (cases t) simp_all

lemma edge_type_text_orphan [simp]:
  "edge_type_text t = ''super_root_orphan'' \<longleftrightarrow> t = SuperRootOrphan"
  by (cases t) simp_all

lemma like_super_root_text [simp]:
  "like_super_root (edge_type_text t) \<longleftrightarrow> \<not> regular_type t"
  by (cases t) (simp_all add: like_super_root_def ascii_lower_def regular_type_def)

lemma Max_01:
  fixes S :: "int set"
  assumes "finite S" and "S \<noteq> {}" and "S \<subseteq> {0, 1}"
  shows "Max S = (if 1 \<in> S then 1 else 0)"
proof (cases "1 \<in> S")
  case True
  have "Max S = 1"
  proof (rule Max_eqI [OF assms(1)])
    fix y assume "y \<in> S"
    then show "y \<le> 1" using assms(3) by auto
  qed (rule True)
  then show ?thesis using True by simp
next
  case False
  then have "S = {0}" using assms(2,3) by auto
  then show ?thesis by simp
qed

lemma labelsD:
  assumes "labels_ok L" and "(b, f, bb, in_A, in_B, is_new) \<in> set L"
  shows "in_A = 0 \<or> in_A = 1" and "in_B = 0 \<or> in_B = 1" and "in_A = 1 \<or> in_B = 1"
    and "is_new = (if in_B = 1 \<and> in_A = 0 then 1 else 0)"
proof -
  from assms(1) have "\<forall>r \<in> set L.
         case r of (b, f, bb, in_A, in_B, is_new) \<Rightarrow>
           (in_A = 0 \<or> in_A = 1) \<and> (in_B = 0 \<or> in_B = 1) \<and> (in_A = 1 \<or> in_B = 1) \<and>
           is_new = (if in_B = 1 \<and> in_A = 0 then 1 else 0)"
    unfolding labels_ok_def by (rule conjunct2)
  from bspec [OF this assms(2)]
  have h: "(in_A = 0 \<or> in_A = 1) \<and> (in_B = 0 \<or> in_B = 1) \<and> (in_A = 1 \<or> in_B = 1) \<and>
           is_new = (if in_B = 1 \<and> in_A = 0 then 1 else 0)" by simp
  show "in_A = 0 \<or> in_A = 1" using h by (rule conjunct1)
  show "in_B = 0 \<or> in_B = 1" using h by (rule conjunct2 [THEN conjunct1])
  show "in_A = 1 \<or> in_B = 1" using h by (rule conjunct2 [THEN conjunct2, THEN conjunct1])
  show "is_new = (if in_B = 1 \<and> in_A = 0 then 1 else 0)"
    using h by (rule conjunct2 [THEN conjunct2, THEN conjunct2])
qed

lemma labels_unique:
  assumes "labels_ok L" and "(b, f, bb, in_A, in_B, is_new) \<in> set L"
    and "(b, f', bb, in_A', in_B', is_new') \<in> set L"
  shows "f' = f \<and> in_A' = in_A \<and> in_B' = in_B \<and> is_new' = is_new"
proof -
  have "inj_on label_key (set L)"
    using assms(1) by (simp add: labels_ok_def distinct_map)
  moreover have "label_key (b, f, bb, in_A, in_B, is_new) = label_key (b, f', bb, in_A', in_B', is_new')"
    by (simp add: label_key_def)
  ultimately have "(b, f, bb, in_A, in_B, is_new) = (b, f', bb, in_A', in_B', is_new')"
    using assms(2,3) by (rule inj_onD)
  then show ?thesis by simp
qed

lemma diff_label_rows_ok: "labels_ok (diff_label_rows A B)"
proof -
  define unioned where "unioned = map (\<lambda>(b, f, bb). (b, f, bb, 1 :: int, 0 :: int)) A @
                    map (\<lambda>(b, f, bb). (b, f, bb, 0, 1)) B"
  define keys where "keys = remdups (map (\<lambda>(b, f, bb, in_A, in_B). (b, bb)) unioned)"
  define grp where "grp = (\<lambda>kb kbb. filter (\<lambda>(b, f, bb, in_A :: int, in_B :: int). b = kb \<and> bb = kbb) unioned)"
  define row where "row = (\<lambda>(kb, kbb).
                (let max_A = Max (set (map (\<lambda>(b, f, bb, in_A, in_B). in_A) (grp kb kbb)));
                     max_B = Max (set (map (\<lambda>(b, f, bb, in_A, in_B). in_B) (grp kb kbb)))
                 in (kb, (case last (grp kb kbb) of (b, f, bb, in_A, in_B) \<Rightarrow> f), kbb, max_A, max_B,
                     if max_B = 1 \<and> max_A = 0 then 1 else 0 :: int)))"
  have rows: "diff_label_rows A B = map row keys"
    unfolding diff_label_rows_def Let_def row_def keys_def grp_def unioned_def by simp
  have key_row: "label_key (row k) = k" for k
    by (cases k) (simp add: row_def label_key_def Let_def)
  have "map label_key (map row keys) = keys" by (simp add: key_row comp_def)
  then have d: "distinct (map label_key (diff_label_rows A B))"
    unfolding rows by (simp add: keys_def)
  have vals: "\<And>x. x \<in> set unioned \<Longrightarrow>
      (case x of (b, f, bb, in_A, in_B) \<Rightarrow> (in_A = 1 \<and> in_B = 0) \<or> (in_A = 0 \<and> in_B = 1))"
    unfolding unioned_def by auto
  have flags: "case row k of (b, f, bb, in_A, in_B, is_new) \<Rightarrow>
           (in_A = 0 \<or> in_A = 1) \<and> (in_B = 0 \<or> in_B = 1) \<and> (in_A = 1 \<or> in_B = 1) \<and>
           is_new = (if in_B = 1 \<and> in_A = 0 then 1 else 0)" if k: "k \<in> set keys" for k
  proof -
    obtain kb kbb where kk: "k = (kb, kbb)" by (cases k)
    let ?SA = "set (map (\<lambda>(b, f, bb, in_A, in_B). in_A) (grp kb kbb))"
    let ?SB = "set (map (\<lambda>(b, f, bb, in_A, in_B). in_B) (grp kb kbb))"
    from k obtain x where x: "x \<in> set unioned" "(\<lambda>(b, f, bb, in_A, in_B). (b, bb)) x = (kb, kbb)"
      unfolding keys_def kk by auto
    then have xg: "x \<in> set (grp kb kbb)" unfolding grp_def by (cases x) auto
    have sub: "set (grp kb kbb) \<subseteq> set unioned" unfolding grp_def by auto
    have neA: "?SA \<noteq> {}" and neB: "?SB \<noteq> {}" using xg by auto
    have inA: "?SA \<subseteq> {0, 1}" and inB: "?SB \<subseteq> {0, 1}"
      using vals sub by fastforce+
    have mA: "Max ?SA = (if 1 \<in> ?SA then 1 else 0)" by (rule Max_01 [OF _ neA inA]) simp
    have mB: "Max ?SB = (if 1 \<in> ?SB then 1 else 0)" by (rule Max_01 [OF _ neB inB]) simp
    have one: "1 \<in> ?SA \<or> 1 \<in> ?SB"
    proof -
      obtain b f bb a c where xx: "x = (b, f, bb, a, c)" by (cases x)
      from vals [OF x(1)] have "(a = 1 \<and> c = 0) \<or> (a = 0 \<and> c = 1)" unfolding xx by simp
      then show ?thesis using xg unfolding xx by force
    qed
    define a where "a = Max ?SA"
    define c where "c = Max ?SB"
    have "\<exists>f0. row k = (kb, f0, kbb, a, c, if c = 1 \<and> a = 0 then 1 else 0)"
      unfolding kk row_def a_def c_def by (simp add: Let_def)
    then obtain f0 where r: "row k = (kb, f0, kbb, a, c, if c = 1 \<and> a = 0 then 1 else 0)" ..
    have "(a = 0 \<or> a = 1) \<and> (c = 0 \<or> c = 1) \<and> (a = 1 \<or> c = 1)"
      using mA mB one unfolding a_def c_def by presburger
    then show ?thesis unfolding r by simp
  qed
  show ?thesis
    unfolding labels_ok_def
  proof (intro conjI ballI)
    show "distinct (map label_key (diff_label_rows A B))" by (rule d)
  next
    fix r assume "r \<in> set (diff_label_rows A B)"
    then obtain k where "k \<in> set keys" "r = row k" unfolding rows by auto
    then show "case r of (b, f, bb, in_A, in_B, is_new) \<Rightarrow>
           (in_A = 0 \<or> in_A = 1) \<and> (in_B = 0 \<or> in_B = 1) \<and> (in_A = 1 \<or> in_B = 1) \<and>
           is_new = (if in_B = 1 \<and> in_A = 0 then 1 else 0)"
      using flags by simp
  qed
qed

lemma compute_diff_labels_fresh:
  assumes "compute_diff_labels s = Inr s'" and "db_bb_labels s = []"
  shows "s' = s\<lparr> db_bb_labels := diff_label_rows (db_cov_A_blocks_joined s) (db_cov_B_blocks_joined s) \<rparr>"
    and "labels_ok (db_bb_labels s')"
proof -
  show 1: "s' = s\<lparr> db_bb_labels := diff_label_rows (db_cov_A_blocks_joined s) (db_cov_B_blocks_joined s) \<rparr>"
    using assms by (auto simp: compute_diff_labels_def insert_plain_empty split: if_splits)
  show "labels_ok (db_bb_labels s')" unfolding 1 by (simp add: diff_label_rows_ok)
qed

section \<open>Properties of the executed graph\<close>

lemma regular_edgeI:
  "regular_type t \<Longrightarrow> (b, s) \<in> set bn \<Longrightarrow> (b, d) \<in> set bn \<Longrightarrow> regular_edge bn (b, s, d, t)"
  by (simp add: regular_edge_def)

lemma regular_edgeD:
  assumes "regular_edge bn (b, s, d, t)"
  shows "regular_type t" and "(b, s) \<in> set bn" and "(b, d) \<in> set bn"
  using assms by (simp_all add: regular_edge_def)

lemma cfg_edge_type_regular:
  "cfg_edge_type kind = Some t \<Longrightarrow> regular_type t"
  by (auto simp: cfg_edge_type_def regular_type_def split: if_splits)

lemma graph_cfg_rows_regular:
  assumes "e \<in> set (graph_cfg_rows ce bn binary)"
  shows "regular_edge bn e"
proof -
  from assms obtain b src dst kind t where
    "(b, src, dst, kind) \<in> set ce" "cfg_edge_type kind = Some t"
    "b = binary \<and> (binary, src) \<in> set bn \<and> (binary, dst) \<in> set bn" "e = (binary, src, dst, t)"
    unfolding graph_cfg_rows_def by (auto split: option.splits if_splits)
  then show ?thesis using cfg_edge_type_regular by (simp add: regular_edge_def)
qed

lemma graph_call_rows_regular:
  assumes "e \<in> set (graph_call_rows calls funs bn binary)"
  shows "regular_edge bn e"
proof -
  from assms obtain src dst where
    "(binary, src) \<in> set bn \<and> (binary, dst) \<in> set bn" "e = (binary, src, dst, CallDirect)"
    unfolding graph_call_rows_def by (auto split: option.splits if_splits)
  then show ?thesis by (simp add: regular_edge_def regular_type_def)
qed

lemma observed_rows_regular:
  assumes "e \<in> set (fst (observed_rows bbs bn es cache))"
  shows "regular_edge bn e"
  using assms
proof (induction es arbitrary: cache)
  case Nil
  then show ?case by simp
next
  case (Cons x es)
  obtain binary si di where x: "x = (binary, si, di)" by (cases x)
  obtain sr c1 where r1: "find_containing_basic_block bbs cache binary si = (sr, c1)"
    by (cases "find_containing_basic_block bbs cache binary si")
  obtain dr c2 where r2: "find_containing_basic_block bbs c1 binary di = (dr, c2)"
    by (cases "find_containing_basic_block bbs c1 binary di")
  obtain rows c3 where r3: "observed_rows bbs bn es c2 = (rows, c3)"
    by (cases "observed_rows bbs bn es c2")
  have IH: "e \<in> set rows \<Longrightarrow> regular_edge bn e" using Cons.IH [of c2] r3 by simp
  show ?case
  proof (cases sr)
    case None
    then have "fst (observed_rows bbs bn (x # es) cache) = rows"
      unfolding x by (simp add: r1 r2 r3)
    then show ?thesis using Cons.prems IH by simp
  next
    case (Some sres)
    obtain sb sf where sres: "sres = (sb, sf)" by (cases sres)
    show ?thesis
    proof (cases dr)
      case None
      then have "fst (observed_rows bbs bn (x # es) cache) = rows"
        unfolding x by (simp add: r1 r2 r3 Some sres)
      then show ?thesis using Cons.prems IH by simp
    next
      case dsome: (Some dres)
      obtain db df where dres: "dres = (db, df)" by (cases dres)
      show ?thesis
      proof (cases "(binary, sb) \<in> set bn \<and> (binary, db) \<in> set bn")
        case False
        then have "fst (observed_rows bbs bn (x # es) cache) = rows"
          unfolding x by (auto simp: r1 r2 r3 Some sres dsome dres)
        then show ?thesis using Cons.prems IH by simp
      next
        case True
        then have "fst (observed_rows bbs bn (x # es) cache) =
            (binary, sb, db, if si \<noteq> sb then ObservedReturnContinuation else ObservedConditional) # rows"
          unfolding x by (simp add: r1 r2 r3 Some sres dsome dres)
        then have "e = (binary, sb, db, if si \<noteq> sb then ObservedReturnContinuation else ObservedConditional)
                   \<or> e \<in> set rows"
          using Cons.prems by simp
        then show ?thesis
        proof
          assume "e \<in> set rows" then show ?thesis by (rule IH)
        next
          assume "e = (binary, sb, db, if si \<noteq> sb then ObservedReturnContinuation else ObservedConditional)"
          then show ?thesis using True by (simp add: regular_edge_def regular_type_def)
        qed
      qed
    qed
  qed
qed

lemma graph_binary_edges_mem:
  assumes "e \<in> set (graph_binary_edges m bn E binary)"
  shows "e \<in> set E \<or> regular_edge bn e"
  using assms graph_cfg_rows_regular graph_call_rows_regular
  unfolding graph_binary_edges_def set_foldl_insert_or_ignore_id by blast

lemma foldl_graph_binary_edges_mem:
  assumes "e \<in> set (foldl (graph_binary_edges m bn) E bs)"
  shows "e \<in> set E \<or> regular_edge bn e"
  using assms
proof (induction bs arbitrary: E)
  case Nil
  then show ?case by simp
next
  case (Cons b bs)
  from Cons.IH [of "graph_binary_edges m bn E b"] Cons.prems
  have "e \<in> set (graph_binary_edges m bn E b) \<or> regular_edge bn e" by simp
  then show ?case using graph_binary_edges_mem by blast
qed

lemma graph_binary_edges_mono: "set E \<subseteq> set (graph_binary_edges m bn E binary)"
  unfolding graph_binary_edges_def set_foldl_insert_or_ignore_id by blast

lemma foldl_graph_binary_edges_mono: "set E \<subseteq> set (foldl (graph_binary_edges m bn) E bs)"
proof (induction bs arbitrary: E)
  case Nil
  then show ?case by simp
next
  case (Cons b bs)
  show ?case using Cons.IH [of "graph_binary_edges m bn E b"] graph_binary_edges_mono [of E m bn b]
    by auto
qed

lemma orphan_rows_mem:
  "(b, s, d, t) \<in> set (orphan_rows L E) \<longleftrightarrow>
     s = - 1 \<and> t = SuperRootOrphan \<and> (\<exists>f ia ib. (b, f, d, ia, ib, 1) \<in> set L) \<and>
     (\<forall>s' t'. (b, s', d, t') \<in> set E \<longrightarrow> \<not> regular_type t')"
  unfolding orphan_rows_def regular_type_def by force

lemma b_nodes_of_mem:
  "(b, bb) \<in> set (b_nodes_of N) \<longleftrightarrow> bb \<noteq> - 1 \<and> (\<exists>f isn ia. (b, bb, f, isn, ia) \<in> set N)"
  unfolding b_nodes_of_def by force

lemma b_node_rows_mem:
  "(b, bb, f, isn, ia) \<in> set (b_node_rows L) \<longleftrightarrow> (b, f, bb, ia, 1, isn) \<in> set L"
  unfolding b_node_rows_def by force

lemma super_root_node_rows_mem:
  "(b, bb, f, isn, ia) \<in> set (super_root_node_rows L) \<longleftrightarrow>
     bb = - 1 \<and> f = - 1 \<and> isn = 0 \<and> ia = 1 \<and>
     (\<exists>f' bb' ia' ib' isn'. (b, f', bb', ia', ib', isn') \<in> set L)"
  unfolding super_root_node_rows_def by force

lemma super_root_edge_rows_mem:
  "(b, s, d, t) \<in> set (super_root_edge_rows L) \<longleftrightarrow>
     s = - 1 \<and> t = SuperRoot \<and> (\<exists>f ib isn. (b, f, d, 1, ib, isn) \<in> set L)"
  unfolding super_root_edge_rows_def by force

lemma build_executed_graph_fresh:
  assumes bg: "build_executed_graph m s = Inr s'"
    and n0: "db_graph_B_nodes s = []" and e0: "db_graph_B_edges s = []"
  obtains E3 c where
    "s' = s\<lparr> db_graph_B_nodes := b_node_rows (db_bb_labels s) @ super_root_node_rows (db_bb_labels s),
              db_graph_B_edges := E3 @ orphan_rows (db_bb_labels s) E3,
              db_rva_to_bb_cache := c \<rparr>"
    "distinct (map node_key (b_node_rows (db_bb_labels s) @ super_root_node_rows (db_bb_labels s)))"
    "\<And>e. e \<in> set E3 \<Longrightarrow>
        e \<in> set (super_root_edge_rows (db_bb_labels s)) \<or>
        regular_edge (b_nodes_of (b_node_rows (db_bb_labels s) @ super_root_node_rows (db_bb_labels s))) e"
proof -
  let ?L = "db_bb_labels s"
  let ?N = "b_node_rows ?L @ super_root_node_rows ?L"
  from bg obtain nodes1 where i1: "insert_plain node_key [] (b_node_rows ?L) = Inr nodes1"
    unfolding build_executed_graph_def Let_def n0 by (auto split: sum.splits)
  from bg i1 obtain nodes2 where i2: "insert_plain node_key nodes1 (super_root_node_rows ?L) = Inr nodes2"
    unfolding build_executed_graph_def Let_def n0 by (auto split: sum.splits)
  from bg i1 i2 obtain edges1 where i3: "insert_plain id [] (super_root_edge_rows ?L) = Inr edges1"
    unfolding build_executed_graph_def Let_def n0 e0 by (auto split: sum.splits)
  define bn where "bn = b_nodes_of nodes2"
  define edges2 where "edges2 = foldl (graph_binary_edges m bn) edges1
      (remdups (map (\<lambda>(b, f, bb, in_A, in_B, is_new). b) ?L))"
  define obs where "obs = observed_rows (master_basic_blocks m) bn
                   (observed_edges_joined (db_cov_B_edges s) (db_module_binary_map s))
                   (db_rva_to_bb_cache s)"
  define edges3 where "edges3 = foldl (insert_or_ignore id) edges2 (fst obs)"
  from bg i1 i2 i3 obtain edges4 where i4: "insert_plain id edges3 (orphan_rows ?L edges3) = Inr edges4"
    and s': "s' = s\<lparr> db_graph_B_nodes := nodes2, db_graph_B_edges := edges4,
                          db_rva_to_bb_cache := snd obs \<rparr>"
    unfolding build_executed_graph_def Let_def n0 e0 edges3_def edges2_def obs_def bn_def
    by (auto split: sum.splits prod.splits)
  have n1: "nodes1 = b_node_rows ?L" using insert_plain_Inr(1) [OF i1] by simp
  have n2: "nodes2 = ?N" using insert_plain_Inr(1) [OF i2] n1 by simp
  have dN: "distinct (map node_key ?N)"
  proof -
    have "distinct (map node_key (b_node_rows ?L))" by (rule insert_plain_Inr(2) [OF i1])
    moreover have "distinct (map node_key (super_root_node_rows ?L))"
      by (rule insert_plain_Inr(2) [OF i2])
    moreover have "\<And>r. r \<in> set (super_root_node_rows ?L) \<Longrightarrow>
                     node_key r \<notin> node_key ` set (b_node_rows ?L)"
      using insert_plain_Inr(3) [OF i2] n1 by simp
    then have "set (map node_key (b_node_rows ?L)) \<inter> set (map node_key (super_root_node_rows ?L)) = {}"
      by fastforce
    ultimately show ?thesis unfolding map_append distinct_append by blast
  qed
  have e1: "edges1 = super_root_edge_rows ?L" using insert_plain_Inr(1) [OF i3] by simp
  have e4: "edges4 = edges3 @ orphan_rows ?L edges3" using insert_plain_Inr(1) [OF i4] .
  have mem3: "e \<in> set (super_root_edge_rows ?L) \<or> regular_edge (b_nodes_of ?N) e"
    if "e \<in> set edges3" for e
  proof -
    from that have "e \<in> set edges2 \<or> e \<in> set (fst obs)"
      unfolding edges3_def set_foldl_insert_or_ignore_id by simp
    then show ?thesis
    proof
      assume "e \<in> set edges2"
      then have "e \<in> set edges1 \<or> regular_edge bn e"
        unfolding edges2_def by (rule foldl_graph_binary_edges_mem)
      then show ?thesis unfolding e1 bn_def n2 .
    next
      assume "e \<in> set (fst obs)"
      then have "regular_edge bn e" unfolding obs_def by (rule observed_rows_regular)
      then show ?thesis unfolding bn_def n2 ..
    qed
  qed
  show ?thesis
  proof (rule that)
    show "s' = s\<lparr> db_graph_B_nodes := ?N, db_graph_B_edges := edges3 @ orphan_rows ?L edges3,
              db_rva_to_bb_cache := snd obs \<rparr>"
      unfolding s' n2 e4 ..
    show "distinct (map node_key ?N)" by (rule dN)
    show "\<And>e. e \<in> set edges3 \<Longrightarrow>
        e \<in> set (super_root_edge_rows ?L) \<or> regular_edge (b_nodes_of ?N) e"
      by (rule mem3)
  qed
qed

section \<open>Properties of the frontier\<close>

lemma frontier_edge_rows_mem:
  "(b, s, d, t) \<in> set (frontier_edge_rows E L) \<longleftrightarrow>
     (b, s, d, t) \<in> set E \<and> t \<noteq> SuperRoot \<and>
     (\<exists>f ib isn. (b, f, s, 1, ib, isn) \<in> set L) \<and>
     (\<exists>f ia ib. (b, f, d, ia, ib, 1) \<in> set L)"
  unfolding frontier_edge_rows_def by (auto split: if_splits)

lemma orphan_edge_rows_mem:
  "(b, s, d, t) \<in> set (orphan_edge_rows E) \<longleftrightarrow> (b, s, d, t) \<in> set E \<and> t = SuperRootOrphan"
  unfolding orphan_edge_rows_def by simp

lemma frontier_candidates_mem:
  "(b, d, f) \<in> set (frontier_candidates FE L) \<longleftrightarrow>
     (\<exists>s t. (b, s, d, t) \<in> set FE) \<and> (\<exists>ia ib isn. (b, f, d, ia, ib, isn) \<in> set L)"
proof
  assume "(b, d, f) \<in> set (frontier_candidates FE L)"
  then show "(\<exists>s t. (b, s, d, t) \<in> set FE) \<and> (\<exists>ia ib isn. (b, f, d, ia, ib, isn) \<in> set L)"
    unfolding frontier_candidates_def by (auto split: if_splits)
next
  assume "(\<exists>s t. (b, s, d, t) \<in> set FE) \<and> (\<exists>ia ib isn. (b, f, d, ia, ib, isn) \<in> set L)"
  then obtain s t ia ib isn where e: "(b, s, d, t) \<in> set FE" and l: "(b, f, d, ia, ib, isn) \<in> set L"
    by blast
  define g where "g = (\<lambda>(b, src :: int, dst, t :: edge_type).
                  map (\<lambda>(lb, lf, lbb, in_A, in_B, is_new). (b, dst, lf))
                    (filter (\<lambda>(lb, lf, lbb, in_A :: int, in_B :: int, is_new :: int). lb = b \<and> lbb = dst) L))"
  have "(b, d, f) \<in> set (g (b, s, d, t))" unfolding g_def using l by force
  then have "\<exists>x\<in>set FE. (b, d, f) \<in> set (g x)" using e by (rule_tac bexI)
  then have "(b, d, f) \<in> set (concat (map g FE))" by simp
  then show "(b, d, f) \<in> set (frontier_candidates FE L)"
    unfolding frontier_candidates_def g_def by simp
qed

lemma incoming_labelled_mem:
  "(s, ia, isn) \<in> set (incoming_labelled E L b d) \<longleftrightarrow>
     (\<exists>t f ib. (b, s, d, t) \<in> set E \<and> regular_type t \<and> (b, f, s, ia, ib, isn) \<in> set L)"
proof
  assume "(s, ia, isn) \<in> set (incoming_labelled E L b d)"
  then show "\<exists>t f ib. (b, s, d, t) \<in> set E \<and> regular_type t \<and> (b, f, s, ia, ib, isn) \<in> set L"
    unfolding incoming_labelled_def by (auto split: if_splits)
next
  assume "\<exists>t f ib. (b, s, d, t) \<in> set E \<and> regular_type t \<and> (b, f, s, ia, ib, isn) \<in> set L"
  then obtain t f ib where e: "(b, s, d, t) \<in> set E" and r: "regular_type t"
    and l: "(b, f, s, ia, ib, isn) \<in> set L" by blast
  define g where "g = (\<lambda>(b', src, dst, t).
                    if b' = b \<and> dst = d \<and> \<not> like_super_root (edge_type_text t)
                    then map (\<lambda>(lb, lf, lbb, in_A, in_B, is_new). (src, in_A, is_new))
                           (filter (\<lambda>(lb, lf :: int, lbb, in_A :: int, in_B :: int, is_new :: int).
                                      lb = b' \<and> lbb = src) L)
                    else [])"
  have "(s, ia, isn) \<in> set (g (b, s, d, t))" unfolding g_def using l r by force
  then have "\<exists>x\<in>set E. (s, ia, isn) \<in> set (g x)" using e by (rule_tac bexI)
  then have "(s, ia, isn) \<in> set (concat (map g E))" by simp
  then show "(s, ia, isn) \<in> set (incoming_labelled E L b d)"
    unfolding incoming_labelled_def g_def by simp
qed

lemma orphan_count_pos:
  "0 < length (filter (\<lambda>(b', src, dst, t). b' = b \<and> dst = d \<and>
                          edge_type_text t = ''super_root_orphan'') E)
   \<longleftrightarrow> (\<exists>s. (b, s, d, SuperRootOrphan) \<in> set E)"
proof -
  have "0 < length (filter (\<lambda>(b', src, dst, t). b' = b \<and> dst = d \<and>
                          edge_type_text t = ''super_root_orphan'') E)
        \<longleftrightarrow> (\<exists>x \<in> set E. (\<lambda>(b', src, dst, t). b' = b \<and> dst = d \<and>
                          edge_type_text t = ''super_root_orphan'') x)"
    by (simp add: length_greater_0_conv filter_empty_conv del: edge_type_text_orphan)
  also have "\<dots> \<longleftrightarrow> (\<exists>s. (b, s, d, SuperRootOrphan) \<in> set E)" by force
  finally show ?thesis .
qed

lemma classify_frontier_orphan:
  assumes "(b, s, d, SuperRootOrphan) \<in> set E"
  shows "classify_frontier E L b d = ''weak''"
proof -
  have "0 < length (filter (\<lambda>(b', src, dst, t). b' = b \<and> dst = d \<and>
                          edge_type_text t = ''super_root_orphan'') E)"
    unfolding orphan_count_pos using assms by blast
  then show ?thesis unfolding classify_frontier_def by simp
qed

lemma classify_frontier_regular:
  assumes "\<And>s. (b, s, d, SuperRootOrphan) \<notin> set E"
  shows "classify_frontier E L b d =
           (if (\<exists>s t f ib isn. (b, s, d, t) \<in> set E \<and> regular_type t \<and> (b, f, s, 1, ib, isn) \<in> set L) \<and>
               \<not> (\<exists>s t f ia ib. (b, s, d, t) \<in> set E \<and> regular_type t \<and> (b, f, s, ia, ib, 1) \<in> set L)
            then ''strong'' else ''weak'')"
proof -
  have no: "\<not> 0 < length (filter (\<lambda>(b', src, dst, t). b' = b \<and> dst = d \<and>
                          edge_type_text t = ''super_root_orphan'') E)"
    unfolding orphan_count_pos using assms by blast
  have a: "(\<exists>(src, in_A, is_new) \<in> set (incoming_labelled E L b d). in_A = 1) \<longleftrightarrow>
           (\<exists>s t f ib isn. (b, s, d, t) \<in> set E \<and> regular_type t \<and> (b, f, s, 1, ib, isn) \<in> set L)"
  proof
    assume "\<exists>(src, in_A, is_new) \<in> set (incoming_labelled E L b d). in_A = 1"
    then obtain s isn where "(s, 1, isn) \<in> set (incoming_labelled E L b d)" by auto
    then show "\<exists>s t f ib isn. (b, s, d, t) \<in> set E \<and> regular_type t \<and> (b, f, s, 1, ib, isn) \<in> set L"
      unfolding incoming_labelled_mem by blast
  next
    assume "\<exists>s t f ib isn. (b, s, d, t) \<in> set E \<and> regular_type t \<and> (b, f, s, 1, ib, isn) \<in> set L"
    then obtain s isn where "(s, 1, isn) \<in> set (incoming_labelled E L b d)"
      unfolding incoming_labelled_mem by blast
    then show "\<exists>(src, in_A, is_new) \<in> set (incoming_labelled E L b d). in_A = 1" by force
  qed
  have n: "(\<exists>(src, in_A, is_new) \<in> set (incoming_labelled E L b d). is_new = 1) \<longleftrightarrow>
           (\<exists>s t f ia ib. (b, s, d, t) \<in> set E \<and> regular_type t \<and> (b, f, s, ia, ib, 1) \<in> set L)"
  proof
    assume "\<exists>(src, in_A, is_new) \<in> set (incoming_labelled E L b d). is_new = 1"
    then obtain s ia where "(s, ia, 1) \<in> set (incoming_labelled E L b d)" by auto
    then show "\<exists>s t f ia ib. (b, s, d, t) \<in> set E \<and> regular_type t \<and> (b, f, s, ia, ib, 1) \<in> set L"
      unfolding incoming_labelled_mem by blast
  next
    assume "\<exists>s t f ia ib. (b, s, d, t) \<in> set E \<and> regular_type t \<and> (b, f, s, ia, ib, 1) \<in> set L"
    then obtain s ia where "(s, ia, 1) \<in> set (incoming_labelled E L b d)"
      unfolding incoming_labelled_mem by blast
    then show "\<exists>(src, in_A, is_new) \<in> set (incoming_labelled E L b d). is_new = 1" by force
  qed
  show ?thesis unfolding classify_frontier_def Let_def a n using no by simp
qed

lemma identify_frontier_fresh:
  assumes "identify_frontier s = Inr s'"
    and "db_frontier_edges s = []" and "db_frontier_targets s = []"
  shows "s' = s\<lparr> db_frontier_edges :=
                   frontier_edge_rows (db_graph_B_edges s) (db_bb_labels s) @
                   orphan_edge_rows (db_graph_B_edges s),
                 db_frontier_targets :=
                   map (\<lambda>(binary, bb_rva, func).
                          (binary, bb_rva, func,
                           classify_frontier (db_graph_B_edges s) (db_bb_labels s) binary bb_rva))
                     (frontier_candidates
                        (frontier_edge_rows (db_graph_B_edges s) (db_bb_labels s) @
                         orphan_edge_rows (db_graph_B_edges s))
                        (db_bb_labels s)) \<rparr>"
proof -
  let ?E = "db_graph_B_edges s" and ?L = "db_bb_labels s"
  from assms obtain fe1 where i1: "insert_plain id [] (frontier_edge_rows ?E ?L) = Inr fe1"
    unfolding identify_frontier_def Let_def by (auto split: sum.splits)
  from assms i1 obtain fe2 where i2: "insert_plain id fe1 (orphan_edge_rows ?E) = Inr fe2"
    unfolding identify_frontier_def Let_def by (auto split: sum.splits)
  let ?fd = "map (\<lambda>(binary, bb_rva, func).
                          (binary, bb_rva, func, classify_frontier ?E ?L binary bb_rva))
                     (frontier_candidates fe2 ?L)"
  from assms i1 i2 obtain ft where i3: "insert_plain target_key [] ?fd = Inr ft"
    and s': "s' = s\<lparr> db_frontier_edges := fe2, db_frontier_targets := ft \<rparr>"
    unfolding identify_frontier_def Let_def by (auto split: sum.splits)
  have "fe1 = frontier_edge_rows ?E ?L" using insert_plain_Inr(1) [OF i1] by simp
  then have fe2: "fe2 = frontier_edge_rows ?E ?L @ orphan_edge_rows ?E"
    using insert_plain_Inr(1) [OF i2] by simp
  have ft: "ft = ?fd" using insert_plain_Inr(1) [OF i3] by simp
  show ?thesis unfolding s' ft fe2 ..
qed

lemma frontier_stages_tables:
  assumes fr: "fresh_derived s0" and st: "frontier_stages m s0 = Inr s"
  obtains E3 where
    "labels_ok (db_bb_labels s)"
    "db_graph_B_nodes s = b_node_rows (db_bb_labels s) @ super_root_node_rows (db_bb_labels s)"
    "distinct (map node_key (db_graph_B_nodes s))"
    "db_graph_B_edges s = E3 @ orphan_rows (db_bb_labels s) E3"
    "\<And>e. e \<in> set E3 \<Longrightarrow>
        e \<in> set (super_root_edge_rows (db_bb_labels s)) \<or>
        regular_edge (b_nodes_of (db_graph_B_nodes s)) e"
    "db_frontier_edges s =
       frontier_edge_rows (db_graph_B_edges s) (db_bb_labels s) @ orphan_edge_rows (db_graph_B_edges s)"
    "db_frontier_targets s =
       map (\<lambda>(binary, bb_rva, func).
              (binary, bb_rva, func,
               classify_frontier (db_graph_B_edges s) (db_bb_labels s) binary bb_rva))
         (frontier_candidates (db_frontier_edges s) (db_bb_labels s))"
    "db_frontier_reachability s = []" "db_frontier_attribution s = []" "db_bb_attributed_to s = []"
proof -
  from st obtain s1 s2 where 1: "compute_diff_labels s0 = Inr s1"
    and 2: "build_executed_graph m s1 = Inr s2" and 3: "identify_frontier s2 = Inr s"
    unfolding frontier_stages_def by (auto split: sum.splits)
  have f0: "db_bb_labels s0 = []" "db_graph_B_nodes s0 = []" "db_graph_B_edges s0 = []"
      "db_frontier_edges s0 = []" "db_frontier_targets s0 = []"
      "db_frontier_reachability s0 = []" "db_frontier_attribution s0 = []"
      "db_bb_attributed_to s0 = []"
    using fr unfolding fresh_derived_def by simp_all
  note l = compute_diff_labels_fresh [OF 1 f0(1)]
  have s1: "db_graph_B_nodes s1 = []" "db_graph_B_edges s1 = []"
      "db_frontier_edges s1 = []" "db_frontier_targets s1 = []"
      "db_frontier_reachability s1 = []" "db_frontier_attribution s1 = []"
      "db_bb_attributed_to s1 = []"
    unfolding l(1) using f0 by simp_all
  obtain E3 c where g:
    "s2 = s1\<lparr> db_graph_B_nodes := b_node_rows (db_bb_labels s1) @ super_root_node_rows (db_bb_labels s1),
              db_graph_B_edges := E3 @ orphan_rows (db_bb_labels s1) E3,
              db_rva_to_bb_cache := c \<rparr>"
    "distinct (map node_key (b_node_rows (db_bb_labels s1) @ super_root_node_rows (db_bb_labels s1)))"
    "\<And>e. e \<in> set E3 \<Longrightarrow>
        e \<in> set (super_root_edge_rows (db_bb_labels s1)) \<or>
        regular_edge (b_nodes_of (b_node_rows (db_bb_labels s1) @ super_root_node_rows (db_bb_labels s1))) e"
    by (rule build_executed_graph_fresh [OF 2 s1(1,2)]) blast
  have s2: "db_frontier_edges s2 = []" "db_frontier_targets s2 = []"
      "db_frontier_reachability s2 = []" "db_frontier_attribution s2 = []"
      "db_bb_attributed_to s2 = []" "db_bb_labels s2 = db_bb_labels s1"
    unfolding g(1) using s1 by simp_all
  note i = identify_frontier_fresh [OF 3 s2(1,2)]
  have L: "db_bb_labels s = db_bb_labels s1" unfolding i g(1) by simp
  have N: "db_graph_B_nodes s = b_node_rows (db_bb_labels s1) @ super_root_node_rows (db_bb_labels s1)"
    unfolding i g(1) by simp
  have E: "db_graph_B_edges s = E3 @ orphan_rows (db_bb_labels s1) E3"
    unfolding i g(1) by simp
  have E2: "db_graph_B_edges s2 = db_graph_B_edges s" unfolding i by simp
  have FE: "db_frontier_edges s =
       frontier_edge_rows (db_graph_B_edges s2) (db_bb_labels s2) @ orphan_edge_rows (db_graph_B_edges s2)"
    unfolding i by simp
  have FT: "db_frontier_targets s =
       map (\<lambda>(binary, bb_rva, func).
              (binary, bb_rva, func,
               classify_frontier (db_graph_B_edges s2) (db_bb_labels s2) binary bb_rva))
         (frontier_candidates (frontier_edge_rows (db_graph_B_edges s2) (db_bb_labels s2) @ orphan_edge_rows (db_graph_B_edges s2)) (db_bb_labels s2))"
    unfolding i by simp
  have rest: "db_frontier_reachability s = []" "db_frontier_attribution s = []" "db_bb_attributed_to s = []"
    unfolding i using s2 by simp_all
  show ?thesis
  proof (rule that [of E3])
    show "labels_ok (db_bb_labels s)" unfolding L by (rule l(2))
    show "db_graph_B_nodes s = b_node_rows (db_bb_labels s) @ super_root_node_rows (db_bb_labels s)"
      unfolding L by (rule N)
    show "distinct (map node_key (db_graph_B_nodes s))" unfolding N by (rule g(2))
    show "db_graph_B_edges s = E3 @ orphan_rows (db_bb_labels s) E3" unfolding L by (rule E)
    show "\<And>e. e \<in> set E3 \<Longrightarrow>
        e \<in> set (super_root_edge_rows (db_bb_labels s)) \<or>
        regular_edge (b_nodes_of (db_graph_B_nodes s)) e"
      unfolding N L by (rule g(3))
    show "db_frontier_edges s =
       frontier_edge_rows (db_graph_B_edges s) (db_bb_labels s) @ orphan_edge_rows (db_graph_B_edges s)"
      unfolding FE E2 s2(6) L ..
    show "db_frontier_targets s =
       map (\<lambda>(binary, bb_rva, func).
              (binary, bb_rva, func,
               classify_frontier (db_graph_B_edges s) (db_bb_labels s) binary bb_rva))
         (frontier_candidates (db_frontier_edges s) (db_bb_labels s))"
      unfolding FT FE E2 s2(6) L ..
  qed (rule rest)+
qed

lemma fs_labels_ok:
  assumes "fresh_derived s0" and "frontier_stages m s0 = Inr s"
  shows "labels_ok (db_bb_labels s)"
  by (rule frontier_stages_tables [OF assms])

lemma fs_nodes:
  assumes "fresh_derived s0" and "frontier_stages m s0 = Inr s"
  shows "db_graph_B_nodes s = b_node_rows (db_bb_labels s) @ super_root_node_rows (db_bb_labels s)"
  by (rule frontier_stages_tables [OF assms])

lemma fs_nodes_distinct:
  assumes "fresh_derived s0" and "frontier_stages m s0 = Inr s"
  shows "distinct (map node_key (db_graph_B_nodes s))"
  by (rule frontier_stages_tables [OF assms])

lemma fs_frontier_edges:
  assumes "fresh_derived s0" and "frontier_stages m s0 = Inr s"
  shows "db_frontier_edges s =
       frontier_edge_rows (db_graph_B_edges s) (db_bb_labels s) @ orphan_edge_rows (db_graph_B_edges s)"
  by (rule frontier_stages_tables [OF assms])

lemma fs_frontier_targets:
  assumes "fresh_derived s0" and "frontier_stages m s0 = Inr s"
  shows "db_frontier_targets s =
       map (\<lambda>(binary, bb_rva, func).
              (binary, bb_rva, func,
               classify_frontier (db_graph_B_edges s) (db_bb_labels s) binary bb_rva))
         (frontier_candidates (db_frontier_edges s) (db_bb_labels s))"
  by (rule frontier_stages_tables [OF assms])

lemma fs_later_tables:
  assumes "fresh_derived s0" and "frontier_stages m s0 = Inr s"
  shows "db_frontier_reachability s = []" and "db_frontier_attribution s = []"
    and "db_bb_attributed_to s = []"
proof -
  show "db_frontier_reachability s = []" by (rule frontier_stages_tables [OF assms])
  show "db_frontier_attribution s = []" by (rule frontier_stages_tables [OF assms])
  show "db_bb_attributed_to s = []" by (rule frontier_stages_tables [OF assms])
qed

lemma graph_edge_cases:
  assumes fr: "fresh_derived s0" and st: "frontier_stages m s0 = Inr s"
    and e: "(b, src, d, t) \<in> set (db_graph_B_edges s)"
  shows "t = SuperRoot \<and> src = - 1 \<and> (\<exists>f ib isn. (b, f, d, 1, ib, isn) \<in> set (db_bb_labels s))
       \<or> regular_type t \<and> (b, src) \<in> set (b_nodes_of (db_graph_B_nodes s)) \<and>
          (b, d) \<in> set (b_nodes_of (db_graph_B_nodes s))
       \<or> t = SuperRootOrphan \<and> src = - 1 \<and>
          (\<exists>f ia ib. (b, f, d, ia, ib, 1) \<in> set (db_bb_labels s)) \<and>
          (\<forall>s' t'. (b, s', d, t') \<in> set (db_graph_B_edges s) \<longrightarrow> \<not> regular_type t')"
proof -
  let ?L = "db_bb_labels s" and ?N = "db_graph_B_nodes s"
  obtain E3 where E: "db_graph_B_edges s = E3 @ orphan_rows ?L E3"
    and E3: "\<And>e. e \<in> set E3 \<Longrightarrow>
        e \<in> set (super_root_edge_rows ?L) \<or> regular_edge (b_nodes_of ?N) e"
    by (rule frontier_stages_tables [OF fr st]) blast
  from e have "(b, src, d, t) \<in> set E3 \<or> (b, src, d, t) \<in> set (orphan_rows ?L E3)"
    unfolding E by simp
  then show ?thesis
  proof
    assume "(b, src, d, t) \<in> set E3"
    from E3 [OF this] show ?thesis
    proof
      assume "(b, src, d, t) \<in> set (super_root_edge_rows ?L)"
      then show ?thesis unfolding super_root_edge_rows_mem by blast
    next
      assume "regular_edge (b_nodes_of ?N) (b, src, d, t)"
      then show ?thesis by (simp add: regular_edge_def)
    qed
  next
    assume o: "(b, src, d, t) \<in> set (orphan_rows ?L E3)"
    then have 1: "src = - 1" "t = SuperRootOrphan" "\<exists>f ia ib. (b, f, d, ia, ib, 1) \<in> set ?L"
      and 2: "\<And>s' t'. (b, s', d, t') \<in> set E3 \<Longrightarrow> \<not> regular_type t'"
      unfolding orphan_rows_mem by blast+
    have "\<not> regular_type t'" if "(b, s', d, t') \<in> set (db_graph_B_edges s)" for s' t'
    proof -
      from that have "(b, s', d, t') \<in> set E3 \<or> (b, s', d, t') \<in> set (orphan_rows ?L E3)"
        unfolding E by simp
      then show ?thesis
      proof
        assume "(b, s', d, t') \<in> set E3" then show ?thesis by (rule 2)
      next
        assume "(b, s', d, t') \<in> set (orphan_rows ?L E3)"
        then have "t' = SuperRootOrphan" unfolding orphan_rows_mem by blast
        then show ?thesis by (simp add: regular_type_def)
      qed
    qed
    then show ?thesis using 1 by blast
  qed
qed

lemma graph_orphan_edge:
  assumes fr: "fresh_derived s0" and st: "frontier_stages m s0 = Inr s"
    and e: "(b, src, d, SuperRootOrphan) \<in> set (db_graph_B_edges s)"
  shows "src = - 1" and "\<exists>f ia ib. (b, f, d, ia, ib, 1) \<in> set (db_bb_labels s)"
    and "\<And>s' t'. (b, s', d, t') \<in> set (db_graph_B_edges s) \<Longrightarrow> \<not> regular_type t'"
  using graph_edge_cases [OF fr st e] by (auto simp: regular_type_def)

lemma graph_regular_edge:
  assumes fr: "fresh_derived s0" and st: "frontier_stages m s0 = Inr s"
    and e: "(b, src, d, t) \<in> set (db_graph_B_edges s)" and r: "regular_type t"
  shows "(b, src) \<in> set (b_nodes_of (db_graph_B_nodes s))"
    and "(b, d) \<in> set (b_nodes_of (db_graph_B_nodes s))"
  using graph_edge_cases [OF fr st e] r by (auto simp: regular_type_def)

lemma graph_super_root_edge:
  assumes fr: "fresh_derived s0" and st: "frontier_stages m s0 = Inr s"
    and e: "(b, src, d, SuperRoot) \<in> set (db_graph_B_edges s)"
  shows "src = - 1" and "\<exists>f ib isn. (b, f, d, 1, ib, isn) \<in> set (db_bb_labels s)"
  using graph_edge_cases [OF fr st e] by (auto simp: regular_type_def)

lemma graph_b_node_label:
  assumes fr: "fresh_derived s0" and st: "frontier_stages m s0 = Inr s"
    and n: "(b, x) \<in> set (b_nodes_of (db_graph_B_nodes s))"
  shows "x \<noteq> - 1 \<and> (\<exists>f ia isn. (b, f, x, ia, 1, isn) \<in> set (db_bb_labels s))"
proof -
  let ?L = "db_bb_labels s"
  have N: "db_graph_B_nodes s = b_node_rows ?L @ super_root_node_rows ?L"
    by (rule fs_nodes [OF fr st])
  from n obtain f isn ia where x: "x \<noteq> - 1" and "(b, x, f, isn, ia) \<in> set (db_graph_B_nodes s)"
    unfolding b_nodes_of_mem by blast
  then have "(b, x, f, isn, ia) \<in> set (b_node_rows ?L)"
    unfolding N using super_root_node_rows_mem by auto
  then show ?thesis using x unfolding b_node_rows_mem by blast
qed

lemma no_new_label_at_super_root:
  assumes fr: "fresh_derived s0" and st: "frontier_stages m s0 = Inr s"
  shows "(b, f, - 1, ia, ib, 1) \<notin> set (db_bb_labels s)"
proof
  let ?L = "db_bb_labels s"
  assume l: "(b, f, - 1, ia, ib, 1) \<in> set ?L"
  have ok: "labels_ok ?L" by (rule fs_labels_ok [OF fr st])
  have N: "db_graph_B_nodes s = b_node_rows ?L @ super_root_node_rows ?L"
    by (rule fs_nodes [OF fr st])
  have d: "distinct (map node_key (db_graph_B_nodes s))" by (rule fs_nodes_distinct [OF fr st])
  have "(1 :: int) = (if ib = 1 \<and> ia = 0 then 1 else 0)" by (rule labelsD(4) [OF ok l])
  then have "ib = 1" by (simp split: if_splits)
  then have 1: "(b, - 1, f, 1, ia) \<in> set (db_graph_B_nodes s)"
    unfolding N using l by (simp add: b_node_rows_mem)
  have 2: "(b, - 1, - 1, 0, 1) \<in> set (db_graph_B_nodes s)"
    unfolding N using l by (auto simp: super_root_node_rows_mem)
  have inj: "inj_on node_key (set (db_graph_B_nodes s))" using d by (simp add: distinct_map)
  have k: "node_key (b, - 1, f, 1, ia) = node_key (b, - 1, - 1, 0, 1)"
    by (simp add: node_key_def)
  from inj_onD [OF inj k 1 2] show False by simp
qed

lemma frontier_target_cases:
  assumes fr: "fresh_derived s0" and st: "frontier_stages m s0 = Inr s"
    and ft: "(b, f, func, ty) \<in> set (db_frontier_targets s)"
  shows "ty = classify_frontier (db_graph_B_edges s) (db_bb_labels s) b f"
    and "\<exists>ia ib isn. (b, func, f, ia, ib, isn) \<in> set (db_bb_labels s)"
    and "(\<exists>src t. (b, src, f, t) \<in> set (db_graph_B_edges s) \<and> t \<noteq> SuperRoot \<and>
            (\<exists>fs ib isn. (b, fs, src, 1, ib, isn) \<in> set (db_bb_labels s)) \<and>
            (\<exists>fd ia ib. (b, fd, f, ia, ib, 1) \<in> set (db_bb_labels s)))
         \<or> (\<exists>src. (b, src, f, SuperRootOrphan) \<in> set (db_graph_B_edges s))"
proof -
  let ?L = "db_bb_labels s" and ?E = "db_graph_B_edges s"
  have FE: "db_frontier_edges s = frontier_edge_rows ?E ?L @ orphan_edge_rows ?E"
    by (rule fs_frontier_edges [OF fr st])
  have FT: "db_frontier_targets s =
       map (\<lambda>(binary, bb_rva, func).
              (binary, bb_rva, func, classify_frontier ?E ?L binary bb_rva))
         (frontier_candidates (db_frontier_edges s) ?L)"
    by (rule fs_frontier_targets [OF fr st])
  from ft have c: "(b, f, func) \<in> set (frontier_candidates (db_frontier_edges s) ?L)"
    and ty: "ty = classify_frontier ?E ?L b f"
    unfolding FT by auto
  show "ty = classify_frontier ?E ?L b f" by (rule ty)
  from c obtain src t where e: "(b, src, f, t) \<in> set (db_frontier_edges s)"
    and l: "\<exists>ia ib isn. (b, func, f, ia, ib, isn) \<in> set ?L"
    unfolding frontier_candidates_mem by blast
  show "\<exists>ia ib isn. (b, func, f, ia, ib, isn) \<in> set ?L" by (rule l)
  from e have "(b, src, f, t) \<in> set (frontier_edge_rows ?E ?L) \<or>
               (b, src, f, t) \<in> set (orphan_edge_rows ?E)"
    unfolding FE by simp
  then show "(\<exists>src t. (b, src, f, t) \<in> set ?E \<and> t \<noteq> SuperRoot \<and>
            (\<exists>fs ib isn. (b, fs, src, 1, ib, isn) \<in> set ?L) \<and>
            (\<exists>fd ia ib. (b, fd, f, ia, ib, 1) \<in> set ?L))
         \<or> (\<exists>src. (b, src, f, SuperRootOrphan) \<in> set ?E)"
    unfolding frontier_edge_rows_mem orphan_edge_rows_mem by blast
qed

lemma example_fresh: "fresh_derived example_store"
  by (simp add: fresh_derived_def example_store_def)

lemma example_frontier_tables:
  "map_sum id (\<lambda>s. (db_bb_labels s, db_graph_B_nodes s, db_graph_B_edges s, db_frontier_edges s,
                     db_frontier_targets s))
     (frontier_stages example_master example_store)
   = Inr ([(1, 7, 100, 1, 1, 0), (1, 7, 200, 1, 1, 0), (1, 7, 300, 0, 1, 1),
           (1, 7, 400, 1, 1, 0), (1, 7, 500, 0, 1, 1), (1, 7, 600, 0, 1, 1)],
          [(1, 100, 7, 0, 1), (1, 200, 7, 0, 1), (1, 300, 7, 1, 0), (1, 400, 7, 0, 1),
           (1, 500, 7, 1, 0), (1, 600, 7, 1, 0), (1, - 1, - 1, 0, 1)],
          [(1, - 1, 100, SuperRoot), (1, - 1, 200, SuperRoot), (1, - 1, 400, SuperRoot),
           (1, 200, 500, CfgFallthrough), (1, 300, 500, CfgFallthrough),
           (1, 100, 300, ObservedConditional), (1, 100, 200, ObservedConditional),
           (1, - 1, 600, SuperRootOrphan)],
          [(1, 200, 500, CfgFallthrough), (1, 100, 300, ObservedConditional),
           (1, - 1, 600, SuperRootOrphan)],
          [(1, 500, 7, ''weak''), (1, 300, 7, ''strong''), (1, 600, 7, ''weak'')])"
  by code_simp

lemma example_frontier_stages:
  obtains s where "frontier_stages example_master example_store = Inr s"
    "db_bb_labels s = [(1, 7, 100, 1, 1, 0), (1, 7, 200, 1, 1, 0), (1, 7, 300, 0, 1, 1),
           (1, 7, 400, 1, 1, 0), (1, 7, 500, 0, 1, 1), (1, 7, 600, 0, 1, 1)]"
    "db_graph_B_nodes s = [(1, 100, 7, 0, 1), (1, 200, 7, 0, 1), (1, 300, 7, 1, 0), (1, 400, 7, 0, 1),
           (1, 500, 7, 1, 0), (1, 600, 7, 1, 0), (1, - 1, - 1, 0, 1)]"
    "db_graph_B_edges s = [(1, - 1, 100, SuperRoot), (1, - 1, 200, SuperRoot), (1, - 1, 400, SuperRoot),
           (1, 200, 500, CfgFallthrough), (1, 300, 500, CfgFallthrough),
           (1, 100, 300, ObservedConditional), (1, 100, 200, ObservedConditional),
           (1, - 1, 600, SuperRootOrphan)]"
    "db_frontier_edges s = [(1, 200, 500, CfgFallthrough), (1, 100, 300, ObservedConditional),
           (1, - 1, 600, SuperRootOrphan)]"
    "db_frontier_targets s = [(1, 500, 7, ''weak''), (1, 300, 7, ''strong''), (1, 600, 7, ''weak'')]"
proof (cases "frontier_stages example_master example_store")
  case (Inl e)
  then show ?thesis using example_frontier_tables by simp
next
  case (Inr s)
  show ?thesis
    by (rule that [of s]) (use Inr example_frontier_tables in simp_all)
qed

text \<open>
  C3. After the diff labels, the executed graph and the frontier identification have run
  on a store whose derived tables were empty, every row \<open>(b, f, func, ty)\<close> of
  \<^verbatim>\<open>frontier_targets\<close> is a block with a label of \<^verbatim>\<open>is_new = 1\<close>; it has an incoming edge of
  a regular type (CFG, direct call or observed) whose source is labelled \<^verbatim>\<open>in_A = 1\<close>, or
  the \<^verbatim>\<open>super_root_orphan\<close> edge from the super-root; and a \<^verbatim>\<open>super_root_orphan\<close> edge into
  a block comes from the super-root and means that no edge of a regular type enters the
  block.
\<close>

theorem frontier_targets_are_new_and_entered:
  assumes "fresh_derived s0" and "frontier_stages master s0 = Inr s"
    and "(b, f, func, ty) \<in> set (db_frontier_targets s)"
  shows "(\<exists>fn ia ib. (b, fn, f, ia, ib, 1) \<in> set (db_bb_labels s))
       \<and> ((\<exists>src t fs ib isn. (b, src, f, t) \<in> set (db_graph_B_edges s) \<and> regular_type t \<and>
                (b, fs, src, 1, ib, isn) \<in> set (db_bb_labels s))
          \<or> (b, - 1, f, SuperRootOrphan) \<in> set (db_graph_B_edges s))
       \<and> (\<forall>src. (b, src, f, SuperRootOrphan) \<in> set (db_graph_B_edges s) \<longrightarrow>
             src = - 1 \<and>
             (\<forall>src' t'. (b, src', f, t') \<in> set (db_graph_B_edges s) \<longrightarrow> \<not> regular_type t'))"
proof -
  let ?L = "db_bb_labels s" and ?E = "db_graph_B_edges s"
  note fr = assms(1) and st = assms(2)
  have orph: "src = - 1 \<and> (\<exists>fn ia ib. (b, fn, f, ia, ib, 1) \<in> set ?L) \<and>
              (\<forall>src' t'. (b, src', f, t') \<in> set ?E \<longrightarrow> \<not> regular_type t')"
    if "(b, src, f, SuperRootOrphan) \<in> set ?E" for src
    using graph_orphan_edge [OF fr st that] by blast
  from frontier_target_cases(3) [OF fr st assms(3)]
  consider (edge) src t where "(b, src, f, t) \<in> set ?E" "t \<noteq> SuperRoot"
      "\<exists>fs ib isn. (b, fs, src, 1, ib, isn) \<in> set ?L" "\<exists>fd ia ib. (b, fd, f, ia, ib, 1) \<in> set ?L"
    | (orphan) src where "(b, src, f, SuperRootOrphan) \<in> set ?E"
    by blast
  then have main: "(\<exists>fn ia ib. (b, fn, f, ia, ib, 1) \<in> set ?L)
       \<and> ((\<exists>src t fs ib isn. (b, src, f, t) \<in> set ?E \<and> regular_type t \<and>
                (b, fs, src, 1, ib, isn) \<in> set ?L)
          \<or> (b, - 1, f, SuperRootOrphan) \<in> set ?E)"
  proof cases
    case edge
    show ?thesis
    proof (cases "t = SuperRootOrphan")
      case True
      then have "(b, src, f, SuperRootOrphan) \<in> set ?E" using edge(1) by simp
      then show ?thesis using orph [of src] by blast
    next
      case False
      then have "regular_type t" using edge(2) by (simp add: regular_type_def)
      then show ?thesis using edge by blast
    qed
  next
    case orphan
    then show ?thesis using orph [of src] by blast
  qed
  show ?thesis using main orph by blast
qed

theorem frontier_targets_are_new_and_entered_witness:
  "fresh_derived example_store
 \<and> (\<exists>s. frontier_stages example_master example_store = Inr s
        \<and> (1, 300, 7, ''strong'') \<in> set (db_frontier_targets s)
        \<and> (\<exists>fn ia ib. (1, fn, 300, ia, ib, 1) \<in> set (db_bb_labels s))
        \<and> (1, 100, 300, ObservedConditional) \<in> set (db_graph_B_edges s)
        \<and> (1, 7, 100, 1, 1, 0) \<in> set (db_bb_labels s)
        \<and> (1, 600, 7, ''weak'') \<in> set (db_frontier_targets s)
        \<and> (1, - 1, 600, SuperRootOrphan) \<in> set (db_graph_B_edges s))"
proof -
  obtain s where st: "frontier_stages example_master example_store = Inr s"
    and L: "db_bb_labels s = [(1, 7, 100, 1, 1, 0), (1, 7, 200, 1, 1, 0), (1, 7, 300, 0, 1, 1),
           (1, 7, 400, 1, 1, 0), (1, 7, 500, 0, 1, 1), (1, 7, 600, 0, 1, 1)]"
    and E: "db_graph_B_edges s = [(1, - 1, 100, SuperRoot), (1, - 1, 200, SuperRoot), (1, - 1, 400, SuperRoot),
           (1, 200, 500, CfgFallthrough), (1, 300, 500, CfgFallthrough),
           (1, 100, 300, ObservedConditional), (1, 100, 200, ObservedConditional),
           (1, - 1, 600, SuperRootOrphan)]"
    and FT: "db_frontier_targets s = [(1, 500, 7, ''weak''), (1, 300, 7, ''strong''), (1, 600, 7, ''weak'')]"
    by (rule example_frontier_stages)
  have m: "(1, 300, 7, ''strong'') \<in> set (db_frontier_targets s)" unfolding FT by simp
  from frontier_targets_are_new_and_entered [OF example_fresh st m]
  have "\<exists>fn ia ib. (1, fn, 300, ia, ib, 1) \<in> set (db_bb_labels s)" by (rule conjunct1)
  moreover have "(1, 100, 300, ObservedConditional) \<in> set (db_graph_B_edges s)" unfolding E by simp
  moreover have "(1, 7, 100, 1, 1, 0) \<in> set (db_bb_labels s)" unfolding L by simp
  moreover have "(1, 600, 7, ''weak'') \<in> set (db_frontier_targets s)" unfolding FT by simp
  moreover have "(1, - 1, 600, SuperRootOrphan) \<in> set (db_graph_B_edges s)" unfolding E by simp
  ultimately show ?thesis using example_fresh st m by blast
qed

lemma classify_frontier_values:
  "classify_frontier E L b d = ''strong'' \<or> classify_frontier E L b d = ''weak''"
  unfolding classify_frontier_def Let_def by simp

text \<open>
  C1 (as amended). After the frontier identification on a store whose derived tables
  were empty, a frontier target is classified \<^verbatim>\<open>strong\<close> or \<^verbatim>\<open>weak\<close>; a target with an
  incoming \<^verbatim>\<open>super_root_orphan\<close> edge is \<^verbatim>\<open>weak\<close>; and a target without one is \<^verbatim>\<open>strong\<close>
  exactly when every incoming edge of a regular type has a source labelled \<^verbatim>\<open>in_A = 1\<close>
  and no incoming edge of any type has a source labelled \<^verbatim>\<open>is_new = 1\<close>.
\<close>

theorem frontier_classification:
  assumes "fresh_derived s0" and "frontier_stages master s0 = Inr s"
    and "(b, f, func, ty) \<in> set (db_frontier_targets s)"
  shows "(ty = ''strong'' \<or> ty = ''weak'')
       \<and> ((\<exists>src. (b, src, f, SuperRootOrphan) \<in> set (db_graph_B_edges s)) \<longrightarrow> ty = ''weak'')
       \<and> ((\<forall>src. (b, src, f, SuperRootOrphan) \<notin> set (db_graph_B_edges s)) \<longrightarrow>
            (ty = ''strong'' \<longleftrightarrow>
               (\<forall>src t. (b, src, f, t) \<in> set (db_graph_B_edges s) \<and> regular_type t \<longrightarrow>
                   (\<exists>fs ib isn. (b, fs, src, 1, ib, isn) \<in> set (db_bb_labels s)))
             \<and> (\<forall>src t fs ia ib. (b, src, f, t) \<in> set (db_graph_B_edges s) \<longrightarrow>
                   (b, fs, src, ia, ib, 1) \<notin> set (db_bb_labels s))))"
proof -
  let ?L = "db_bb_labels s" and ?E = "db_graph_B_edges s"
  note fr = assms(1) and st = assms(2)
  have ty: "ty = classify_frontier ?E ?L b f" by (rule frontier_target_cases(1) [OF fr st assms(3)])
  have v: "ty = ''strong'' \<or> ty = ''weak''" unfolding ty by (rule classify_frontier_values)
  have o: "ty = ''weak''" if "\<exists>src. (b, src, f, SuperRootOrphan) \<in> set ?E"
  proof -
    from that obtain src where "(b, src, f, SuperRootOrphan) \<in> set ?E" ..
    then show ?thesis unfolding ty by (rule classify_frontier_orphan)
  qed
  have r: "ty = ''strong'' \<longleftrightarrow>
               (\<forall>src t. (b, src, f, t) \<in> set ?E \<and> regular_type t \<longrightarrow>
                   (\<exists>fs ib isn. (b, fs, src, 1, ib, isn) \<in> set ?L))
             \<and> (\<forall>src t fs ia ib. (b, src, f, t) \<in> set ?E \<longrightarrow> (b, fs, src, ia, ib, 1) \<notin> set ?L)"
    (is "_ \<longleftrightarrow> ?R1 \<and> ?R2")
    if no: "\<forall>src. (b, src, f, SuperRootOrphan) \<notin> set ?E"
  proof -
    let ?A = "\<exists>s t f' ib isn. (b, s, f, t) \<in> set ?E \<and> regular_type t \<and> (b, f', s, 1, ib, isn) \<in> set ?L"
    let ?B = "\<exists>s t f' ia ib. (b, s, f, t) \<in> set ?E \<and> regular_type t \<and> (b, f', s, ia, ib, 1) \<in> set ?L"
    have c: "ty = (if ?A \<and> \<not> ?B then ''strong'' else ''weak'')"
      unfolding ty by (rule classify_frontier_regular) (use no in blast)
    have A: ?A
    proof -
      from frontier_target_cases(3) [OF fr st assms(3)] no
      obtain src t where e: "(b, src, f, t) \<in> set ?E" and t: "t \<noteq> SuperRoot"
        and l: "\<exists>fs ib isn. (b, fs, src, 1, ib, isn) \<in> set ?L" by blast
      have "t \<noteq> SuperRootOrphan" using e no by blast
      then have "regular_type t" using t by (simp add: regular_type_def)
      then show ?thesis using e l by blast
    qed
    have sB: "ty = ''strong'' \<longleftrightarrow> \<not> ?B" unfolding c using A by simp
    have R1: ?R1 if nB: "\<not> ?B"
    proof (intro allI impI)
      fix src t assume "(b, src, f, t) \<in> set ?E \<and> regular_type t"
      then have e: "(b, src, f, t) \<in> set ?E" and rt: "regular_type t" by simp_all
      have "(b, src) \<in> set (b_nodes_of (db_graph_B_nodes s))"
        by (rule graph_regular_edge(1) [OF fr st e rt])
      from graph_b_node_label [OF fr st this]
      obtain fs ia isn where l: "(b, fs, src, ia, 1, isn) \<in> set ?L" by blast
      have "isn \<noteq> 1" using nB e rt l by blast
      moreover have "isn = (if (1 :: int) = 1 \<and> ia = 0 then 1 else 0)"
        by (rule labelsD(4) [OF fs_labels_ok [OF fr st] l])
      moreover have "ia = 0 \<or> ia = 1" by (rule labelsD(1) [OF fs_labels_ok [OF fr st] l])
      ultimately have "ia = 1" by (auto split: if_splits)
      then show "\<exists>fs ib isn. (b, fs, src, 1, ib, isn) \<in> set ?L" using l by blast
    qed
    have R2: ?R2 if nB: "\<not> ?B"
    proof (intro allI impI)
      fix src t fs ia ib assume e: "(b, src, f, t) \<in> set ?E"
      show "(b, fs, src, ia, ib, 1) \<notin> set ?L"
      proof
        assume l: "(b, fs, src, ia, ib, 1) \<in> set ?L"
        from graph_edge_cases [OF fr st e]
        consider "t = SuperRoot" "src = - 1" | "regular_type t" | "t = SuperRootOrphan"
          by blast
        then show False
        proof cases
          case 1
          then show False using l no_new_label_at_super_root [OF fr st] by blast
        next
          case 2
          then show False using nB e l by blast
        next
          case 3
          then show False using e no by blast
        qed
      qed
    qed
    have nB: "\<not> ?B" if "?R1 \<and> ?R2" using that by blast
    show ?thesis unfolding sB using R1 R2 nB by blast
  qed
  show ?thesis using v o r by blast
qed

theorem frontier_classification_witness:
  "fresh_derived example_store
 \<and> (\<exists>s. frontier_stages example_master example_store = Inr s
        \<and> (1, 300, 7, ''strong'') \<in> set (db_frontier_targets s)
        \<and> filter (\<lambda>(b, src, dst, t). b = 1 \<and> dst = 300) (db_graph_B_edges s)
            = [(1, 100, 300, ObservedConditional)]
        \<and> (\<exists>fs ib isn. (1, fs, 100, 1, ib, isn) \<in> set (db_bb_labels s))
        \<and> (1, 7, 100, 0, 1, 1) \<notin> set (db_bb_labels s)
        \<and> (1, 500, 7, ''weak'') \<in> set (db_frontier_targets s)
        \<and> (1, 300, 500, CfgFallthrough) \<in> set (db_graph_B_edges s)
        \<and> (1, 7, 300, 0, 1, 1) \<in> set (db_bb_labels s)
        \<and> (1, 600, 7, ''weak'') \<in> set (db_frontier_targets s)
        \<and> (1, - 1, 600, SuperRootOrphan) \<in> set (db_graph_B_edges s))"
proof -
  obtain s where st: "frontier_stages example_master example_store = Inr s"
    and L: "db_bb_labels s = [(1, 7, 100, 1, 1, 0), (1, 7, 200, 1, 1, 0), (1, 7, 300, 0, 1, 1),
           (1, 7, 400, 1, 1, 0), (1, 7, 500, 0, 1, 1), (1, 7, 600, 0, 1, 1)]"
    and E: "db_graph_B_edges s = [(1, - 1, 100, SuperRoot), (1, - 1, 200, SuperRoot), (1, - 1, 400, SuperRoot),
           (1, 200, 500, CfgFallthrough), (1, 300, 500, CfgFallthrough),
           (1, 100, 300, ObservedConditional), (1, 100, 200, ObservedConditional),
           (1, - 1, 600, SuperRootOrphan)]"
    and FT: "db_frontier_targets s = [(1, 500, 7, ''weak''), (1, 300, 7, ''strong''), (1, 600, 7, ''weak'')]"
    by (rule example_frontier_stages)
  have m: "(1, 300, 7, ''strong'') \<in> set (db_frontier_targets s)" unfolding FT by simp
  have no: "\<forall>src. (1, src, 300, SuperRootOrphan) \<notin> set (db_graph_B_edges s)" unfolding E by simp
  have e: "(1, 100, 300, ObservedConditional) \<in> set (db_graph_B_edges s)" unfolding E by simp
  have rt: "regular_type ObservedConditional" by (simp add: regular_type_def)
  from frontier_classification [OF example_fresh st m] no
  have R1: "\<forall>src t. (1, src, 300, t) \<in> set (db_graph_B_edges s) \<and> regular_type t \<longrightarrow>
                   (\<exists>fs ib isn. (1, fs, src, 1, ib, isn) \<in> set (db_bb_labels s))"
    and R2: "\<forall>src t fs ia ib. (1, src, 300, t) \<in> set (db_graph_B_edges s) \<longrightarrow>
                   (1, fs, src, ia, ib, 1) \<notin> set (db_bb_labels s)"
    by simp_all
  have a: "\<exists>fs ib isn. (1, fs, 100, 1, ib, isn) \<in> set (db_bb_labels s)" using R1 e rt by blast
  have n: "(1, 7, 100, 0, 1, 1) \<notin> set (db_bb_labels s)" using R2 e by blast
  have "filter (\<lambda>(b, src, dst, t). b = 1 \<and> dst = 300) (db_graph_B_edges s)
            = [(1, 100, 300, ObservedConditional)]" unfolding E by simp
  moreover have "(1, 500, 7, ''weak'') \<in> set (db_frontier_targets s)" unfolding FT by simp
  moreover have "(1, 300, 500, CfgFallthrough) \<in> set (db_graph_B_edges s)" unfolding E by simp
  moreover have "(1, 7, 300, 0, 1, 1) \<in> set (db_bb_labels s)" unfolding L by simp
  moreover have "(1, 600, 7, ''weak'') \<in> set (db_frontier_targets s)" unfolding FT by simp
  moreover have "(1, - 1, 600, SuperRootOrphan) \<in> set (db_graph_B_edges s)" unfolding E by simp
  ultimately show ?thesis using example_fresh st m a n by blast
qed

text \<open>
  C1 as stated fails on an orphan-entered target. In the example, block 600 is a
  frontier target; the only edge into it is the \<^verbatim>\<open>super_root_orphan\<close> edge from the
  super-root, so every incoming edge of a regular type has an A-covered source (there is
  none), and the source of its one incoming edge, the super-root, has no label and is the
  node \<^verbatim>\<open>(1, -1, -1, is_new = 0, in_A = 1)\<close>: no incoming edge has a source with
  \<^verbatim>\<open>is_new = 1\<close>. The right-hand side of the equivalence holds and the target is \<^verbatim>\<open>weak\<close>.
\<close>

theorem frontier_classification_counterexample:
  "map_sum id
     (\<lambda>s. (filter (\<lambda>(b, bb, func, ty). b = 1 \<and> bb = 600) (db_frontier_targets s),
           filter (\<lambda>(b, src, dst, t). b = 1 \<and> dst = 600) (db_graph_B_edges s),
           filter (\<lambda>(b, func, bb, in_A, in_B, is_new). b = 1 \<and> bb = - 1) (db_bb_labels s),
           filter (\<lambda>(b, bb, func, is_new, in_A). b = 1 \<and> bb = - 1) (db_graph_B_nodes s)))
     (frontier_stages example_master example_store)
   = Inr ([(1, 600, 7, ''weak'')], [(1, - 1, 600, SuperRootOrphan)], [], [(1, - 1, - 1, 0, 1)])"
  by code_simp


section \<open>Properties of the reachability\<close>

lemma bfs_fold_props:
  fixes D :: "rva set"
  assumes "finite D" and "set nbs \<subseteq> D"
  defines "F \<equiv> foldl (\<lambda>(v, q) neighbor.
                          if neighbor \<notin> set v then (set_add v neighbor, q @ [neighbor]) else (v, q))"
  shows "2 * card (D - set (fst (F (v, q) nbs))) + length (snd (F (v, q) nbs))
           \<le> 2 * card (D - set v) + length q"
  using assms(2)
proof (induction nbs arbitrary: v q)
  case Nil
  then show ?case by (simp add: F_def)
next
  case (Cons x nbs)
  have xD: "x \<in> D" and sub: "set nbs \<subseteq> D" using Cons.prems by simp_all
  show ?case
  proof (cases "x \<in> set v")
    case True
    then have "F (v, q) (x # nbs) = F (v, q) nbs" by (simp add: F_def)
    then show ?thesis using Cons.IH [OF sub, of v q] by simp
  next
    case False
    then have eq: "F (v, q) (x # nbs) = F (v @ [x], q @ [x]) nbs"
      by (simp add: F_def set_add_def)
    define W where "W = D - set v"
    have fin: "finite W" using assms(1) by (simp add: W_def)
    have mem: "x \<in> W" using xD False by (simp add: W_def)
    have W': "D - set (v @ [x]) = W - {x}" by (auto simp: W_def)
    have "card (W - {x}) < card W" by (rule card_Diff1_less [OF fin mem])
    then have "card (D - set (v @ [x])) < card (D - set v)"
      unfolding W' by (simp add: W_def)
    then have "2 * card (D - set (v @ [x])) + length (q @ [x]) \<le> 2 * card (D - set v) + length q"
      by simp
    then show ?thesis using Cons.IH [OF sub, of "v @ [x]" "q @ [x]"] unfolding eq by linarith
  qed
qed

lemma neighbors_subset: "set (neighbors adj current) \<subseteq> snd ` set adj"
  unfolding neighbors_def by auto

lemma bfs_step_parts:
  "bfs_step adj nb (current # rest, vis, rn) =
     (snd (foldl (\<lambda>(v, q) neighbor.
                    if neighbor \<notin> set v then (set_add v neighbor, q @ [neighbor]) else (v, q))
             (vis, rest) (neighbors adj current)),
      fst (foldl (\<lambda>(v, q) neighbor.
                    if neighbor \<notin> set v then (set_add v neighbor, q @ [neighbor]) else (v, q))
             (vis, rest) (neighbors adj current)),
      if current \<in> set nb then set_add rn current else rn)"
  unfolding bfs_step_def Let_def by (simp add: case_prod_beta)

lemma bfs_measure_decreases:
  assumes "fst st \<noteq> []"
  shows "bfs_measure adj (bfs_step adj nb st) < bfs_measure adj st"
proof -
  obtain queue vis rn where st: "st = (queue, vis, rn)" by (cases st)
  with assms obtain current rest where q: "queue = current # rest" by (cases queue) auto
  have "2 * card (snd ` set adj - set (fst (foldl (\<lambda>(v, q) neighbor.
                    if neighbor \<notin> set v then (set_add v neighbor, q @ [neighbor]) else (v, q))
             (vis, rest) (neighbors adj current))))
        + length (snd (foldl (\<lambda>(v, q) neighbor.
                    if neighbor \<notin> set v then (set_add v neighbor, q @ [neighbor]) else (v, q))
             (vis, rest) (neighbors adj current)))
        \<le> 2 * card (snd ` set adj - set vis) + length rest"
    by (rule bfs_fold_props) (simp_all add: neighbors_subset)
  then show ?thesis unfolding st q bfs_step_parts bfs_measure_def by simp
qed

lemma bfs_loop_total:
  assumes "P st" and step: "\<And>st. P st \<Longrightarrow> fst st \<noteq> [] \<Longrightarrow> P (bfs_step adj nb st)"
  shows "\<exists>r. bfs_loop adj nb st = Some r \<and> fst r = [] \<and> P r"
  using assms(1)
proof (induction "bfs_measure adj st" arbitrary: st rule: less_induct)
  case less
  show ?case
  proof (cases "fst st = []")
    case True
    then show ?thesis using less.prems by (simp add: bfs_loop.simps)
  next
    case False
    have m: "bfs_measure adj (bfs_step adj nb st) < bfs_measure adj st"
      by (rule bfs_measure_decreases [OF False])
    from less.hyps [OF m step [OF less.prems False]] obtain r where
      "bfs_loop adj nb (bfs_step adj nb st) = Some r" "fst r = []" "P r" by blast
    then show ?thesis using False by (simp add: bfs_loop.simps [of adj nb st])
  qed
qed

lemma bfs_from_frontier:
  "\<exists>q vis rn. bfs_loop adj nb ([f], [f], []) = Some (q, vis, rn) \<and>
              set rn \<subseteq> set nb \<and> (f \<in> set nb \<longrightarrow> f \<in> set rn)"
proof -
  let ?P = "\<lambda>st. set (snd (snd st)) \<subseteq> set nb \<and>
                 (f \<in> set nb \<longrightarrow> f \<in> set (snd (snd st)) \<or> (\<exists>rest. fst st = f # rest))"
  have "\<exists>r. bfs_loop adj nb ([f], [f], []) = Some r \<and> fst r = [] \<and> ?P r"
  proof (rule bfs_loop_total [where P = ?P])
    show "?P ([f], [f], [])" by simp
  next
    fix st :: "rva list \<times> rva list \<times> rva list"
    assume p: "?P st" and ne: "fst st \<noteq> []"
    obtain queue vis rn where st: "st = (queue, vis, rn)" by (cases st)
    with ne obtain current rest where q: "queue = current # rest" by (cases queue) auto
    have rn': "snd (snd (bfs_step adj nb st)) = (if current \<in> set nb then set_add rn current else rn)"
      unfolding st q bfs_step_parts by simp
    have 1: "set (snd (snd (bfs_step adj nb st))) \<subseteq> set nb"
      unfolding rn' using p st by (auto simp: set_set_add)
    have 2: "f \<in> set (snd (snd (bfs_step adj nb st)))" if "f \<in> set nb"
    proof -
      from p that have "f \<in> set rn \<or> current = f" unfolding st q by auto
      then show ?thesis unfolding rn' using that by (auto simp: set_set_add)
    qed
    show "?P (bfs_step adj nb st)" using 1 2 by blast
  qed
  then obtain r where r: "bfs_loop adj nb ([f], [f], []) = Some r" "fst r = []" "?P r" by blast
  obtain q vis rn where rr: "r = (q, vis, rn)" by (cases r)
  show ?thesis using r unfolding rr by auto
qed

lemma reachability_rows_result:
  "\<exists>rows. reachability_rows adj nb b fs = Some rows \<and>
          (\<forall>f. f \<in> set fs \<and> f \<in> set nb \<longrightarrow> (b, f, f) \<in> set rows) \<and>
          (\<forall>b' f n. (b', f, n) \<in> set rows \<longrightarrow> b' = b \<and> f \<in> set fs \<and> n \<in> set nb)"
proof (induction fs)
  case Nil
  then show ?case by simp
next
  case (Cons f fs)
  from bfs_from_frontier [of adj nb f] obtain q vis rn where
    b: "bfs_loop adj nb ([f], [f], []) = Some (q, vis, rn)" and
    rn: "set rn \<subseteq> set nb" "f \<in> set nb \<longrightarrow> f \<in> set rn" by blast
  from Cons.IH obtain rows where
    r: "reachability_rows adj nb b fs = Some rows" and
    r1: "\<forall>f. f \<in> set fs \<and> f \<in> set nb \<longrightarrow> (b, f, f) \<in> set rows" and
    r2: "\<forall>b' f n. (b', f, n) \<in> set rows \<longrightarrow> b' = b \<and> f \<in> set fs \<and> n \<in> set nb" by blast
  let ?rows = "map (\<lambda>new_bb. (b, f, new_bb)) rn @ rows"
  have "reachability_rows adj nb b (f # fs) = Some ?rows" using b r by simp
  moreover have "\<forall>g. g \<in> set (f # fs) \<and> g \<in> set nb \<longrightarrow> (b, g, g) \<in> set ?rows"
    using r1 rn(2) by auto
  moreover have "\<forall>b' g n. (b', g, n) \<in> set ?rows \<longrightarrow> b' = b \<and> g \<in> set (f # fs) \<and> n \<in> set nb"
    using r2 rn(1) by auto
  ultimately show ?case by blast
qed

lemma reachability_binary_result:
  "\<exists>tbl'. reachability_binary s tbl b = Some tbl' \<and>
          set tbl \<subseteq> set tbl' \<and> (distinct tbl \<longrightarrow> distinct tbl') \<and>
          (\<forall>f. f \<in> set (frontier_targets_of (db_frontier_targets s) b) \<and>
               f \<in> set (new_blocks_of (db_bb_labels s) b) \<longrightarrow> (b, f, f) \<in> set tbl') \<and>
          (\<forall>b' f n. (b', f, n) \<in> set tbl' \<longrightarrow> (b', f, n) \<in> set tbl \<or>
               b' = b \<and> f \<in> set (frontier_targets_of (db_frontier_targets s) b) \<and>
               n \<in> set (new_blocks_of (db_bb_labels s) b))"
proof -
  let ?adj = "adjacency_of (db_graph_B_edges s) b"
  let ?nb = "new_blocks_of (db_bb_labels s) b"
  let ?fs = "frontier_targets_of (db_frontier_targets s) b"
  from reachability_rows_result [of ?adj ?nb b ?fs] obtain rows where
    r: "reachability_rows ?adj ?nb b ?fs = Some rows" and
    r1: "\<forall>f. f \<in> set ?fs \<and> f \<in> set ?nb \<longrightarrow> (b, f, f) \<in> set rows" and
    r2: "\<forall>b' f n. (b', f, n) \<in> set rows \<longrightarrow> b' = b \<and> f \<in> set ?fs \<and> n \<in> set ?nb" by blast
  have e: "reachability_binary s tbl b = Some (foldl (insert_or_ignore id) tbl rows)"
    using r by (simp add: reachability_binary_def)
  show ?thesis
    unfolding e using r1 r2
    by (auto simp: set_foldl_insert_or_ignore_id distinct_foldl_insert_or_ignore_id)
qed

lemma reachability_binaries_result:
  "\<exists>tbl'. reachability_binaries s tbl bs = Some tbl' \<and>
          set tbl \<subseteq> set tbl' \<and> (distinct tbl \<longrightarrow> distinct tbl') \<and>
          (\<forall>b f. b \<in> set bs \<and> f \<in> set (frontier_targets_of (db_frontier_targets s) b) \<and>
               f \<in> set (new_blocks_of (db_bb_labels s) b) \<longrightarrow> (b, f, f) \<in> set tbl') \<and>
          (\<forall>b f n. (b, f, n) \<in> set tbl' \<longrightarrow> (b, f, n) \<in> set tbl \<or>
               b \<in> set bs \<and> f \<in> set (frontier_targets_of (db_frontier_targets s) b) \<and>
               n \<in> set (new_blocks_of (db_bb_labels s) b))"
proof (induction bs arbitrary: tbl)
  case Nil
  then show ?case by simp
next
  case (Cons b bs)
  from reachability_binary_result [of s tbl b] obtain t1 where
    e1: "reachability_binary s tbl b = Some t1" and m1: "set tbl \<subseteq> set t1"
    and d1: "distinct tbl \<longrightarrow> distinct t1"
    and a1: "\<forall>f. f \<in> set (frontier_targets_of (db_frontier_targets s) b) \<and>
               f \<in> set (new_blocks_of (db_bb_labels s) b) \<longrightarrow> (b, f, f) \<in> set t1"
    and b1: "\<forall>b' f n. (b', f, n) \<in> set t1 \<longrightarrow> (b', f, n) \<in> set tbl \<or>
               b' = b \<and> f \<in> set (frontier_targets_of (db_frontier_targets s) b) \<and>
               n \<in> set (new_blocks_of (db_bb_labels s) b)" by blast
  from Cons.IH [of t1] obtain t2 where
    e2: "reachability_binaries s t1 bs = Some t2" and m2: "set t1 \<subseteq> set t2"
    and d2: "distinct t1 \<longrightarrow> distinct t2"
    and a2: "\<forall>b f. b \<in> set bs \<and> f \<in> set (frontier_targets_of (db_frontier_targets s) b) \<and>
               f \<in> set (new_blocks_of (db_bb_labels s) b) \<longrightarrow> (b, f, f) \<in> set t2"
    and b2: "\<forall>b f n. (b, f, n) \<in> set t2 \<longrightarrow> (b, f, n) \<in> set t1 \<or>
               b \<in> set bs \<and> f \<in> set (frontier_targets_of (db_frontier_targets s) b) \<and>
               n \<in> set (new_blocks_of (db_bb_labels s) b)" by blast
  have "reachability_binaries s tbl (b # bs) = Some t2" using e1 e2 by simp
  moreover have "set tbl \<subseteq> set t2" using m1 m2 by blast
  moreover have "distinct tbl \<longrightarrow> distinct t2" using d1 d2 by blast
  moreover have "\<forall>b' f. b' \<in> set (b # bs) \<and> f \<in> set (frontier_targets_of (db_frontier_targets s) b') \<and>
               f \<in> set (new_blocks_of (db_bb_labels s) b') \<longrightarrow> (b', f, f) \<in> set t2"
    using a1 a2 m2 by auto
  moreover have "\<forall>b' f n. (b', f, n) \<in> set t2 \<longrightarrow> (b', f, n) \<in> set tbl \<or>
               b' \<in> set (b # bs) \<and> f \<in> set (frontier_targets_of (db_frontier_targets s) b') \<and>
               n \<in> set (new_blocks_of (db_bb_labels s) b')"
    using b1 b2 by (metis list.set_intros(1) list.set_intros(2))
  ultimately show ?case by blast
qed

lemma compute_reachability_result:
  assumes "db_frontier_reachability s = []"
  shows "\<exists>R. compute_reachability s = Some (s\<lparr> db_frontier_reachability := R \<rparr>) \<and> distinct R \<and>
          (\<forall>b f. b \<in> set (graph_binaries s) \<and>
               f \<in> set (frontier_targets_of (db_frontier_targets s) b) \<and>
               f \<in> set (new_blocks_of (db_bb_labels s) b) \<longrightarrow> (b, f, f) \<in> set R) \<and>
          (\<forall>b f n. (b, f, n) \<in> set R \<longrightarrow>
               b \<in> set (graph_binaries s) \<and>
               f \<in> set (frontier_targets_of (db_frontier_targets s) b) \<and>
               n \<in> set (new_blocks_of (db_bb_labels s) b))"
proof -
  from reachability_binaries_result [of s "[]" "graph_binaries s"] obtain R where
    "reachability_binaries s [] (graph_binaries s) = Some R" "distinct R"
    "\<forall>b f. b \<in> set (graph_binaries s) \<and> f \<in> set (frontier_targets_of (db_frontier_targets s) b) \<and>
               f \<in> set (new_blocks_of (db_bb_labels s) b) \<longrightarrow> (b, f, f) \<in> set R"
    "\<forall>b f n. (b, f, n) \<in> set R \<longrightarrow> (b, f, n) \<in> set [] \<or>
               b \<in> set (graph_binaries s) \<and> f \<in> set (frontier_targets_of (db_frontier_targets s) b) \<and>
               n \<in> set (new_blocks_of (db_bb_labels s) b)"
    by auto
  then show ?thesis unfolding compute_reachability_def assms by auto
qed


section \<open>Properties of the attribution\<close>

lemma insert_or_replace_fresh:
  assumes "distinct (map key rows)" and "key ` set rows \<inter> key ` set tbl = {}"
  shows "foldl (insert_or_replace key) tbl rows = tbl @ rows"
  using assms
proof (induction rows arbitrary: tbl)
  case Nil
  then show ?case by simp
next
  case (Cons r rows)
  have nk: "key r \<notin> key ` set tbl" using Cons.prems(2) by auto
  then have "\<And>x. x \<in> set tbl \<Longrightarrow> key x \<noteq> key r" by (metis imageI)
  then have "filter (\<lambda>x. key x \<noteq> key r) tbl = tbl" by (simp add: filter_id_conv)
  then have 1: "insert_or_replace key tbl r = tbl @ [r]" by (simp add: insert_or_replace_def)
  have d: "distinct (map key rows)" and nr: "key r \<notin> key ` set rows"
    using Cons.prems(1) by simp_all
  have "key ` set rows \<inter> key ` set (tbl @ [r]) = {}" using Cons.prems(2) nr by auto
  from Cons.IH [OF d this] show ?case using 1 by simp
qed

lemma map_of_append_frontier_map:
  "map_of (map (\<lambda>(k, fs). if k = n then (k, fs @ [f]) else (k, fs)) d) k =
     (if k = n then map_option (\<lambda>fs. fs @ [f]) (map_of d k) else map_of d k)"
  by (induction d) auto

lemma append_frontier_keys:
  "map fst (append_frontier d (f, n)) = (if n \<in> fst ` set d then map fst d else map fst d @ [n])"
  unfolding append_frontier_def by (auto simp: case_prod_beta)

lemma append_frontier_lookup:
  "(case map_of (append_frontier d (f, n)) k of None \<Rightarrow> [] | Some fs \<Rightarrow> fs) =
     (case map_of d k of None \<Rightarrow> [] | Some fs \<Rightarrow> fs) @ (if k = n then [f] else [])"
proof (cases "n \<in> fst ` set d")
  case True
  then obtain fs where "map_of d n = Some fs"
    by (metis domD dom_map_of_conv_image_fst)
  then show ?thesis using True
    unfolding append_frontier_def prod.case
    by (simp add: map_of_append_frontier_map split: option.splits)
next
  case False
  then have n: "map_of d n = None" by (simp add: map_of_eq_None_iff)
  have e: "append_frontier d (f, n) = d @ [(n, [f])]"
    using False by (simp add: append_frontier_def)
  show ?thesis unfolding e using n
    by (auto simp: map_add_def split: option.splits)
qed

lemma foldl_append_frontier:
  assumes "distinct (map fst d)"
  shows "distinct (map fst (foldl append_frontier d rows))"
    and "fst ` set (foldl append_frontier d rows) = fst ` set d \<union> snd ` set rows"
    and "(case map_of (foldl append_frontier d rows) k of None \<Rightarrow> [] | Some fs \<Rightarrow> fs) =
         (case map_of d k of None \<Rightarrow> [] | Some fs \<Rightarrow> fs) @ map fst (filter (\<lambda>r. snd r = k) rows)"
  using assms
proof (induction rows arbitrary: d)
  case Nil
  { case 1 then show ?case by simp }
  { case 2 then show ?case by simp }
  { case 3 then show ?case by simp }
next
  case (Cons r rows)
  obtain f n where r: "r = (f, n)" by (cases r)
  { case 1
    have d': "distinct (map fst (append_frontier d (f, n)))"
      using 1 unfolding append_frontier_keys by auto
    show ?case using Cons.IH(1) [OF d'] by (simp add: r) }
  { case 2
    have d': "distinct (map fst (append_frontier d (f, n)))"
      using 2 unfolding append_frontier_keys by auto
    have "fst ` set (append_frontier d (f, n)) = insert n (fst ` set d)"
      using append_frontier_keys [of d f n]
      by (metis (no_types, lifting) insert_absorb list.set_map list.simps(15) rotate1.simps(2) set_rotate1)
    then show ?case using Cons.IH(2) [OF d'] by (auto simp: r) }
  { case 3
    have d': "distinct (map fst (append_frontier d (f, n)))"
      using 3 unfolding append_frontier_keys by auto
    show ?case using Cons.IH(3) [OF d'] by (simp add: r append_frontier_lookup) }
qed

lemma new_block_to_frontiers_mem:
  "distinct (map fst (new_block_to_frontiers rows))"
  "(n, fs) \<in> set (new_block_to_frontiers rows) \<longleftrightarrow>
     n \<in> snd ` set rows \<and> fs = map fst (filter (\<lambda>r. snd r = n) rows)"
proof -
  let ?d = "new_block_to_frontiers rows"
  have e: "distinct (map fst ([] :: (rva \<times> rva list) list))" by simp
  show d: "distinct (map fst ?d)"
    unfolding new_block_to_frontiers_def by (rule foldl_append_frontier(1) [OF e])
  have k: "fst ` set ?d = snd ` set rows"
    unfolding new_block_to_frontiers_def using foldl_append_frontier(2) [OF e, of rows] by simp
  have l: "(case map_of ?d n of None \<Rightarrow> [] | Some fs \<Rightarrow> fs) = map fst (filter (\<lambda>r. snd r = n) rows)"
    unfolding new_block_to_frontiers_def using foldl_append_frontier(3) [OF e, of rows n] by simp
  show "(n, fs) \<in> set ?d \<longleftrightarrow> n \<in> snd ` set rows \<and> fs = map fst (filter (\<lambda>r. snd r = n) rows)"
  proof
    assume m: "(n, fs) \<in> set ?d"
    then have "map_of ?d n = Some fs" using d by simp
    then have "fs = map fst (filter (\<lambda>r. snd r = n) rows)" using l by simp
    moreover have "n \<in> snd ` set rows" using m k by force
    ultimately show "n \<in> snd ` set rows \<and> fs = map fst (filter (\<lambda>r. snd r = n) rows)" by simp
  next
    assume a: "n \<in> snd ` set rows \<and> fs = map fst (filter (\<lambda>r. snd r = n) rows)"
    then have "n \<in> fst ` set ?d" using k by simp
    then obtain fs' where m: "(n, fs') \<in> set ?d" by auto
    then have "map_of ?d n = Some fs'" using d by simp
    then have "fs' = fs" using l a by simp
    then show "(n, fs) \<in> set ?d" using m by simp
  qed
qed

lemma attribute_blocks_rows:
  assumes "attribute_blocks nb items (fam, ba) = Inr (fam', ba')"
  shows "ba' = ba @ map (\<lambda>(n, fs). (n, if length fs = 1 then Some (hd fs) else None,
                                        if length fs = 1 then 0 else 1)) items"
  using assms
proof (induction items arbitrary: fam ba)
  case Nil
  then show ?case by simp
next
  case (Cons it items)
  obtain n fs where it: "it = (n, fs)" by (cases it)
  from Cons.prems obtain func where nb: "nb n = Some func"
    unfolding it by (auto split: option.splits)
  show ?case
  proof (cases "length fs = 1")
    case True
    from Cons.prems have "attribute_blocks nb items
              (fam_update fam (hd fs)
                 (\<lambda>(uniq, shared, funcs). (set_add uniq n, shared, set_add funcs func)),
               ba @ [(n, Some (hd fs), 0)]) = Inr (fam', ba')"
      unfolding it using nb True by simp
    from Cons.IH [OF this] show ?thesis using True by (simp add: it)
  next
    case False
    from Cons.prems have "attribute_blocks nb items
              (foldl (\<lambda>m frontier.
                        fam_update m frontier
                          (\<lambda>(uniq, shared, funcs). (uniq, set_add shared n, set_add funcs func)))
                 fam fs,
               ba @ [(n, None, 1)]) = Inr (fam', ba')"
      unfolding it using nb False by simp
    from Cons.IH [OF this] show ?thesis using False by (simp add: it)
  qed
qed


lemma block_attribution_rows_binary:
  "r \<in> set (block_attribution_rows R b) \<Longrightarrow> fst r = b"
  unfolding block_attribution_rows_def by auto

lemma block_attribution_rows_keys:
  "distinct (map attributed_key (block_attribution_rows R b))"
proof -
  let ?d = "new_block_to_frontiers
          (map (\<lambda>(b, frontier_bb, new_bb). (frontier_bb, new_bb))
             (filter (\<lambda>(b', frontier_bb, new_bb). b' = b) R))"
  have "map attributed_key (block_attribution_rows R b) = map (\<lambda>n. (b, n)) (map fst ?d)"
    unfolding block_attribution_rows_def by (simp add: attributed_key_def case_prod_beta comp_def)
  moreover have "distinct (map (\<lambda>n. (b, n)) (map fst ?d))"
    using new_block_to_frontiers_mem(1) [of "map (\<lambda>(b, frontier_bb, new_bb). (frontier_bb, new_bb))
             (filter (\<lambda>(b', frontier_bb, new_bb). b' = b) R)"]
    by (simp add: distinct_map inj_on_def)
  ultimately show ?thesis by simp
qed

lemma frontiers_of_rows:
  "map fst (filter (\<lambda>r. snd r = n)
      (map (\<lambda>(b, frontier_bb, new_bb). (frontier_bb, new_bb))
         (filter (\<lambda>(b', frontier_bb, new_bb). b' = b) R)))
   = map (\<lambda>(b', f, n'). f) (filter (\<lambda>(b', f, n'). b' = b \<and> n' = n) R)"
  by (induction R) auto

lemma frontiers_list_props:
  assumes "distinct R"
  shows "distinct (map (\<lambda>(b', f, n'). f) (filter (\<lambda>(b', f, n'). b' = b \<and> n' = n) R))"
    and "set (map (\<lambda>(b', f, n'). f) (filter (\<lambda>(b', f, n'). b' = b \<and> n' = n) R))
           = {f. (b, f, n) \<in> set R}"
proof -
  have "inj_on (\<lambda>(b', f, n'). f) (set (filter (\<lambda>(b', f, n'). b' = b \<and> n' = n) R))"
    by (auto simp: inj_on_def)
  then show "distinct (map (\<lambda>(b', f, n'). f) (filter (\<lambda>(b', f, n'). b' = b \<and> n' = n) R))"
    using assms by (simp add: distinct_map)
  show "set (map (\<lambda>(b', f, n'). f) (filter (\<lambda>(b', f, n'). b' = b \<and> n' = n) R))
           = {f. (b, f, n) \<in> set R}"
    by force
qed

lemma block_attribution_rows_mem:
  assumes "distinct R"
  shows "(b', n, fr, sh) \<in> set (block_attribution_rows R b) \<longleftrightarrow>
           b' = b \<and> ((\<exists>f. {g. (b, g, n) \<in> set R} = {f} \<and> fr = Some f \<and> sh = 0) \<or>
                     (2 \<le> card {g. (b, g, n) \<in> set R} \<and> fr = None \<and> sh = 1))"
proof -
  define rows where "rows = map (\<lambda>(b, frontier_bb, new_bb). (frontier_bb, new_bb))
             (filter (\<lambda>(b', frontier_bb, new_bb). b' = b) R)"
  define fs where "fs = map (\<lambda>(b', f, n'). f) (filter (\<lambda>(b', f, n'). b' = b \<and> n' = n) R)"
  define F where "F = {g. (b, g, n) \<in> set R}"
  have fs1: "distinct fs" and fs2: "set fs = F"
    unfolding fs_def F_def by (rule frontiers_list_props [OF assms])+
  have len: "length fs = card F" using fs1 fs2 by (metis distinct_card)
  have key: "n \<in> snd ` set rows \<longleftrightarrow> F \<noteq> {}"
    unfolding rows_def F_def by force
  have mem: "(n, xs) \<in> set (new_block_to_frontiers rows) \<longleftrightarrow> F \<noteq> {} \<and> xs = fs" for xs
    unfolding new_block_to_frontiers_mem(2) key
    unfolding rows_def frontiers_of_rows fs_def by simp
  have "(b', n, fr, sh) \<in> set (block_attribution_rows R b) \<longleftrightarrow>
          b' = b \<and> (\<exists>xs. (n, xs) \<in> set (new_block_to_frontiers rows) \<and>
             fr = (if length xs = 1 then Some (hd xs) else None) \<and>
             sh = (if length xs = 1 then 0 else 1))"
    unfolding block_attribution_rows_def rows_def [symmetric] by force
  also have "\<dots> \<longleftrightarrow> b' = b \<and> F \<noteq> {} \<and>
             fr = (if length fs = 1 then Some (hd fs) else None) \<and>
             sh = (if length fs = 1 then 0 else 1)"
    unfolding mem by blast
  also have "\<dots> \<longleftrightarrow> b' = b \<and> ((\<exists>f. F = {f} \<and> fr = Some f \<and> sh = 0) \<or>
                     (2 \<le> card F \<and> fr = None \<and> sh = 1))"
  proof (cases "length fs = 1")
    case True
    then obtain x where x: "fs = [x]" by (cases fs) auto
    then have F: "F = {x}" using fs2 by simp
    show ?thesis unfolding F using x by auto
  next
    case False
    have fin: "finite F" using fs2 by (metis List.finite_set)
    have c: "card F \<noteq> 1" using False len by simp
    have no: "\<not> (\<exists>f. F = {f})" using c by auto
    have "F \<noteq> {} \<longleftrightarrow> 2 \<le> card F"
    proof
      assume "F \<noteq> {}"
      then have "card F \<noteq> 0" using fin by simp
      then show "2 \<le> card F" using c by linarith
    next
      assume "2 \<le> card F"
      then show "F \<noteq> {}" by auto
    qed
    then show ?thesis using False no by auto
  qed
  finally show ?thesis unfolding F_def .
qed

lemma attribution_binary_rows:
  assumes "attribution_binary s (fa, ba) b = Inr (fa', ba')" and "b \<notin> fst ` set ba"
  shows "ba' = ba @ block_attribution_rows (db_frontier_reachability s) b"
proof -
  let ?d = "new_block_to_frontiers
                (map (\<lambda>(b, frontier_bb, new_bb). (frontier_bb, new_bb))
                   (filter (\<lambda>(b', frontier_bb, new_bb). b' = b) (db_frontier_reachability s)))"
  from assms(1) obtain fam block_attribution where
    a: "attribute_blocks (new_blocks_dict (db_bb_labels s) b) ?d ([], []) = Inr (fam, block_attribution)"
    and b: "ba' = foldl (insert_or_replace attributed_key) ba
                 (map (\<lambda>(bb, frontier, is_shared). (b, bb, frontier, is_shared)) block_attribution)"
    unfolding attribution_binary_def by (auto split: sum.splits)
  have "block_attribution = map (\<lambda>(n, fs). (n, if length fs = 1 then Some (hd fs) else None,
                                        if length fs = 1 then 0 else 1)) ?d"
    using attribute_blocks_rows [OF a] by simp
  then have rows: "map (\<lambda>(bb, frontier, is_shared). (b, bb, frontier, is_shared)) block_attribution
                   = block_attribution_rows (db_frontier_reachability s) b"
    unfolding block_attribution_rows_def by (simp add: case_prod_beta comp_def)
  have disj: "attributed_key ` set (block_attribution_rows (db_frontier_reachability s) b)
                \<inter> attributed_key ` set ba = {}"
  proof -
    have "False" if "x \<in> set (block_attribution_rows (db_frontier_reachability s) b)"
      "y \<in> set ba" "attributed_key x = attributed_key y" for x y
    proof -
      have "fst x = b" by (rule block_attribution_rows_binary [OF that(1)])
      moreover have "fst x = fst y" using that(3)
        by (cases x, cases y) (simp add: attributed_key_def)
      ultimately have "b \<in> fst ` set ba" using that(2) by force
      then show False using assms(2) by simp
    qed
    then show ?thesis by blast
  qed
  show ?thesis unfolding b rows
    by (rule insert_or_replace_fresh [OF block_attribution_rows_keys disj])
qed

lemma attribution_binaries_rows:
  assumes "attribution_binaries s (fa, ba) bs = Inr (fa', ba')" and "distinct bs"
    and "fst ` set ba \<inter> set bs = {}"
  shows "ba' = ba @ concat (map (block_attribution_rows (db_frontier_reachability s)) bs)"
  using assms
proof (induction bs arbitrary: fa ba)
  case Nil
  then show ?case by simp
next
  case (Cons b bs)
  from Cons.prems(1) obtain fa1 ba1 where
    1: "attribution_binary s (fa, ba) b = Inr (fa1, ba1)" and
    2: "attribution_binaries s (fa1, ba1) bs = Inr (fa', ba')"
    by (auto split: sum.splits)
  have nb: "b \<notin> fst ` set ba" using Cons.prems(3) by auto
  have ba1: "ba1 = ba @ block_attribution_rows (db_frontier_reachability s) b"
    by (rule attribution_binary_rows [OF 1 nb])
  have d: "distinct bs" and bn: "b \<notin> set bs" using Cons.prems(2) by simp_all
  have "fst ` set ba1 \<inter> set bs = {}"
  proof -
    have "False" if "x \<in> set ba1" "fst x \<in> set bs" for x
    proof -
      from that(1) have "x \<in> set ba \<or> x \<in> set (block_attribution_rows (db_frontier_reachability s) b)"
        unfolding ba1 by simp
      then show False
      proof
        assume "x \<in> set ba"
        then show False using that(2) Cons.prems(3) by auto
      next
        assume "x \<in> set (block_attribution_rows (db_frontier_reachability s) b)"
        then have "fst x = b" by (rule block_attribution_rows_binary)
        then show False using that(2) bn by simp
      qed
    qed
    then show ?thesis by blast
  qed
  from Cons.IH [OF 2 d this] show ?case unfolding ba1 by simp
qed

lemma concat_block_attribution_rows_keys:
  assumes "distinct bs"
  shows "distinct (map attributed_key (concat (map (block_attribution_rows R) bs)))"
  using assms
proof (induction bs)
  case Nil
  then show ?case by simp
next
  case (Cons b bs)
  have d: "distinct (map attributed_key (concat (map (block_attribution_rows R) bs)))"
    using Cons by simp
  have "False" if "x \<in> set (block_attribution_rows R b)"
      "y \<in> set (concat (map (block_attribution_rows R) bs))"
      "attributed_key x = attributed_key y" for x y
  proof -
    have "fst x = b" by (rule block_attribution_rows_binary [OF that(1)])
    moreover from that(2) obtain b' where "b' \<in> set bs" "y \<in> set (block_attribution_rows R b')"
      by auto
    then have "fst y \<in> set bs" using block_attribution_rows_binary by blast
    moreover have "fst x = fst y" using that(3)
      by (cases x, cases y) (simp add: attributed_key_def)
    ultimately show False using Cons.prems by simp
  qed
  then have "attributed_key ` set (block_attribution_rows R b) \<inter>
             attributed_key ` set (concat (map (block_attribution_rows R) bs)) = {}"
    by blast
  then show ?case using d block_attribution_rows_keys [of R b] by simp
qed

lemma compute_attribution_result:
  assumes "compute_attribution s = Inr s'" and "db_bb_attributed_to s = []"
  shows "\<exists>fa. s' = s\<lparr> db_frontier_attribution := fa,
                      db_bb_attributed_to :=
                        concat (map (block_attribution_rows (db_frontier_reachability s))
                                  (graph_binaries s)) \<rparr>"
proof -
  from assms(1) obtain fa ba where
    1: "attribution_binaries s (db_frontier_attribution s, []) (graph_binaries s) = Inr (fa, ba)"
    and 2: "s' = s\<lparr> db_frontier_attribution := fa, db_bb_attributed_to := ba \<rparr>"
    unfolding compute_attribution_def assms(2) by (auto split: sum.splits)
  have d: "distinct (graph_binaries s)" by (simp add: graph_binaries_def)
  have "ba = [] @ concat (map (block_attribution_rows (db_frontier_reachability s)) (graph_binaries s))"
    by (rule attribution_binaries_rows [OF 1 d]) simp
  then have "s' = s\<lparr> db_frontier_attribution := fa,
                      db_bb_attributed_to :=
                        concat (map (block_attribution_rows (db_frontier_reachability s))
                                  (graph_binaries s)) \<rparr>"
    using 2 by simp
  then show ?thesis by (rule exI)
qed


lemma analysis_stages_tables:
  assumes fr: "fresh_derived s0" and st: "analysis_stages m s0 = Some (Inr s)"
  shows "\<exists>s3 R fa. frontier_stages m s0 = Inr s3 \<and>
           s = s3\<lparr> db_frontier_reachability := R, db_frontier_attribution := fa,
                   db_bb_attributed_to :=
                     concat (map (block_attribution_rows R) (graph_binaries s3)) \<rparr> \<and>
           distinct R \<and>
           (\<forall>b f. b \<in> set (graph_binaries s3) \<and>
               f \<in> set (frontier_targets_of (db_frontier_targets s3) b) \<and>
               f \<in> set (new_blocks_of (db_bb_labels s3) b) \<longrightarrow> (b, f, f) \<in> set R) \<and>
           (\<forall>b f n. (b, f, n) \<in> set R \<longrightarrow>
               b \<in> set (graph_binaries s3) \<and>
               f \<in> set (frontier_targets_of (db_frontier_targets s3) b) \<and>
               n \<in> set (new_blocks_of (db_bb_labels s3) b))"
proof -
  from st obtain s3 where s3: "frontier_stages m s0 = Inr s3"
    unfolding analysis_stages_def by (cases "frontier_stages m s0") auto
  from st s3 obtain s4 where s4: "compute_reachability s3 = Some s4"
    and ca: "compute_attribution s4 = Inr s"
    unfolding analysis_stages_def by (auto split: option.splits)
  have e: "db_frontier_reachability s3 = []" "db_bb_attributed_to s3 = []"
    by (rule fs_later_tables [OF fr s3])+
  from compute_reachability_result [OF e(1)] s4 obtain R where
    s4': "s4 = s3\<lparr> db_frontier_reachability := R \<rparr>" and d: "distinct R"
    and r1: "\<forall>b f. b \<in> set (graph_binaries s3) \<and>
               f \<in> set (frontier_targets_of (db_frontier_targets s3) b) \<and>
               f \<in> set (new_blocks_of (db_bb_labels s3) b) \<longrightarrow> (b, f, f) \<in> set R"
    and r2: "\<forall>b f n. (b, f, n) \<in> set R \<longrightarrow>
               b \<in> set (graph_binaries s3) \<and>
               f \<in> set (frontier_targets_of (db_frontier_targets s3) b) \<and>
               n \<in> set (new_blocks_of (db_bb_labels s3) b)"
    by auto
  have e4: "db_bb_attributed_to s4 = []" unfolding s4' using e(2) by simp
  from compute_attribution_result [OF ca e4] obtain fa where
    "s = s4\<lparr> db_frontier_attribution := fa,
                      db_bb_attributed_to :=
                        concat (map (block_attribution_rows (db_frontier_reachability s4))
                                  (graph_binaries s4)) \<rparr>" ..
  then have "s = s3\<lparr> db_frontier_reachability := R, db_frontier_attribution := fa,
                   db_bb_attributed_to :=
                     concat (map (block_attribution_rows R) (graph_binaries s3)) \<rparr>"
    unfolding s4' by (simp add: graph_binaries_def)
  then show ?thesis using s3 d r1 r2 by blast
qed

lemma new_blocks_of_mem:
  "n \<in> set (new_blocks_of L b) \<longleftrightarrow> (\<exists>f ia ib. (b, f, n, ia, ib, 1) \<in> set L)"
  unfolding new_blocks_of_def by force

lemma frontier_targets_of_mem:
  "f \<in> set (frontier_targets_of FT b) \<longleftrightarrow> (\<exists>func ty. (b, f, func, ty) \<in> set FT)"
  unfolding frontier_targets_of_def by force

lemma graph_binaries_label:
  assumes fr: "fresh_derived s0" and st: "frontier_stages m s0 = Inr s"
    and l: "(b, f, n, ia, ib, isn) \<in> set (db_bb_labels s)"
  shows "b \<in> set (graph_binaries s)"
proof -
  have "(b, - 1, - 1, 0, 1) \<in> set (db_graph_B_nodes s)"
    unfolding fs_nodes [OF fr st] using l by (auto simp: super_root_node_rows_mem)
  then show ?thesis unfolding graph_binaries_def by force
qed

lemma frontier_target_new:
  assumes fr: "fresh_derived s0" and st: "frontier_stages m s0 = Inr s"
    and ft: "(b, f, func, ty) \<in> set (db_frontier_targets s)"
  shows "\<exists>fd ia ib. (b, fd, f, ia, ib, 1) \<in> set (db_bb_labels s)"
proof -
  from frontier_target_cases(3) [OF fr st ft]
  consider (edge) "\<exists>fd ia ib. (b, fd, f, ia, ib, 1) \<in> set (db_bb_labels s)"
    | (orphan) src where "(b, src, f, SuperRootOrphan) \<in> set (db_graph_B_edges s)"
    by blast
  then show ?thesis
  proof cases
    case edge
    then show ?thesis .
  next
    case orphan
    show ?thesis by (rule graph_orphan_edge(2) [OF fr st orphan])
  qed
qed

lemma filter_key_unique:
  assumes "distinct (map key xs)" and "x \<in> set xs"
  shows "filter (\<lambda>r. key r = key x) xs = [x]"
  using assms
proof (induction xs)
  case Nil
  then show ?case by simp
next
  case (Cons y ys)
  show ?case
  proof (cases "x = y")
    case True
    have "key y \<notin> key ` set ys" using Cons.prems(1) by simp
    then have "key r \<noteq> key y" if "r \<in> set ys" for r using that by (metis imageI)
    then have "filter (\<lambda>r. key r = key y) ys = []" by (simp add: filter_empty_conv)
    then show ?thesis using True by simp
  next
    case False
    then have x: "x \<in> set ys" using Cons.prems(2) by simp
    have "key y \<notin> key ` set ys" using Cons.prems(1) by simp
    then have "key y \<noteq> key x" using x by (metis imageI)
    moreover have "filter (\<lambda>r. key r = key x) ys = [x]" using Cons.IH x Cons.prems(1) by simp
    ultimately show ?thesis by simp
  qed
qed

lemma attributed_table_mem:
  assumes "distinct R" and "\<forall>b f n. (b, f, n) \<in> set R \<longrightarrow> b \<in> set bs"
  shows "(b, n, fr, sh) \<in> set (concat (map (block_attribution_rows R) bs)) \<longleftrightarrow>
           (\<exists>f. {g. (b, g, n) \<in> set R} = {f} \<and> fr = Some f \<and> sh = 0) \<or>
           (2 \<le> card {g. (b, g, n) \<in> set R} \<and> fr = None \<and> sh = 1)"
proof -
  define F where "F = {g. (b, g, n) \<in> set R}"
  have m: "(b, n, fr, sh) \<in> set (block_attribution_rows R b') \<longleftrightarrow>
           b = b' \<and> ((\<exists>f. F = {f} \<and> fr = Some f \<and> sh = 0) \<or> (2 \<le> card F \<and> fr = None \<and> sh = 1))"
    for b'
    unfolding F_def using block_attribution_rows_mem [OF assms(1), of b n fr sh b'] by blast
  have ne: "b \<in> set bs" if "F \<noteq> {}" using that assms(2) unfolding F_def by blast
  have "(b, n, fr, sh) \<in> set (concat (map (block_attribution_rows R) bs)) \<longleftrightarrow>
          (\<exists>b' \<in> set bs. (b, n, fr, sh) \<in> set (block_attribution_rows R b'))" by auto
  also have "\<dots> \<longleftrightarrow> b \<in> set bs \<and>
          ((\<exists>f. F = {f} \<and> fr = Some f \<and> sh = 0) \<or> (2 \<le> card F \<and> fr = None \<and> sh = 1))"
    unfolding m by blast
  also have "\<dots> \<longleftrightarrow>
          ((\<exists>f. F = {f} \<and> fr = Some f \<and> sh = 0) \<or> (2 \<le> card F \<and> fr = None \<and> sh = 1))"
  proof -
    have "F \<noteq> {}" if "(\<exists>f. F = {f} \<and> fr = Some f \<and> sh = 0) \<or> (2 \<le> card F \<and> fr = None \<and> sh = 1)"
      using that by auto
    then show ?thesis using ne by blast
  qed
  finally show ?thesis unfolding F_def .
qed

lemma attributed_table_rows:
  assumes "distinct R" and "\<forall>b f n. (b, f, n) \<in> set R \<longrightarrow> b \<in> set bs" and "distinct bs"
  defines "BA \<equiv> concat (map (block_attribution_rows R) bs)"
  shows "{g. (b, g, n) \<in> set R} = {f} \<Longrightarrow>
           filter (\<lambda>r. attributed_key r = (b, n)) BA = [(b, n, Some f, 0)]"
    and "2 \<le> card {g. (b, g, n) \<in> set R} \<Longrightarrow>
           filter (\<lambda>r. attributed_key r = (b, n)) BA = [(b, n, None, 1)]"
    and "{g. (b, g, n) \<in> set R} = {} \<Longrightarrow> filter (\<lambda>r. attributed_key r = (b, n)) BA = []"
proof -
  have d: "distinct (map attributed_key BA)"
    unfolding BA_def by (rule concat_block_attribution_rows_keys [OF assms(3)])
  have k: "attributed_key (b, n, fr, sh) = (b, n)" for fr :: "rva option" and sh :: int
    by (simp add: attributed_key_def)
  {
    assume F: "{g. (b, g, n) \<in> set R} = {f}"
    have "(b, n, Some f, 0) \<in> set BA"
      unfolding BA_def attributed_table_mem [OF assms(1,2)] using F by simp
    from filter_key_unique [OF d this]
    show "filter (\<lambda>r. attributed_key r = (b, n)) BA = [(b, n, Some f, 0)]" unfolding k .
  next
    assume F: "2 \<le> card {g. (b, g, n) \<in> set R}"
    have "(b, n, None, 1) \<in> set BA"
      unfolding BA_def attributed_table_mem [OF assms(1,2)] using F by simp
    from filter_key_unique [OF d this]
    show "filter (\<lambda>r. attributed_key r = (b, n)) BA = [(b, n, None, 1)]" unfolding k .
  next
    assume F: "{g. (b, g, n) \<in> set R} = {}"
    have "attributed_key r \<noteq> (b, n)" if "r \<in> set BA" for r
    proof
      assume a: "attributed_key r = (b, n)"
      obtain b' n' fr sh where r: "r = (b', n', fr, sh)" by (cases r)
      from a have "b' = b" "n' = n" unfolding r by (simp_all add: attributed_key_def)
      then have "(b, n, fr, sh) \<in> set BA" using that r by simp
      then show False unfolding BA_def attributed_table_mem [OF assms(1,2)] using F by simp
    qed
    then show "filter (\<lambda>r. attributed_key r = (b, n)) BA = []" by (simp add: filter_empty_conv)
  }
qed

lemma example_analysis_tables:
  "map_option (map_sum id (\<lambda>s. (db_frontier_targets s, db_frontier_reachability s,
                                 db_bb_attributed_to s)))
     (analysis_stages example_master example_store)
   = Some (Inr ([(1, 500, 7, ''weak''), (1, 300, 7, ''strong''), (1, 600, 7, ''weak'')],
                [(1, 500, 500), (1, 300, 300), (1, 300, 500), (1, 600, 600)],
                [(1, 500, None, 1), (1, 300, Some 300, 0), (1, 600, Some 600, 0)]))"
  by code_simp

lemma example_analysis_stages:
  obtains s where "analysis_stages example_master example_store = Some (Inr s)"
    "db_frontier_targets s = [(1, 500, 7, ''weak''), (1, 300, 7, ''strong''), (1, 600, 7, ''weak'')]"
    "db_frontier_reachability s = [(1, 500, 500), (1, 300, 300), (1, 300, 500), (1, 600, 600)]"
    "db_bb_attributed_to s = [(1, 500, None, 1), (1, 300, Some 300, 0), (1, 600, Some 600, 0)]"
proof (cases "analysis_stages example_master example_store")
  case None
  then show ?thesis using example_analysis_tables by simp
next
  case (Some r)
  show ?thesis
  proof (cases r)
    case (Inl e)
    then show ?thesis using Some example_analysis_tables by simp
  next
    case (Inr s)
    show ?thesis
      by (rule that [of s]) (use Some Inr example_analysis_tables in simp_all)
  qed
qed


text \<open>
  C10. After the whole analysis has run on a store whose derived tables were empty, every
  row \<open>(b, f, func, ty)\<close> of \<^verbatim>\<open>frontier_targets\<close> has the row \<open>(b, f, f)\<close> in
  \<^verbatim>\<open>frontier_reachability\<close>: the target is a new block and the search that starts at it
  visits it first. So \<^verbatim>\<open>bb_attributed_to\<close> holds exactly one row for the block \<open>f\<close>:
  \<open>(b, f, f, 0)\<close> when \<open>f\<close> is the only frontier that reaches \<open>f\<close>, and \<open>(b, f, NULL, 1)\<close>
  otherwise.
\<close>

theorem frontier_target_reaches_itself:
  assumes "fresh_derived s0" and "analysis_stages master s0 = Some (Inr s)"
    and "(b, f, func, ty) \<in> set (db_frontier_targets s)"
  shows "(b, f, f) \<in> set (db_frontier_reachability s)
       \<and> (\<exists>fn ia ib. (b, fn, f, ia, ib, 1) \<in> set (db_bb_labels s))
       \<and> filter (\<lambda>r. attributed_key r = (b, f)) (db_bb_attributed_to s) =
           [if {g. (b, g, f) \<in> set (db_frontier_reachability s)} = {f}
            then (b, f, Some f, 0) else (b, f, None, 1)]"
proof -
  from analysis_stages_tables [OF assms(1,2)] obtain s3 R fa where
    s3: "frontier_stages master s0 = Inr s3"
    and s: "s = s3\<lparr> db_frontier_reachability := R, db_frontier_attribution := fa,
                   db_bb_attributed_to :=
                     concat (map (block_attribution_rows R) (graph_binaries s3)) \<rparr>"
    and d: "distinct R"
    and r1: "\<forall>b f. b \<in> set (graph_binaries s3) \<and>
               f \<in> set (frontier_targets_of (db_frontier_targets s3) b) \<and>
               f \<in> set (new_blocks_of (db_bb_labels s3) b) \<longrightarrow> (b, f, f) \<in> set R"
    and r2: "\<forall>b f n. (b, f, n) \<in> set R \<longrightarrow>
               b \<in> set (graph_binaries s3) \<and>
               f \<in> set (frontier_targets_of (db_frontier_targets s3) b) \<and>
               n \<in> set (new_blocks_of (db_bb_labels s3) b)"
    by blast
  have R: "db_frontier_reachability s = R" and L: "db_bb_labels s = db_bb_labels s3"
    and BA: "db_bb_attributed_to s = concat (map (block_attribution_rows R) (graph_binaries s3))"
    and FT: "db_frontier_targets s = db_frontier_targets s3"
    unfolding s by simp_all
  have ft: "(b, f, func, ty) \<in> set (db_frontier_targets s3)" using assms(3) unfolding FT .
  from frontier_target_new [OF assms(1) s3 ft]
  obtain fd ia ib where l: "(b, fd, f, ia, ib, 1) \<in> set (db_bb_labels s3)" by blast
  have gb: "b \<in> set (graph_binaries s3)" by (rule graph_binaries_label [OF assms(1) s3 l])
  have "f \<in> set (frontier_targets_of (db_frontier_targets s3) b)"
    unfolding frontier_targets_of_mem using ft by blast
  moreover have "f \<in> set (new_blocks_of (db_bb_labels s3) b)"
    unfolding new_blocks_of_mem using l by blast
  ultimately have self: "(b, f, f) \<in> set R" using r1 gb by blast
  have r2': "\<forall>b f n. (b, f, n) \<in> set R \<longrightarrow> b \<in> set (graph_binaries s3)" using r2 by blast
  have dg: "distinct (graph_binaries s3)" by (simp add: graph_binaries_def)
  define F where "F = {g. (b, g, f) \<in> set R}"
  have fF: "f \<in> F" using self by (simp add: F_def)
  have fin: "finite F"
  proof (rule finite_subset)
    show "F \<subseteq> (\<lambda>(b, g, n). g) ` set R" unfolding F_def by force
    show "finite ((\<lambda>(b, g, n). g) ` set R)" by simp
  qed
  have rows: "filter (\<lambda>r. attributed_key r = (b, f))
                (concat (map (block_attribution_rows R) (graph_binaries s3))) =
           [if F = {f} then (b, f, Some f, 0) else (b, f, None, 1)]"
  proof (cases "F = {f}")
    case True
    then have "{g. (b, g, f) \<in> set R} = {f}" by (simp add: F_def)
    from attributed_table_rows(1) [OF d r2' dg this] show ?thesis using True by simp
  next
    case False
    then obtain g where g: "g \<in> F" "g \<noteq> f" using fF by blast
    have "{f, g} \<subseteq> F" using fF g by simp
    then have "card {f, g} \<le> card F" using fin by (rule card_mono [rotated])
    then have "2 \<le> card {g. (b, g, f) \<in> set R}" using g(2) by (simp add: F_def)
    from attributed_table_rows(2) [OF d r2' dg this] show ?thesis using False by simp
  qed
  show ?thesis unfolding R L BA using self l rows unfolding F_def by blast
qed

theorem frontier_target_reaches_itself_witness:
  "fresh_derived example_store
 \<and> (\<exists>s. analysis_stages example_master example_store = Some (Inr s)
        \<and> (1, 300, 7, ''strong'') \<in> set (db_frontier_targets s)
        \<and> (1, 300, 300) \<in> set (db_frontier_reachability s)
        \<and> {g. (1, g, 300) \<in> set (db_frontier_reachability s)} = {300}
        \<and> filter (\<lambda>r. attributed_key r = (1, 300)) (db_bb_attributed_to s)
            = [(1, 300, Some 300, 0)])"
proof -
  obtain s where st: "analysis_stages example_master example_store = Some (Inr s)"
    and FT: "db_frontier_targets s = [(1, 500, 7, ''weak''), (1, 300, 7, ''strong''), (1, 600, 7, ''weak'')]"
    and R: "db_frontier_reachability s = [(1, 500, 500), (1, 300, 300), (1, 300, 500), (1, 600, 600)]"
    by (rule example_analysis_stages)
  have m: "(1, 300, 7, ''strong'') \<in> set (db_frontier_targets s)" unfolding FT by simp
  have F: "{g. (1, g, 300) \<in> set (db_frontier_reachability s)} = {300}" unfolding R by auto
  from frontier_target_reaches_itself [OF example_fresh st m]
  have "(1, 300, 300) \<in> set (db_frontier_reachability s)"
    and "filter (\<lambda>r. attributed_key r = (1, 300)) (db_bb_attributed_to s) =
           [if {g. (1, g, 300) \<in> set (db_frontier_reachability s)} = {300}
            then (1, 300, Some 300, 0) else (1, 300, None, 1)]"
    by simp_all
  then show ?thesis using example_fresh st m F by simp
qed

text \<open>
  C2. After the whole analysis has run on a store whose derived tables were empty, let
  \<open>F\<close> be the set of the frontiers \<open>g\<close> with a row \<open>(b, g, n)\<close> in \<^verbatim>\<open>frontier_reachability\<close>;
  every such \<open>g\<close> is a frontier target and \<open>n\<close> is then a new block. If \<open>F\<close> has one
  member \<open>f\<close>, the rows of \<^verbatim>\<open>bb_attributed_to\<close> for the block \<open>n\<close> of the binary \<open>b\<close> are the
  one row \<open>(b, n, f, 0)\<close>; if \<open>F\<close> has two members or more, they are the one row
  \<open>(b, n, NULL, 1)\<close>; if \<open>F\<close> is empty, there is no row. This holds for every block \<open>n\<close>,
  so for every new block.
\<close>

theorem attribution_by_frontier_count:
  assumes "fresh_derived s0" and "analysis_stages master s0 = Some (Inr s)"
  shows "(card {g. (b, g, n) \<in> set (db_frontier_reachability s)} = 1 \<longrightarrow>
            (\<exists>f. {g. (b, g, n) \<in> set (db_frontier_reachability s)} = {f} \<and>
                 filter (\<lambda>r. attributed_key r = (b, n)) (db_bb_attributed_to s)
                   = [(b, n, Some f, 0)]))
       \<and> (2 \<le> card {g. (b, g, n) \<in> set (db_frontier_reachability s)} \<longrightarrow>
            filter (\<lambda>r. attributed_key r = (b, n)) (db_bb_attributed_to s) = [(b, n, None, 1)])
       \<and> (card {g. (b, g, n) \<in> set (db_frontier_reachability s)} = 0 \<longrightarrow>
            filter (\<lambda>r. attributed_key r = (b, n)) (db_bb_attributed_to s) = [])
       \<and> (\<forall>g. (b, g, n) \<in> set (db_frontier_reachability s) \<longrightarrow>
            (\<exists>func ty. (b, g, func, ty) \<in> set (db_frontier_targets s)) \<and>
            (\<exists>fn ia ib. (b, fn, n, ia, ib, 1) \<in> set (db_bb_labels s)))"
proof -
  from analysis_stages_tables [OF assms(1,2)] obtain s3 R fa where
    s3: "frontier_stages master s0 = Inr s3"
    and s: "s = s3\<lparr> db_frontier_reachability := R, db_frontier_attribution := fa,
                   db_bb_attributed_to :=
                     concat (map (block_attribution_rows R) (graph_binaries s3)) \<rparr>"
    and d: "distinct R"
    and r2: "\<forall>b f n. (b, f, n) \<in> set R \<longrightarrow>
               b \<in> set (graph_binaries s3) \<and>
               f \<in> set (frontier_targets_of (db_frontier_targets s3) b) \<and>
               n \<in> set (new_blocks_of (db_bb_labels s3) b)"
    by blast
  have R: "db_frontier_reachability s = R" and L: "db_bb_labels s = db_bb_labels s3"
    and BA: "db_bb_attributed_to s = concat (map (block_attribution_rows R) (graph_binaries s3))"
    and FT: "db_frontier_targets s = db_frontier_targets s3"
    unfolding s by simp_all
  have r2': "\<forall>b f n. (b, f, n) \<in> set R \<longrightarrow> b \<in> set (graph_binaries s3)" using r2 by blast
  have dg: "distinct (graph_binaries s3)" by (simp add: graph_binaries_def)
  define F where "F = {g. (b, g, n) \<in> set R}"
  define rows where "rows = filter (\<lambda>r. attributed_key r = (b, n))
                (concat (map (block_attribution_rows R) (graph_binaries s3)))"
  have fin: "finite F"
  proof (rule finite_subset)
    show "F \<subseteq> (\<lambda>(b, g, n). g) ` set R" unfolding F_def by force
    show "finite ((\<lambda>(b, g, n). g) ` set R)" by simp
  qed
  have one: "\<exists>f. F = {f} \<and> rows = [(b, n, Some f, 0)]" if "card F = 1"
  proof -
    from that obtain f where f: "F = {f}" by (auto simp: card_1_singleton_iff)
    then have "{g. (b, g, n) \<in> set R} = {f}" by (simp add: F_def)
    from attributed_table_rows(1) [OF d r2' dg this] show ?thesis using f by (simp add: rows_def)
  qed
  have two: "rows = [(b, n, None, 1)]" if "2 \<le> card F"
  proof -
    from that have "2 \<le> card {g. (b, g, n) \<in> set R}" by (simp add: F_def)
    from attributed_table_rows(2) [OF d r2' dg this] show ?thesis by (simp add: rows_def)
  qed
  have none: "rows = []" if "card F = 0"
  proof -
    from that fin have "{g. (b, g, n) \<in> set R} = {}" by (simp add: F_def)
    from attributed_table_rows(3) [OF d r2' dg this] show ?thesis by (simp add: rows_def)
  qed
  have mem: "(\<exists>func ty. (b, g, func, ty) \<in> set (db_frontier_targets s3)) \<and>
             (\<exists>fn ia ib. (b, fn, n, ia, ib, 1) \<in> set (db_bb_labels s3))"
    if "(b, g, n) \<in> set R" for g
    using r2 that unfolding frontier_targets_of_mem new_blocks_of_mem by blast
  show ?thesis unfolding R L BA FT
    using one two none mem unfolding F_def rows_def by blast
qed

theorem attribution_by_frontier_count_witness:
  "fresh_derived example_store
 \<and> (\<exists>s. analysis_stages example_master example_store = Some (Inr s)
        \<and> {g. (1, g, 300) \<in> set (db_frontier_reachability s)} = {300}
        \<and> filter (\<lambda>r. attributed_key r = (1, 300)) (db_bb_attributed_to s)
            = [(1, 300, Some 300, 0)]
        \<and> {g. (1, g, 500) \<in> set (db_frontier_reachability s)} = {300, 500}
        \<and> filter (\<lambda>r. attributed_key r = (1, 500)) (db_bb_attributed_to s)
            = [(1, 500, None, 1)]
        \<and> {g. (1, g, 100) \<in> set (db_frontier_reachability s)} = {}
        \<and> filter (\<lambda>r. attributed_key r = (1, 100)) (db_bb_attributed_to s) = [])"
proof -
  obtain s where st: "analysis_stages example_master example_store = Some (Inr s)"
    and R: "db_frontier_reachability s = [(1, 500, 500), (1, 300, 300), (1, 300, 500), (1, 600, 600)]"
    by (rule example_analysis_stages)
  have F3: "{g. (1, g, 300) \<in> set (db_frontier_reachability s)} = {300}" unfolding R by auto
  have F5: "{g. (1, g, 500) \<in> set (db_frontier_reachability s)} = {300, 500}" unfolding R by auto
  have F1: "{g. (1, g, 100) \<in> set (db_frontier_reachability s)} = {}" unfolding R by auto
  have c3: "card {g. (1, g, 300) \<in> set (db_frontier_reachability s)} = 1" unfolding F3 by simp
  have c5: "2 \<le> card {g. (1, g, 500) \<in> set (db_frontier_reachability s)}" unfolding F5 by simp
  have c1: "card {g. (1, g, 100) \<in> set (db_frontier_reachability s)} = 0" unfolding F1 by simp
  from attribution_by_frontier_count [OF example_fresh st, of 1 300] c3
  have "\<exists>f. {g. (1, g, 300) \<in> set (db_frontier_reachability s)} = {f} \<and>
             filter (\<lambda>r. attributed_key r = (1, 300)) (db_bb_attributed_to s)
               = [(1, 300, Some f, 0)]" by blast
  then have a3: "filter (\<lambda>r. attributed_key r = (1, 300)) (db_bb_attributed_to s)
               = [(1, 300, Some 300, 0)]" unfolding F3 by auto
  from attribution_by_frontier_count [OF example_fresh st, of 1 500] c5
  have a5: "filter (\<lambda>r. attributed_key r = (1, 500)) (db_bb_attributed_to s) = [(1, 500, None, 1)]"
    by blast
  from attribution_by_frontier_count [OF example_fresh st, of 1 100] c1
  have a1: "filter (\<lambda>r. attributed_key r = (1, 100)) (db_bb_attributed_to s) = []"
    by blast
  show ?thesis using example_fresh st F3 a3 F5 a5 F1 a1 by blast
qed


section \<open>Properties of a second run\<close>

lemma set_foldl_joined_insert_mono:
  "set tbl \<subseteq> set (foldl joined_insert_or_ignore tbl rows)"
proof (induction rows arbitrary: tbl)
  case Nil
  then show ?case by simp
next
  case (Cons r rows)
  have "set tbl \<subseteq> set (joined_insert_or_ignore tbl r)"
    unfolding joined_insert_or_ignore_def by (cases r) auto
  then show ?case using Cons.IH [of "joined_insert_or_ignore tbl r"] by auto
qed

lemma join_coverage_to_blocks_A:
  "\<exists>c J. join_coverage_to_blocks m Sample_A s =
            s\<lparr> db_rva_to_bb_cache := c, db_cov_A_blocks_joined := J \<rparr> \<and>
          set (db_cov_A_blocks_joined s) \<subseteq> set J"
proof -
  obtain p c jd where f: "foldl (join_entry (master_basic_blocks m) (db_module_binary_map s))
              ([], db_rva_to_bb_cache s, [])
              (coverage_entries (db_cov_A_blocks s) (db_cov_A_edges s)) = (p, c, jd)"
    by (cases "foldl (join_entry (master_basic_blocks m) (db_module_binary_map s))
              ([], db_rva_to_bb_cache s, [])
              (coverage_entries (db_cov_A_blocks s) (db_cov_A_edges s))")
  have "join_coverage_to_blocks m Sample_A s =
          s\<lparr> db_rva_to_bb_cache := c,
              db_cov_A_blocks_joined := foldl joined_insert_or_ignore (db_cov_A_blocks_joined s) jd \<rparr>"
    unfolding join_coverage_to_blocks_def Let_def using f by simp
  then show ?thesis using set_foldl_joined_insert_mono by blast
qed

lemma join_coverage_to_blocks_B:
  "\<exists>c J. join_coverage_to_blocks m Sample_B s =
            s\<lparr> db_rva_to_bb_cache := c, db_cov_B_blocks_joined := J \<rparr> \<and>
          set (db_cov_B_blocks_joined s) \<subseteq> set J"
proof -
  obtain p c jd where f: "foldl (join_entry (master_basic_blocks m) (db_module_binary_map s))
              ([], db_rva_to_bb_cache s, [])
              (coverage_entries (db_cov_B_blocks s) (db_cov_B_edges s)) = (p, c, jd)"
    by (cases "foldl (join_entry (master_basic_blocks m) (db_module_binary_map s))
              ([], db_rva_to_bb_cache s, [])
              (coverage_entries (db_cov_B_blocks s) (db_cov_B_edges s))")
  have "join_coverage_to_blocks m Sample_B s =
          s\<lparr> db_rva_to_bb_cache := c,
              db_cov_B_blocks_joined := foldl joined_insert_or_ignore (db_cov_B_blocks_joined s) jd \<rparr>"
    unfolding join_coverage_to_blocks_def Let_def using f by simp
  then show ?thesis using set_foldl_joined_insert_mono by blast
qed

lemma expand_deterministic_total:
  "\<exists>tbl'. expand_deterministic_for_sample bbs cfg_edges tbl = Some tbl' \<and> set tbl \<subseteq> set tbl'"
proof -
  have "distinct (remdups (map fst tbl))" by simp
  from expand_binaries_result [OF this, of bbs cfg_edges tbl]
  show ?thesis unfolding expand_deterministic_for_sample_def by blast
qed

lemma expand_sample_A:
  "\<exists>J. expand_sample m Sample_A s = Some (s\<lparr> db_cov_A_blocks_joined := J \<rparr>) \<and>
        set (db_cov_A_blocks_joined s) \<subseteq> set J"
  using expand_deterministic_total [of "master_basic_blocks m" "master_cfg_edges m"
          "db_cov_A_blocks_joined s"]
  unfolding expand_sample_def by auto

lemma expand_sample_B:
  "\<exists>J. expand_sample m Sample_B s = Some (s\<lparr> db_cov_B_blocks_joined := J \<rparr>) \<and>
        set (db_cov_B_blocks_joined s) \<subseteq> set J"
  using expand_deterministic_total [of "master_basic_blocks m" "master_cfg_edges m"
          "db_cov_B_blocks_joined s"]
  unfolding expand_sample_def by auto

lemma map_modules_to_binaries_frame:
  "\<exists>M. snd (map_modules_to_binaries m s) = s\<lparr> db_module_binary_map := M \<rparr>"
  unfolding map_modules_to_binaries_def Let_def snd_conv by (rule exI) (rule refl)

lemma map_modules_to_binaries_count:
  "db_modules s = db_modules s' \<Longrightarrow>
   fst (map_modules_to_binaries m s) = fst (map_modules_to_binaries m s')"
  unfolding map_modules_to_binaries_def Let_def by simp

lemma main_no_modules:
  "fst (map_modules_to_binaries m s) = 0 \<Longrightarrow> main m s = Some (Inl NoModulesMapped)"
  unfolding main_def by (simp add: case_prod_beta)

lemma main_stages:
  assumes "fst (map_modules_to_binaries m s) \<noteq> 0"
  shows "\<exists>M c JA JB. main m s =
           analysis_stages m
             (s\<lparr> db_module_binary_map := M, db_rva_to_bb_cache := c,
                 db_cov_A_blocks_joined := JA, db_cov_B_blocks_joined := JB \<rparr>) \<and>
           set (db_cov_A_blocks_joined s) \<subseteq> set JA \<and> set (db_cov_B_blocks_joined s) \<subseteq> set JB"
proof -
  obtain M where s1: "snd (map_modules_to_binaries m s) = s\<lparr> db_module_binary_map := M \<rparr>"
    using map_modules_to_binaries_frame by blast
  define s1 where "s1 = s\<lparr> db_module_binary_map := M \<rparr>"
  obtain c1 J1 where j1: "join_coverage_to_blocks m Sample_A s1 =
            s1\<lparr> db_rva_to_bb_cache := c1, db_cov_A_blocks_joined := J1 \<rparr>"
    and m1: "set (db_cov_A_blocks_joined s1) \<subseteq> set J1"
    using join_coverage_to_blocks_A by blast
  define a1 where "a1 = s1\<lparr> db_rva_to_bb_cache := c1, db_cov_A_blocks_joined := J1 \<rparr>"
  obtain J2 where e1: "expand_sample m Sample_A a1 = Some (a1\<lparr> db_cov_A_blocks_joined := J2 \<rparr>)"
    and m2: "set (db_cov_A_blocks_joined a1) \<subseteq> set J2"
    using expand_sample_A by blast
  define s2 where "s2 = a1\<lparr> db_cov_A_blocks_joined := J2 \<rparr>"
  obtain c2 J3 where j2: "join_coverage_to_blocks m Sample_B s2 =
            s2\<lparr> db_rva_to_bb_cache := c2, db_cov_B_blocks_joined := J3 \<rparr>"
    and m3: "set (db_cov_B_blocks_joined s2) \<subseteq> set J3"
    using join_coverage_to_blocks_B by blast
  define b1 where "b1 = s2\<lparr> db_rva_to_bb_cache := c2, db_cov_B_blocks_joined := J3 \<rparr>"
  obtain J4 where e2: "expand_sample m Sample_B b1 = Some (b1\<lparr> db_cov_B_blocks_joined := J4 \<rparr>)"
    and m4: "set (db_cov_B_blocks_joined b1) \<subseteq> set J4"
    using expand_sample_B by blast
  define s3 where "s3 = b1\<lparr> db_cov_B_blocks_joined := J4 \<rparr>"
  have "main m s = analysis_stages m s3"
    unfolding main_def using assms s1 j1 e1 j2 e2
    by (simp add: case_prod_beta s1_def [symmetric] a1_def [symmetric] s2_def [symmetric]
          b1_def [symmetric] s3_def [symmetric])
  moreover have "s3 = s\<lparr> db_module_binary_map := M, db_rva_to_bb_cache := c2,
                 db_cov_A_blocks_joined := J2, db_cov_B_blocks_joined := J4 \<rparr>"
    unfolding s3_def b1_def s2_def a1_def s1_def by simp
  moreover have "set (db_cov_A_blocks_joined s) \<subseteq> set J2"
    using m1 m2 unfolding a1_def s1_def by simp
  moreover have "set (db_cov_B_blocks_joined s) \<subseteq> set J4"
    using m3 m4 unfolding b1_def s2_def a1_def s1_def by simp
  ultimately show ?thesis by blast
qed

lemma frontier_stages_frame:
  assumes fr: "fresh_derived s" and st: "frontier_stages m s = Inr s'"
  shows "db_modules s' = db_modules s"
    and "db_cov_A_blocks_joined s' = db_cov_A_blocks_joined s"
    and "db_cov_B_blocks_joined s' = db_cov_B_blocks_joined s"
    and "db_bb_labels s' = diff_label_rows (db_cov_A_blocks_joined s) (db_cov_B_blocks_joined s)"
proof -
  from st obtain s1 where c1: "compute_diff_labels s = Inr s1"
    unfolding frontier_stages_def by (cases "compute_diff_labels s") auto
  from st c1 obtain s2 where c2: "build_executed_graph m s1 = Inr s2"
    unfolding frontier_stages_def by (cases "build_executed_graph m s1") auto
  from st c1 c2 have c3: "identify_frontier s2 = Inr s'"
    unfolding frontier_stages_def by simp
  have e: "db_bb_labels s = []" "db_graph_B_nodes s = []" "db_graph_B_edges s = []"
    "db_frontier_edges s = []" "db_frontier_targets s = []"
    using fr by (simp_all add: fresh_derived_def)
  have s1: "s1 = s\<lparr> db_bb_labels := diff_label_rows (db_cov_A_blocks_joined s) (db_cov_B_blocks_joined s) \<rparr>"
    by (rule compute_diff_labels_fresh(1) [OF c1 e(1)])
  have n1: "db_graph_B_nodes s1 = []" "db_graph_B_edges s1 = []" unfolding s1 using e by simp_all
  obtain E3 c where s2: "s2 = s1\<lparr> db_graph_B_nodes := b_node_rows (db_bb_labels s1) @ super_root_node_rows (db_bb_labels s1),
              db_graph_B_edges := E3 @ orphan_rows (db_bb_labels s1) E3,
              db_rva_to_bb_cache := c \<rparr>"
    by (rule build_executed_graph_fresh [OF c2 n1]) blast
  have n2: "db_frontier_edges s2 = []" "db_frontier_targets s2 = []"
    unfolding s2 s1 using e by simp_all
  note s3 = identify_frontier_fresh [OF c3 n2]
  show "db_modules s' = db_modules s" unfolding s3 s2 s1 by simp
  show "db_cov_A_blocks_joined s' = db_cov_A_blocks_joined s" unfolding s3 s2 s1 by simp
  show "db_cov_B_blocks_joined s' = db_cov_B_blocks_joined s" unfolding s3 s2 s1 by simp
  show "db_bb_labels s' = diff_label_rows (db_cov_A_blocks_joined s) (db_cov_B_blocks_joined s)"
    unfolding s3 s2 s1 by simp
qed

lemma analysis_stages_frame:
  assumes fr: "fresh_derived s" and st: "analysis_stages m s = Some (Inr s')"
  shows "db_modules s' = db_modules s"
    and "db_cov_A_blocks_joined s' = db_cov_A_blocks_joined s"
    and "db_cov_B_blocks_joined s' = db_cov_B_blocks_joined s"
    and "db_bb_labels s' = diff_label_rows (db_cov_A_blocks_joined s) (db_cov_B_blocks_joined s)"
proof -
  from analysis_stages_tables [OF fr st] obtain s3 R fa where
    s3: "frontier_stages m s = Inr s3"
    and s': "s' = s3\<lparr> db_frontier_reachability := R, db_frontier_attribution := fa,
                   db_bb_attributed_to :=
                     concat (map (block_attribution_rows R) (graph_binaries s3)) \<rparr>"
    by blast
  show "db_modules s' = db_modules s"
    unfolding s' using frontier_stages_frame(1) [OF fr s3] by simp
  show "db_cov_A_blocks_joined s' = db_cov_A_blocks_joined s"
    unfolding s' using frontier_stages_frame(2) [OF fr s3] by simp
  show "db_cov_B_blocks_joined s' = db_cov_B_blocks_joined s"
    unfolding s' using frontier_stages_frame(3) [OF fr s3] by simp
  show "db_bb_labels s' = diff_label_rows (db_cov_A_blocks_joined s) (db_cov_B_blocks_joined s)"
    unfolding s' using frontier_stages_frame(4) [OF fr s3] by simp
qed

lemma diff_label_rows_keys:
  "label_key ` set (diff_label_rows JA JB) = (\<lambda>(b, f, bb). (b, bb)) ` (set JA \<union> set JB)"
proof -
  define unioned where "unioned = map (\<lambda>(b, f, bb). (b, f, bb, 1 :: int, 0 :: int)) JA @
                    map (\<lambda>(b, f, bb). (b, f, bb, 0, 1)) JB"
  define keys where "keys = remdups (map (\<lambda>(b, f, bb, in_A, in_B). (b, bb)) unioned)"
  define row where "row = (\<lambda>(kb, kbb).
                (let grp = filter (\<lambda>(b, f, bb, in_A :: int, in_B :: int). b = kb \<and> bb = kbb) unioned;
                     max_A = Max (set (map (\<lambda>(b, f, bb, in_A, in_B). in_A) grp));
                     max_B = Max (set (map (\<lambda>(b, f, bb, in_A, in_B). in_B) grp))
                 in (kb, (case last grp of (b, f, bb, in_A, in_B) \<Rightarrow> f), kbb, max_A, max_B,
                     if max_B = 1 \<and> max_A = 0 then 1 else 0 :: int)))"
  have rows: "diff_label_rows JA JB = map row keys"
    unfolding diff_label_rows_def Let_def row_def keys_def unioned_def by simp
  have key_row: "label_key (row k) = k" for k
    by (cases k) (simp add: row_def label_key_def Let_def)
  have "map label_key (map row keys) = keys" by (simp add: key_row comp_def)
  then have "label_key ` set (diff_label_rows JA JB) = set keys"
    unfolding rows by (metis list.set_map)
  also have "set keys = (\<lambda>(b, f, bb). (b, bb)) ` (set JA \<union> set JB)"
    unfolding keys_def unioned_def by force
  finally show ?thesis .
qed

lemma compute_diff_labels_collision:
  assumes "r \<in> set (db_bb_labels s)"
    and "label_key r \<in> (\<lambda>(b, f, bb). (b, bb)) ` (set (db_cov_A_blocks_joined s) \<union> set (db_cov_B_blocks_joined s))"
  shows "compute_diff_labels s = Inl IntegrityError"
proof -
  from assms(2) obtain r' where r': "r' \<in> set (diff_label_rows (db_cov_A_blocks_joined s) (db_cov_B_blocks_joined s))"
    and k: "label_key r' = label_key r"
    unfolding diff_label_rows_keys [symmetric] by auto
  have "label_key r' \<in> label_key ` set (db_bb_labels s)" unfolding k using assms(1) by simp
  then have "\<not> (\<forall>x \<in> set (diff_label_rows (db_cov_A_blocks_joined s) (db_cov_B_blocks_joined s)).
                 label_key x \<notin> label_key ` set (db_bb_labels s))"
    using r' by blast
  then show ?thesis unfolding compute_diff_labels_def insert_plain_def by simp
qed

lemma analysis_stages_collision:
  assumes "compute_diff_labels s = Inl IntegrityError"
  shows "analysis_stages m s = Some (Inl IntegrityError)"
  unfolding analysis_stages_def frontier_stages_def using assms by simp


lemma example_input_fresh: "fresh_derived example_input"
  by (simp add: fresh_derived_def example_input_def)

lemma example_main_labels:
  "map_option (map_sum id db_bb_labels) (main example_master example_input)
   = Some (Inr [(1, 7, 100, 1, 1, 0), (1, 7, 200, 1, 1, 0), (1, 7, 300, 0, 1, 1),
                (1, 7, 400, 1, 1, 0), (1, 7, 500, 1, 1, 0), (1, 7, 600, 0, 1, 1)])"
  by code_simp

text \<open>
  C7. The analysis is not idempotent on the store it writes. When a first run on a store
  whose derived tables were empty has gone through and has labelled at least one block,
  a second run on the store that the first run left reaches \<^verbatim>\<open>compute_diff_labels\<close>, whose
  plain \<^verbatim>\<open>INSERT INTO bb_labels\<close> raises \<^verbatim>\<open>sqlite3.IntegrityError\<close> on the primary key
  \<^verbatim>\<open>(binary_id, bb_rva)\<close>: the joined tables only grow, so every label of the first run is
  computed again. \<^verbatim>\<open>main\<close> catches the exception and exits with code 1.
\<close>

theorem second_run_raises_integrity_error:
  assumes "fresh_derived s0" and "main master s0 = Some (Inr s1)" and "db_bb_labels s1 \<noteq> []"
  shows "main master s1 = Some (Inl IntegrityError)"
proof -
  have n0: "fst (map_modules_to_binaries master s0) \<noteq> 0"
  proof
    assume "fst (map_modules_to_binaries master s0) = 0"
    from main_no_modules [OF this] show False using assms(2) by simp
  qed
  from main_stages [OF n0] obtain M c JA JB where
    a: "main master s0 =
           analysis_stages master
             (s0\<lparr> db_module_binary_map := M, db_rva_to_bb_cache := c,
                 db_cov_A_blocks_joined := JA, db_cov_B_blocks_joined := JB \<rparr>)"
    by blast
  define a3 where "a3 = s0\<lparr> db_module_binary_map := M, db_rva_to_bb_cache := c,
                 db_cov_A_blocks_joined := JA, db_cov_B_blocks_joined := JB \<rparr>"
  have fa: "fresh_derived a3" using assms(1) unfolding a3_def fresh_derived_def by simp
  have st: "analysis_stages master a3 = Some (Inr s1)" using a assms(2) unfolding a3_def by simp
  have mods: "db_modules s1 = db_modules s0"
    using analysis_stages_frame(1) [OF fa st] unfolding a3_def by simp
  have L: "db_bb_labels s1 = diff_label_rows (db_cov_A_blocks_joined s1) (db_cov_B_blocks_joined s1)"
    using analysis_stages_frame(2,3,4) [OF fa st] by simp
  have n1: "fst (map_modules_to_binaries master s1) \<noteq> 0"
    using n0 map_modules_to_binaries_count [OF mods, of master] by simp
  from main_stages [OF n1] obtain M' c' JA' JB' where
    b: "main master s1 =
           analysis_stages master
             (s1\<lparr> db_module_binary_map := M', db_rva_to_bb_cache := c',
                 db_cov_A_blocks_joined := JA', db_cov_B_blocks_joined := JB' \<rparr>)"
    and mA: "set (db_cov_A_blocks_joined s1) \<subseteq> set JA'"
    and mB: "set (db_cov_B_blocks_joined s1) \<subseteq> set JB'"
    by blast
  define b3 where "b3 = s1\<lparr> db_module_binary_map := M', db_rva_to_bb_cache := c',
                 db_cov_A_blocks_joined := JA', db_cov_B_blocks_joined := JB' \<rparr>"
  from assms(3) have "set (db_bb_labels s1) \<noteq> {}" by simp
  then have "\<exists>r. r \<in> set (db_bb_labels s1)" unfolding ex_in_conv .
  then obtain r where r: "r \<in> set (db_bb_labels s1)" ..
  then have "label_key r \<in> label_key ` set (diff_label_rows (db_cov_A_blocks_joined s1) (db_cov_B_blocks_joined s1))"
    using L by simp
  then have "label_key r \<in> (\<lambda>(b, f, bb). (b, bb)) ` (set (db_cov_A_blocks_joined s1) \<union> set (db_cov_B_blocks_joined s1))"
    unfolding diff_label_rows_keys .
  moreover have "set (db_cov_A_blocks_joined s1) \<union> set (db_cov_B_blocks_joined s1)
                   \<subseteq> set (db_cov_A_blocks_joined b3) \<union> set (db_cov_B_blocks_joined b3)"
    using mA mB unfolding b3_def by auto
  ultimately have k: "label_key r \<in> (\<lambda>(b, f, bb). (b, bb)) ` (set (db_cov_A_blocks_joined b3) \<union> set (db_cov_B_blocks_joined b3))"
    by (rule rev_subsetD [OF _ image_mono])
  have rb: "r \<in> set (db_bb_labels b3)" using r unfolding b3_def by simp
  have "compute_diff_labels b3 = Inl IntegrityError"
    by (rule compute_diff_labels_collision [OF rb k])
  then have "analysis_stages master b3 = Some (Inl IntegrityError)"
    by (rule analysis_stages_collision)
  then show ?thesis using b unfolding b3_def by simp
qed

theorem second_run_raises_integrity_error_witness:
  "fresh_derived example_input
 \<and> (\<exists>s1. main example_master example_input = Some (Inr s1)
         \<and> db_bb_labels s1 =
             [(1, 7, 100, 1, 1, 0), (1, 7, 200, 1, 1, 0), (1, 7, 300, 0, 1, 1),
              (1, 7, 400, 1, 1, 0), (1, 7, 500, 1, 1, 0), (1, 7, 600, 0, 1, 1)]
         \<and> main example_master s1 = Some (Inl IntegrityError))"
proof -
  obtain s1 where st: "main example_master example_input = Some (Inr s1)"
    and L: "db_bb_labels s1 =
             [(1, 7, 100, 1, 1, 0), (1, 7, 200, 1, 1, 0), (1, 7, 300, 0, 1, 1),
              (1, 7, 400, 1, 1, 0), (1, 7, 500, 1, 1, 0), (1, 7, 600, 0, 1, 1)]"
  proof (cases "main example_master example_input")
    case None
    then show ?thesis using example_main_labels by simp
  next
    case (Some r)
    show ?thesis
    proof (cases r)
      case (Inl e)
      then show ?thesis using Some example_main_labels by simp
    next
      case (Inr s)
      show ?thesis
        by (rule that [of s]) (use Some Inr example_main_labels in simp_all)
    qed
  qed
  have ne: "db_bb_labels s1 \<noteq> []" unfolding L by simp
  from second_run_raises_integrity_error [OF example_input_fresh st ne]
  have "main example_master s1 = Some (Inl IntegrityError)" .
  then show ?thesis using example_input_fresh st L by blast
qed


end
